(* ===== verification/Fleet_Prelude.thy ===== *)
theory Fleet_Prelude
  imports Complex_Main "HOL-Library.AList" "HOL-Library.Char_ord" "HOL-Library.List_Lexorder"
    "HOL-Library.Product_Lexorder" "HOL-Library.Word" "HOL-Library.Multiset" "HOL-Library.Extended_Nat"
begin

text \<open>
  What every component shares: the model's reading of Go's own types and the generic lemmas
  about them.

  \<^item> A Go \<open>time.Time\<close> is an \<open>int\<close>, the nanoseconds since Go's zero time, so the zero time is
    \<open>0\<close>, \<open>Before\<close> and \<open>After\<close> are \<open><\<close> and \<open>>\<close>, and \<open>Add\<close> is \<open>+\<close>. \<open>Sub\<close> saturates at the
    ends of the 64-bit range, as Go's does.
  \<^item> A Go \<open>time.Duration\<close>, \<open>int\<close> or \<open>int64\<close> is an \<open>int\<close>; \<open>wrap64\<close> is written wherever the code's
    arithmetic can leave the 64-bit range and a property depends on it.
  \<^item> A Go map is an association list with distinct keys. Its order is the order in which one
    \<open>range\<close> loop happens to visit it, which Go leaves unspecified.
  \<^item> A Go string or byte slice is a \<open>string\<close>: a list of bytes.
\<close>

named_theorems go_defs \<open>definitions of the Go primitives, unfolded by the components\<close>

type_synonym gotime = int
type_synonym duration = int
type_synonym ('k, 'v) gomap = "('k \<times> 'v) list"
type_synonym labels = "(string, string) gomap"

subsection \<open>Integers and durations\<close>

definition wrap64 :: "int \<Rightarrow> int" where
  [go_defs]: "wrap64 x = (x + 2 ^ 63) mod 2 ^ 64 - 2 ^ 63"

definition maxInt64 :: int where
  [go_defs]: "maxInt64 = 2 ^ 63 - 1"

definition minInt64 :: int where
  [go_defs]: "minInt64 = - (2 ^ 63)"

definition in_int64 :: "int \<Rightarrow> bool" where
  [go_defs]: "in_int64 x \<longleftrightarrow> minInt64 \<le> x \<and> x \<le> maxInt64"

text \<open>Go's integer division truncates towards zero.\<close>

definition go_div :: "int \<Rightarrow> int \<Rightarrow> int" where
  "go_div a b = sgn a * sgn b * (\<bar>a\<bar> div \<bar>b\<bar>)"

text \<open>\<open>time.Time.Sub\<close>, which saturates instead of overflowing.\<close>

definition time_Sub :: "gotime \<Rightarrow> gotime \<Rightarrow> duration" where
  "time_Sub t u = max minInt64 (min maxInt64 (t - u))"

abbreviation IsZero :: "gotime \<Rightarrow> bool" where
  "IsZero t \<equiv> t = 0"

definition Microsecond :: duration where [go_defs]: "Microsecond = 1000"
definition Millisecond :: duration where [go_defs]: "Millisecond = 1000000"
definition Second :: duration where [go_defs]: "Second = 1000000000"
definition Minute :: duration where [go_defs]: "Minute = 60 * Second"
definition Hour :: duration where [go_defs]: "Hour = 60 * Minute"

lemma wrap64_id [simp]: "in_int64 x \<Longrightarrow> wrap64 x = x"
  by (simp add: go_defs)

lemma wrap64_range: "in_int64 (wrap64 x)"
  by (simp add: go_defs)

lemma go_div_nonneg: "0 \<le> a \<Longrightarrow> 0 < b \<Longrightarrow> go_div a b = a div b"
  by (cases "a = 0") (simp_all add: go_div_def)

lemma time_Sub_nonneg_iff [simp]: "0 \<le> time_Sub t u \<longleftrightarrow> u \<le> t"
  by (auto simp: time_Sub_def go_defs)

lemma time_Sub_le: "u \<le> t \<Longrightarrow> time_Sub t u \<le> t - u"
  by (auto simp: time_Sub_def go_defs)

lemma time_Sub_exact: "in_int64 (t - u) \<Longrightarrow> time_Sub t u = t - u"
  by (auto simp: time_Sub_def in_int64_def)

lemma time_Sub_mono: "t \<le> t' \<Longrightarrow> time_Sub t u \<le> time_Sub t' u"
  by (auto simp: time_Sub_def)

subsection \<open>Maps as association lists\<close>

text \<open>\<open>m[k]\<close> on a map of strings: the empty string for an absent key.\<close>

definition map_str :: "('k, string) gomap \<Rightarrow> 'k \<Rightarrow> string" where
  "map_str m k = (case map_of m k of None \<Rightarrow> '''' | Some v \<Rightarrow> v)"

definition map_int :: "('k, int) gomap \<Rightarrow> 'k \<Rightarrow> int" where
  "map_int m k = (case map_of m k of None \<Rightarrow> 0 | Some v \<Rightarrow> v)"

abbreviation wf_map :: "('k, 'v) gomap \<Rightarrow> bool" where
  "wf_map m \<equiv> distinct (map fst m)"

text \<open>\<open>maps.Copy(dst, src)\<close>: every binding of \<open>src\<close> written over \<open>dst\<close>.\<close>

definition maps_Copy :: "('k, 'v) gomap \<Rightarrow> ('k, 'v) gomap \<Rightarrow> ('k, 'v) gomap" where
  "maps_Copy dst src = fold (\<lambda>(k, v) m. AList.update k v m) src dst"

lemma map_of_update [simp]:
  "map_of (AList.update k v m) k' = (if k' = k then Some v else map_of m k')"
  by (simp add: update_conv')

lemma map_of_adelete [simp]:
  "map_of (AList.delete k m) k' = (if k' = k then None else map_of m k')"
  by (simp add: delete_conv')

lemma wf_update [simp]: "wf_map m \<Longrightarrow> wf_map (AList.update k v m)"
  by (rule distinct_update)

lemma wf_delete [simp]: "wf_map m \<Longrightarrow> wf_map (AList.delete k m)"
  by (rule distinct_delete)

lemma map_of_maps_Copy:
  "wf_map src \<Longrightarrow>
   map_of (maps_Copy dst src) k = (case map_of src k of Some v \<Rightarrow> Some v | None \<Rightarrow> map_of dst k)"
proof (induction src arbitrary: dst)
  case Nil
  then show ?case by (simp add: maps_Copy_def)
next
  case (Cons kv src)
  obtain a b where kv: "kv = (a, b)" by (cases kv)
  have "maps_Copy dst (kv # src) = maps_Copy (AList.update a b dst) src"
    by (simp add: maps_Copy_def kv)
  moreover have "map_of src a = None" using Cons.prems by (simp add: kv map_of_eq_None_iff)
  ultimately show ?case using Cons.IH [of "AList.update a b dst"] Cons.prems
    by (auto simp: kv split: option.splits)
qed

lemma wf_maps_Copy [simp]: "wf_map dst \<Longrightarrow> wf_map (maps_Copy dst src)"
proof (induction src arbitrary: dst)
  case Nil
  then show ?case by (simp add: maps_Copy_def)
next
  case (Cons kv src)
  have "maps_Copy dst (kv # src) = maps_Copy (AList.update (fst kv) (snd kv) dst) src"
    by (simp add: maps_Copy_def split_def)
  then show ?case using Cons by simp
qed

lemma map_of_filter_wf:
  "wf_map m \<Longrightarrow>
   map_of (filter P m) k =
     (case map_of m k of None \<Rightarrow> None | Some v \<Rightarrow> if P (k, v) then Some v else None)"
proof (induction m)
  case Nil
  then show ?case by simp
next
  case (Cons kv m)
  obtain a b where kv: "kv = (a, b)" by (cases kv)
  have "map_of m a = None" using Cons.prems by (simp add: kv map_of_eq_None_iff)
  then show ?case using Cons by (auto simp: kv split: option.splits)
qed

lemma wf_filter [simp]: "wf_map m \<Longrightarrow> wf_map (filter P m)"
  by (induction m) auto

declare map_of_eq_Some_iff [simp del] Some_eq_map_of_iff [simp del] map_of_is_SomeI [simp del]

lemma mem_map_of: "wf_map m \<Longrightarrow> (k, v) \<in> set m \<longleftrightarrow> map_of m k = Some v"
  by (rule map_of_eq_Some_iff [symmetric])

lemma list_all_map_of:
  assumes "wf_map m"
  shows "list_all (\<lambda>(k, v). P k v) m \<longleftrightarrow> (\<forall>k v. map_of m k = Some v \<longrightarrow> P k v)"
  by (simp add: list_all_iff Ball_def mem_map_of [OF assms])

lemma update_update [simp]: "AList.update k v (AList.update k w m) = AList.update k v m"
  by (induction m) auto

lemma fst_update_mem [simp]: "map_of m k = Some w \<Longrightarrow> map fst (AList.update k v m) = map fst m"
  by (induction m) (auto split: if_splits)

subsection \<open>Strings\<close>

text \<open>\<open>strings.HasPrefix\<close>, \<open>strings.HasSuffix\<close>, \<open>strings.Contains\<close> and the trims the code uses.\<close>

fun HasPrefix :: "string \<Rightarrow> string \<Rightarrow> bool" where
  "HasPrefix s [] = True"
| "HasPrefix [] (p # ps) = False"
| "HasPrefix (c # cs) (p # ps) = (c = p \<and> HasPrefix cs ps)"

definition HasSuffix :: "string \<Rightarrow> string \<Rightarrow> bool" where
  "HasSuffix s p = HasPrefix (rev s) (rev p)"

fun Contains :: "string \<Rightarrow> string \<Rightarrow> bool" where
  "Contains [] p = (p = [])"
| "Contains (c # cs) p = (HasPrefix (c # cs) p \<or> Contains cs p)"

definition TrimSuffix :: "string \<Rightarrow> string \<Rightarrow> string" where
  "TrimSuffix s p = (if HasSuffix s p then take (length s - length p) s else s)"

lemma HasPrefix_iff: "HasPrefix s p \<longleftrightarrow> (\<exists>t. s = p @ t)"
  by (induction s p rule: HasPrefix.induct) auto

lemma HasSuffix_iff: "HasSuffix s p \<longleftrightarrow> (\<exists>t. s = t @ p)"
  unfolding HasSuffix_def HasPrefix_iff
  by (metis rev_append rev_rev_ident)

lemma Contains_iff: "Contains s p \<longleftrightarrow> (\<exists>t u. s = t @ p @ u)"
proof (induction s)
  case Nil
  then show ?case by auto
next
  case (Cons c cs)
  have "HasPrefix (c # cs) p \<Longrightarrow> \<exists>t u. c # cs = t @ p @ u"
    unfolding HasPrefix_iff by (metis append_Nil)
  moreover have "\<exists>t u. cs = t @ p @ u \<Longrightarrow> \<exists>t u. c # cs = t @ p @ u"
    by (metis append_Cons)
  moreover have "HasPrefix (c # cs) p \<or> (\<exists>t u. cs = t @ p @ u)" if "c # cs = t @ p @ u" for t u
    using that by (cases t) (auto simp: HasPrefix_iff)
  ultimately show ?case using Cons.IH by auto
qed

subsection \<open>Sorting\<close>

text \<open>
  \<open>slices.SortFunc\<close> with a comparison that orders by a key. The library's \<open>sort_key\<close> is
  stable; Go's is not, so it is only used where equal keys mean equal elements.
\<close>

lemma set_sort_key [simp]: "set (sort_key f xs) = set xs"
  by simp

end
