(* ===== verification/Fleet_Types.thy ===== *)
theory Fleet_Types
  imports Fleet_Prelude
begin

text \<open>
  The domain types of \<open>internal/fleet\<close> and the authorization decisions made on them:
  \<open>identity.go\<close> (credential classes, roles, keys, principals), \<open>scope.go\<close> (the scope document of
  an agent key and its evaluation) and \<open>cluster.go\<close> (the registry's public view of a cluster).

  A nil \<open>*Scope\<close>, \<open>*EnrollmentGrant\<close> or \<open>*time.Time\<close> is \<open>None\<close>. \<open>float64\<close> fields are \<open>real\<close>.
\<close>

subsection \<open>identity.go\<close>

type_synonym KeyClass = string
type_synonym Role = string

definition ClassAdmin :: KeyClass where "ClassAdmin = ''adm''"
definition ClassAgent :: KeyClass where "ClassAgent = ''agt''"
definition ClassEnrollment :: KeyClass where "ClassEnrollment = ''enr''"

definition KeyClass_Valid :: "KeyClass \<Rightarrow> bool" where
  "KeyClass_Valid c \<longleftrightarrow> c = ClassAdmin \<or> c = ClassAgent \<or> c = ClassEnrollment"

definition RoleViewer :: Role where "RoleViewer = ''viewer''"
definition RoleOperator :: Role where "RoleOperator = ''operator''"
definition RoleAdmin :: Role where "RoleAdmin = ''admin''"

definition Role_Valid :: "Role \<Rightarrow> bool" where
  "Role_Valid r \<longleftrightarrow> r = RoleViewer \<or> r = RoleOperator \<or> r = RoleAdmin"

lemmas class_defs = ClassAdmin_def ClassAgent_def ClassEnrollment_def
lemmas role_defs = RoleViewer_def RoleOperator_def RoleAdmin_def

record ClusterScope =
  cs_Allow :: "string list"
  cs_MatchLabels :: labels
  cs_Deny :: "string list"

record ToolScope =
  ts_Allow :: "string list"
  ts_Deny :: "string list"

record Limits =
  lim_MaxLookback :: duration
  lim_MaxPoints :: int
  lim_MaxSeries :: int
  lim_Timeout :: duration
  lim_MaxResponseBytes :: int
  lim_MaxConcurrentPerCluster :: int
  lim_RateRPS :: real
  lim_RateBurst :: int

record Scope =
  sc_Role :: Role
  sc_Clusters :: ClusterScope
  sc_Tools :: ToolScope
  sc_Limits :: Limits

record EnrollmentGrant =
  eg_ClusterID :: string
  eg_Labels :: labels
  eg_UsedAt :: "gotime option"
  eg_CertSerial :: string
  eg_Reusable :: bool
  eg_Redemptions :: int
  eg_MaxRedemptions :: int

record Key =
  k_KID :: string
  k_Class :: KeyClass
  k_Name :: string
  k_Owner :: string
  k_SecretHMAC :: string
  k_Scope :: "Scope option"
  k_Enrollment :: "EnrollmentGrant option"
  k_CreatedAt :: gotime
  k_ExpiresAt :: gotime
  k_LastUsed :: "gotime option"
  k_RevokedAt :: "gotime option"
  k_RevokedReason :: string

record Principal =
  p_KID :: string
  p_Name :: string
  p_Class :: KeyClass
  p_Role :: Role
  p_Scope :: "Scope option"
  p_Epoch :: "64 word"

definition Expired :: "Key \<Rightarrow> gotime \<Rightarrow> bool" where
  "Expired k now \<longleftrightarrow> \<not> IsZero (k_ExpiresAt k) \<and> now > k_ExpiresAt k"

definition Revoked :: "Key \<Rightarrow> bool" where
  "Revoked k \<longleftrightarrow> k_RevokedAt k \<noteq> None"

definition Usable :: "Key \<Rightarrow> gotime \<Rightarrow> bool" where
  "Usable k now \<longleftrightarrow> \<not> Revoked k \<and> \<not> Expired k now"

lemma Expired_mono: "Expired k t \<Longrightarrow> t \<le> u \<Longrightarrow> Expired k u"
  by (auto simp: Expired_def)

lemma Usable_antimono: "Usable k u \<Longrightarrow> t \<le> u \<Longrightarrow> Usable k t"
  using Expired_mono by (auto simp: Usable_def)

subsection \<open>cluster.go\<close>

datatype ClusterState = StateConnected | StateDisconnected | StateDegraded | StateUnset

record KubernetesInfo =
  ki_Available :: bool
  ki_UnavailableReason :: string
  ki_Version :: string
  ki_ClusterUID :: string
  ki_NodeCount :: int

record PrometheusInfo =
  pi_Reachable :: bool
  pi_UnreachableReason :: string
  pi_Flavor :: string
  pi_Version :: string
  pi_Retention :: string
  pi_ScrapeInterval :: string
  pi_LookbackDelta :: string
  pi_ExternalLabels :: labels
  pi_ActiveSeries :: int
  pi_MetricNames :: int
  pi_Jobs :: "string list"
  pi_Namespaces :: "string list"
  pi_MetricPrefixes :: "string list"
  pi_RuleGroups :: int
  pi_AlertingRules :: int
  pi_FiringAlerts :: int
  pi_HasAlertmanager :: bool

record Cluster =
  c_ID :: string
  c_DisplayName :: string
  c_Description :: string
  c_Labels :: labels
  c_State :: ClusterState
  c_LastSeen :: gotime
  c_ConnectedSince :: gotime
  c_AgentVersion :: string
  c_ProtocolVersion :: string
  c_CertNotAfter :: gotime
  c_Kubernetes :: KubernetesInfo
  c_Prometheus :: PrometheusInfo

definition Healthy :: "Cluster \<Rightarrow> bool" where
  "Healthy c \<longleftrightarrow> c_State c = StateConnected"

subsection \<open>scope.go\<close>

definition AllowsCluster :: "Scope option \<Rightarrow> string \<Rightarrow> labels \<Rightarrow> bool" where
  "AllowsCluster s cid lbls =
     (case s of
        None \<Rightarrow> False
      | Some s \<Rightarrow>
          if cid \<in> set (cs_Deny (sc_Clusters s)) then False
          else if list_ex (\<lambda>(k, want). map_str lbls k \<noteq> want) (cs_MatchLabels (sc_Clusters s)) then False
          else if cs_Allow (sc_Clusters s) = [] then cs_MatchLabels (sc_Clusters s) \<noteq> []
          else ''*'' \<in> set (cs_Allow (sc_Clusters s)) \<or> cid \<in> set (cs_Allow (sc_Clusters s)))"

definition matchToolPattern :: "string \<Rightarrow> string \<Rightarrow> bool" where
  "matchToolPattern pattern name =
     (if pattern = ''*'' then True
      else if HasSuffix pattern ''.*'' then HasPrefix name (TrimSuffix pattern ''*'')
      else pattern = name)"

definition AllowsTool :: "Scope option \<Rightarrow> string \<Rightarrow> bool" where
  "AllowsTool s name =
     (case s of
        None \<Rightarrow> False
      | Some s \<Rightarrow>
          if list_ex (\<lambda>d. matchToolPattern d name) (ts_Deny (sc_Tools s)) then False
          else list_ex (\<lambda>a. a = ''*'' \<or> a = name) (ts_Allow (sc_Tools s)))"

definition ToolExplicitlyAllowed :: "Scope option \<Rightarrow> string \<Rightarrow> bool" where
  "ToolExplicitlyAllowed s name =
     (case s of
        None \<Rightarrow> False
      | Some sc \<Rightarrow> if \<not> AllowsTool s name then False else name \<in> set (ts_Allow (sc_Tools sc)))"

datatype scope_error =
    ScopeRequired | InvalidRole Role | AdminRoleNotGrantable | ClustersRequired
  | ToolsAllowRequired | DenyWildcard | NegativeLimits

definition Scope_Validate :: "Scope option \<Rightarrow> scope_error option" where
  "Scope_Validate s =
     (case s of
        None \<Rightarrow> Some ScopeRequired
      | Some s \<Rightarrow>
          if \<not> Role_Valid (sc_Role s) then Some (InvalidRole (sc_Role s))
          else if sc_Role s = RoleAdmin then Some AdminRoleNotGrantable
          else if cs_Allow (sc_Clusters s) = [] \<and> cs_MatchLabels (sc_Clusters s) = [] then Some ClustersRequired
          else if ts_Allow (sc_Tools s) = [] then Some ToolsAllowRequired
          else if ''*'' \<in> set (cs_Deny (sc_Clusters s)) then Some DenyWildcard
          else if lim_MaxPoints (sc_Limits s) < 0 \<or> lim_MaxSeries (sc_Limits s) < 0
                  \<or> lim_MaxResponseBytes (sc_Limits s) < 0 then Some NegativeLimits
          else None)"

lemma AllowsCluster_iff:
  "AllowsCluster (Some s) cid lbls \<longleftrightarrow>
     cid \<notin> set (cs_Deny (sc_Clusters s)) \<and>
     (\<forall>(k, want) \<in> set (cs_MatchLabels (sc_Clusters s)). map_str lbls k = want) \<and>
     (if cs_Allow (sc_Clusters s) = [] then cs_MatchLabels (sc_Clusters s) \<noteq> []
      else ''*'' \<in> set (cs_Allow (sc_Clusters s)) \<or> cid \<in> set (cs_Allow (sc_Clusters s)))"
  by (auto simp: AllowsCluster_def list_ex_iff split_def)


lemma AllowsCluster_None [simp]: "\<not> AllowsCluster None cid lbls"
  by (simp add: AllowsCluster_def)

lemma AllowsTool_None [simp]: "\<not> AllowsTool None name"
  by (simp add: AllowsTool_def)

lemma Validate_selects:
  "Scope_Validate (Some s) = None \<Longrightarrow> cs_Allow (sc_Clusters s) \<noteq> [] \<or> cs_MatchLabels (sc_Clusters s) \<noteq> []"
  by (auto simp: Scope_Validate_def split: if_splits)





definition example_limits :: Limits where
  "example_limits = \<lparr>lim_MaxLookback = 0, lim_MaxPoints = 0, lim_MaxSeries = 0, lim_Timeout = 0,
     lim_MaxResponseBytes = 0, lim_MaxConcurrentPerCluster = 0, lim_RateRPS = 0, lim_RateBurst = 0\<rparr>"

definition example_scope :: Scope where
  "example_scope = \<lparr>sc_Role = RoleViewer,
     sc_Clusters = \<lparr>cs_Allow = [''*''], cs_MatchLabels = [(''env'', ''prod'')], cs_Deny = []\<rparr>,
     sc_Tools = \<lparr>ts_Allow = [''*''], ts_Deny = []\<rparr>, sc_Limits = example_limits\<rparr>"

lemmas example_scope_defs = example_scope_def example_limits_def


text \<open>
  A required label with an empty value does not require the label. \<open>ClusterScope.MatchLabels\<close>
  is documented as requiring every listed label \<^emph>\<open>to be present\<close> and equal; the code reads
  \<open>labels[k]\<close>, which is empty for an absent label, so a scope whose only selector is a label with
  an empty value passes \<open>Validate\<close> and reaches every cluster that lacks the label, a cluster with
  no labels at all included.
\<close>

theorem empty_label_selector_admits_unlabelled:
  assumes "Scope_Validate (Some s) = None"
    and "cs_Allow (sc_Clusters s) = []"
    and "\<forall>(k, want) \<in> set (cs_MatchLabels (sc_Clusters s)). want = ''''"
    and "cid \<notin> set (cs_Deny (sc_Clusters s))"
  shows "AllowsCluster (Some s) cid []"
  using assms Validate_selects [OF assms(1)]
  by (auto simp: AllowsCluster_iff map_str_def)

definition example_scope_empty_label :: Scope where
  "example_scope_empty_label = example_scope\<lparr>
     sc_Clusters := \<lparr>cs_Allow = [], cs_MatchLabels = [(''tier'', '''')], cs_Deny = []\<rparr>\<rparr>"

theorem empty_label_selector_admits_unlabelled_witness:
  "AllowsCluster (Some example_scope_empty_label) ''payments'' []"
proof -
  have v: "Scope_Validate (Some example_scope_empty_label) = None"
    by (simp add: Scope_Validate_def example_scope_empty_label_def example_scope_defs
        Role_Valid_def role_defs)
  show ?thesis
    by (rule empty_label_selector_admits_unlabelled [OF v])
       (simp_all add: example_scope_empty_label_def)
qed

end
