(* ===== verification/Store_State.thy ===== *)
theory Store_State
  imports Fleet_Types
begin

text \<open>
  The persisted credential document: \<open>internal/store/state.go\<close>, with the sentinels and the
  revocation entry of \<open>store.go\<close> and the label lookup of \<open>internal/hub/hub.go\<close> that reads it.

  A method of \<open>*State\<close> takes the document and returns the document it leaves behind together
  with its result; an error is the left summand. The two maps are association lists whose
  order is the order one \<open>range\<close> loop visits them in. The injected clock is the time it returns.
  \<open>cloneKey\<close> copies what lives behind a pointer; values here are never shared, so it is written
  field by field and proved to be the identity.
\<close>

subsection \<open>The document\<close>

datatype store_error =
    ErrNotFound | ErrAlreadyExists | ErrRevoked | ErrEnrollmentUsed | ErrClosed | ErrStateTooLarge
  | ErrWrongClass | ErrNotUsable | ErrInvalid | ErrCorrupt | ErrSchemaTooNew | ErrContext

definition SchemaVersion :: int where "SchemaVersion = 1"

record RevokedCert =
  rc_Serial :: string
  rc_RevokedAt :: gotime
  rc_NotAfter :: gotime
  rc_Reason :: string

record KeyRecord =
  kr_V :: int
  kr_Key :: Key
  kr_SecretHMAC :: string

record State =
  st_SchemaVersion :: int
  st_Epoch :: "64 word"
  st_Keys :: "(string, KeyRecord) gomap"
  st_RevokedCerts :: "(string, RevokedCert) gomap"

definition NewState :: State where
  "NewState = \<lparr>st_SchemaVersion = SchemaVersion, st_Epoch = 0, st_Keys = [], st_RevokedCerts = []\<rparr>"

text \<open>
  \<open>migrateTo\<close> walks the document up one version at a time. \<open>migrations\<close> is the table of
  registered upgrades, empty in this build.
\<close>

type_synonym migration = "State \<Rightarrow> store_error + State"

function migrate_loop :: "(int \<Rightarrow> migration option) \<Rightarrow> int \<Rightarrow> int \<Rightarrow> State \<Rightarrow> store_error + State" where
  "migrate_loop migs v target s =
     (if v < target then
        (case migs v of
           None \<Rightarrow> Inl ErrCorrupt
         | Some up \<Rightarrow>
             (case up s of
                Inl e \<Rightarrow> Inl e
              | Inr s' \<Rightarrow> migrate_loop migs (v + 1) target (s'\<lparr>st_SchemaVersion := v + 1\<rparr>)))
      else Inr s)"
  by pat_completeness auto
termination
  by (relation "measure (\<lambda>(_, v, target, _). nat (target - v))") auto

declare migrate_loop.simps [simp del]

definition migrateTo :: "(int \<Rightarrow> migration option) \<Rightarrow> int \<Rightarrow> State \<Rightarrow> store_error + State" where
  "migrateTo migs target s =
     (let s = (if st_SchemaVersion s = 0 then s\<lparr>st_SchemaVersion := SchemaVersion\<rparr> else s)
      in if st_SchemaVersion s > target then Inl ErrSchemaTooNew
         else migrate_loop migs (st_SchemaVersion s) target s)"

definition bump :: "State \<Rightarrow> State" where
  "bump s = s\<lparr>st_Epoch := st_Epoch s + 1\<rparr>"

subsection \<open>Keys\<close>

definition validateKey :: "Key option \<Rightarrow> store_error option" where
  "validateKey k =
     (case k of
        None \<Rightarrow> Some ErrInvalid
      | Some k \<Rightarrow>
          if k_KID k = '''' then Some ErrInvalid
          else if \<not> KeyClass_Valid (k_Class k) then Some ErrInvalid
          else None)"

definition cloneKey :: "Key \<Rightarrow> Key" where
  "cloneKey k = k\<lparr>
     k_SecretHMAC := k_SecretHMAC k,
     k_Scope := (case k_Scope k of
        None \<Rightarrow> None
      | Some sc \<Rightarrow> Some (sc\<lparr>
          sc_Clusters := (sc_Clusters sc)\<lparr>
            cs_Allow := cs_Allow (sc_Clusters sc), cs_Deny := cs_Deny (sc_Clusters sc),
            cs_MatchLabels := cs_MatchLabels (sc_Clusters sc)\<rparr>,
          sc_Tools := (sc_Tools sc)\<lparr>ts_Allow := ts_Allow (sc_Tools sc), ts_Deny := ts_Deny (sc_Tools sc)\<rparr>\<rparr>)),
     k_Enrollment := (case k_Enrollment k of
        None \<Rightarrow> None
      | Some g \<Rightarrow> Some (g\<lparr>eg_Labels := eg_Labels g,
                            eg_UsedAt := (case eg_UsedAt g of None \<Rightarrow> None | Some used \<Rightarrow> Some used)\<rparr>)),
     k_LastUsed := (case k_LastUsed k of None \<Rightarrow> None | Some used \<Rightarrow> Some used),
     k_RevokedAt := (case k_RevokedAt k of None \<Rightarrow> None | Some revoked \<Rightarrow> Some revoked)\<rparr>"

definition KeyRecord_value :: "KeyRecord \<Rightarrow> Key" where
  "KeyRecord_value r = (cloneKey (kr_Key r))\<lparr>k_SecretHMAC := kr_SecretHMAC r\<rparr>"

definition putKey :: "State \<Rightarrow> Key \<Rightarrow> State" where
  "putKey s k =
     (let rec = \<lparr>kr_V = SchemaVersion, kr_Key = (cloneKey k)\<lparr>k_SecretHMAC := ''''\<rparr>,
                 kr_SecretHMAC = k_SecretHMAC k\<rparr>
      in s\<lparr>st_Keys := AList.update (k_KID k) rec (st_Keys s)\<rparr>)"

definition PutKey :: "Key option \<Rightarrow> State \<Rightarrow> State \<times> (store_error + bool)" where
  "PutKey k s =
     (case validateKey k of
        Some e \<Rightarrow> (s, Inl e)
      | None \<Rightarrow>
          (case map_of (st_Keys s) (k_KID (the k)) of
             Some _ \<Rightarrow> (s, Inl ErrAlreadyExists)
           | None \<Rightarrow> (bump (putKey s (the k)), Inr True)))"

definition PutKeyIfNoUsable :: "Key option \<Rightarrow> gotime \<Rightarrow> State \<Rightarrow> State \<times> (store_error + bool)" where
  "PutKeyIfNoUsable k tm s =
     (case validateKey k of
        Some e \<Rightarrow> (s, Inl e)
      | None \<Rightarrow>
          (case map_of (st_Keys s) (k_KID (the k)) of
             Some rec \<Rightarrow>
               if Usable (KeyRecord_value rec) tm then (s, Inr False)
               else (bump (putKey s (the k)), Inr True)
           | None \<Rightarrow> (bump (putKey s (the k)), Inr True)))"

definition GetKey :: "State \<Rightarrow> string \<Rightarrow> store_error + Key" where
  "GetKey s kid =
     (case map_of (st_Keys s) kid of
        None \<Rightarrow> Inl ErrNotFound
      | Some rec \<Rightarrow> Inr (KeyRecord_value rec))"

definition ListKeys :: "KeyClass \<Rightarrow> State \<Rightarrow> Key list" where
  "ListKeys class s =
     sort_key (\<lambda>k. (k_CreatedAt k, k_KID k))
       (map KeyRecord_value
         (filter (\<lambda>rec. class = '''' \<or> k_Class (kr_Key rec) = class) (map snd (st_Keys s))))"

definition RevokeKey :: "string \<Rightarrow> string \<Rightarrow> gotime \<Rightarrow> gotime \<Rightarrow> State \<Rightarrow> State \<times> (store_error + bool)" where
  "RevokeKey kid reason tm now s =
     (case map_of (st_Keys s) kid of
        None \<Rightarrow> (s, Inl ErrNotFound)
      | Some rec \<Rightarrow>
          if k_RevokedAt (kr_Key rec) \<noteq> None then (s, Inr False)
          else
            (let when = (if IsZero tm then now else tm);
                 rec = rec\<lparr>kr_Key := (kr_Key rec)\<lparr>k_RevokedAt := Some when, k_RevokedReason := reason\<rparr>\<rparr>
             in (bump (s\<lparr>st_Keys := AList.update kid rec (st_Keys s)\<rparr>), Inr True)))"

definition ReplaceKey ::
    "Key option \<Rightarrow> string \<Rightarrow> string \<Rightarrow> gotime \<Rightarrow> gotime \<Rightarrow> State \<Rightarrow> State \<times> (store_error + bool)" where
  "ReplaceKey fresh oldKID reason tm now s =
     (case map_of (st_Keys s) oldKID of
        None \<Rightarrow> (s, Inl ErrNotFound)
      | Some old \<Rightarrow>
          if k_RevokedAt (kr_Key old) \<noteq> None then (s, Inl ErrRevoked)
          else
            (case PutKey fresh s of
               (s1, Inl e) \<Rightarrow> (s1, Inl e)
             | (s1, Inr _) \<Rightarrow>
                 (let when = (if IsZero tm then now else tm);
                      old = old\<lparr>kr_Key := (kr_Key old)\<lparr>k_RevokedAt := Some when, k_RevokedReason := reason\<rparr>\<rparr>
                  in (s1\<lparr>st_Keys := AList.update oldKID old (st_Keys s1)\<rparr>, Inr True))))"

definition DeleteKey :: "string \<Rightarrow> State \<Rightarrow> State \<times> (store_error + bool)" where
  "DeleteKey kid s =
     (case map_of (st_Keys s) kid of
        None \<Rightarrow> (s, Inl ErrNotFound)
      | Some _ \<Rightarrow> (bump (s\<lparr>st_Keys := AList.delete kid (st_Keys s)\<rparr>), Inr True))"

definition TouchKey :: "string \<Rightarrow> gotime \<Rightarrow> gotime \<Rightarrow> State \<Rightarrow> State \<times> (store_error + bool)" where
  "TouchKey kid tm now s =
     (case map_of (st_Keys s) kid of
        None \<Rightarrow> (s, Inl ErrNotFound)
      | Some rec \<Rightarrow>
          (let when = (if IsZero tm then now else tm);
               rec = rec\<lparr>kr_Key := (kr_Key rec)\<lparr>k_LastUsed := Some when\<rparr>\<rparr>
           in (s\<lparr>st_Keys := AList.update kid rec (st_Keys s)\<rparr>, Inr True)))"

definition BurnEnrollment ::
    "string \<Rightarrow> string \<Rightarrow> gotime \<Rightarrow> gotime \<Rightarrow> State \<Rightarrow> State \<times> (store_error + Key)" where
  "BurnEnrollment kid certSerial tm now s =
     (if certSerial = '''' then (s, Inl ErrInvalid)
      else
        (case map_of (st_Keys s) kid of
           None \<Rightarrow> (s, Inl ErrNotFound)
         | Some rec \<Rightarrow>
             (case (k_Class (kr_Key rec) = ClassEnrollment, k_Enrollment (kr_Key rec)) of
                (True, Some g) \<Rightarrow>
                  (let when = (if IsZero tm then now else tm)
                   in if \<not> Usable (kr_Key rec) when then (s, Inl ErrNotUsable)
                      else if eg_Reusable g \<and> eg_MaxRedemptions g > 0 \<and> eg_Redemptions g \<ge> eg_MaxRedemptions g
                      then (s, Inl ErrEnrollmentUsed)
                      else if \<not> eg_Reusable g \<and> eg_UsedAt g \<noteq> None then (s, Inl ErrEnrollmentUsed)
                      else
                        (let grant = g\<lparr>eg_UsedAt := Some when, eg_CertSerial := certSerial,
                                       eg_Redemptions := eg_Redemptions g + 1\<rparr>;
                             rec = rec\<lparr>kr_Key := (kr_Key rec)\<lparr>k_Enrollment := Some grant\<rparr>\<rparr>
                         in (bump (s\<lparr>st_Keys := AList.update kid rec (st_Keys s)\<rparr>),
                             Inr (KeyRecord_value rec))))
              | _ \<Rightarrow> (s, Inl ErrWrongClass))))"

subsection \<open>Revoked certificates\<close>

definition RevokeCert :: "RevokedCert \<Rightarrow> gotime \<Rightarrow> State \<Rightarrow> State \<times> (store_error + bool)" where
  "RevokeCert rc now s =
     (if rc_Serial rc = '''' then (s, Inl ErrInvalid)
      else
        (let rc = (if IsZero (rc_RevokedAt rc) then rc\<lparr>rc_RevokedAt := now\<rparr> else rc)
         in (bump (s\<lparr>st_RevokedCerts := AList.update (rc_Serial rc) rc (st_RevokedCerts s)\<rparr>), Inr True)))"

definition ListRevokedCerts :: "State \<Rightarrow> RevokedCert list" where
  "ListRevokedCerts s = sort_key rc_Serial (map snd (st_RevokedCerts s))"

subsection \<open>Pruning\<close>

record PruneResult =
  pr_Keys :: nat
  pr_RevokedCerts :: nat

definition PruneResult_Empty :: "PruneResult \<Rightarrow> bool" where
  "PruneResult_Empty p \<longleftrightarrow> pr_Keys p = 0 \<and> pr_RevokedCerts p = 0"

text \<open>The loop of \<open>labelAuthorities\<close>: one pass over the records, keeping the newest per cluster.\<close>

definition authority_step :: "KeyRecord \<Rightarrow> (string, Key) gomap \<Rightarrow> (string, Key) gomap" where
  "authority_step rec newest =
     (let k = kr_Key rec in
      case (k_Class k = ClassEnrollment, k_Enrollment k) of
        (True, Some g) \<Rightarrow>
          if Revoked k then newest
          else
            (case map_of newest (eg_ClusterID g) of
               None \<Rightarrow> AList.update (eg_ClusterID g) k newest
             | Some cur \<Rightarrow>
                 if k_CreatedAt k > k_CreatedAt cur
                    \<or> (k_CreatedAt k = k_CreatedAt cur \<and> k_KID k < k_KID cur)
                 then AList.update (eg_ClusterID g) k newest
                 else newest)
      | _ \<Rightarrow> newest)"

definition labelAuthorities :: "State \<Rightarrow> string set" where
  "labelAuthorities s =
     (let newest = fold authority_step (map snd (st_Keys s)) []
      in set (map (k_KID \<circ> snd) newest))"

text \<open>The conditions under which the two loops of \<open>Prune\<close> leave an entry in place.\<close>

definition keeps_cert :: "gotime \<Rightarrow> duration \<Rightarrow> RevokedCert \<Rightarrow> bool" where
  "keeps_cert now retain rc \<longleftrightarrow> IsZero (rc_NotAfter rc) \<or> \<not> now > rc_NotAfter rc + retain"

definition keeps_key :: "gotime \<Rightarrow> duration \<Rightarrow> string set \<Rightarrow> string \<Rightarrow> KeyRecord \<Rightarrow> bool" where
  "keeps_key now retain authority kid rec \<longleftrightarrow>
     (let exp = k_ExpiresAt (kr_Key rec)
      in IsZero exp \<or> \<not> now > exp + retain \<or> kid \<in> authority)"

definition Prune :: "gotime \<Rightarrow> duration \<Rightarrow> State \<Rightarrow> State \<times> (store_error + PruneResult \<times> bool)" where
  "Prune now retain s =
     (if retain < 0 then (s, Inl ErrInvalid)
      else
        (let certs = filter (\<lambda>(serial, rc). keeps_cert now retain rc) (st_RevokedCerts s);
             authority = labelAuthorities s;
             keys = filter (\<lambda>(kid, rec). keeps_key now retain authority kid rec) (st_Keys s);
             res = \<lparr>pr_Keys = length (st_Keys s) - length keys,
                    pr_RevokedCerts = length (st_RevokedCerts s) - length certs\<rparr>
         in (s\<lparr>st_Keys := keys, st_RevokedCerts := certs\<rparr>, Inr (res, \<not> PruneResult_Empty res))))"

subsection \<open>The operator's labels: hub.enrollmentLabels\<close>

definition newest_step :: "string \<Rightarrow> Key \<Rightarrow> Key option \<Rightarrow> Key option" where
  "newest_step clusterID k newest =
     (case k_Enrollment k of
        None \<Rightarrow> newest
      | Some g \<Rightarrow>
          if eg_ClusterID g \<noteq> clusterID then newest
          else if Revoked k then newest
          else
            (case newest of
               None \<Rightarrow> Some k
             | Some n \<Rightarrow> if k_CreatedAt k > k_CreatedAt n then Some k else newest))"

definition enrollmentLabels :: "(store_error + State) option \<Rightarrow> string \<Rightarrow> store_error + labels" where
  "enrollmentLabels store clusterID =
     (case store of
        None \<Rightarrow> Inr []
      | Some read \<Rightarrow>
          if clusterID = '''' then Inr []
          else
            (case read of
               Inl e \<Rightarrow> Inl e
             | Inr s \<Rightarrow>
                 (case fold (newest_step clusterID) (ListKeys ClassEnrollment s) None of
                    None \<Rightarrow> Inr []
                  | Some k \<Rightarrow> Inr (eg_Labels (the (k_Enrollment k))))))"

subsection \<open>Encoding and the backend helpers\<close>

text \<open>
  \<open>marshal\<close> and \<open>unmarshal\<close> stand for \<open>encoding/json\<close> on the document. A nil map and an empty one
  are both the empty list, so the two nil checks of \<open>Decode\<close> have nothing to do here.
\<close>

definition Decode :: "(string \<Rightarrow> State option) \<Rightarrow> (int \<Rightarrow> migration option) \<Rightarrow> string \<Rightarrow> store_error + State" where
  "Decode unmarshal migs b =
     (if length b = 0 then Inr NewState
      else (case unmarshal b of
              None \<Rightarrow> Inl ErrCorrupt
            | Some s \<Rightarrow> migrateTo migs SchemaVersion s))"

definition Encode :: "(State \<Rightarrow> string) \<Rightarrow> State \<Rightarrow> State \<times> string" where
  "Encode marshal s = (let s = s\<lparr>st_SchemaVersion := SchemaVersion\<rparr> in (s, marshal s))"

definition EncodeWithin :: "(State \<Rightarrow> string) \<Rightarrow> int \<Rightarrow> State \<Rightarrow> State \<times> (store_error + string)" where
  "EncodeWithin marshal maxlen s =
     (let (s, b) = Encode marshal s
      in if maxlen > 0 \<and> int (length b) > maxlen then (s, Inl ErrStateTooLarge) else (s, Inr b))"

definition CheckContext :: "store_error option \<Rightarrow> bool \<Rightarrow> store_error option" where
  "CheckContext ctx_err isclosed =
     (case ctx_err of Some e \<Rightarrow> Some e | None \<Rightarrow> if isclosed then Some ErrClosed else None)"

subsection \<open>Sequences of operations\<close>

text \<open>
  Every mutation of the \<open>Store\<close> interface as data, so that a history of the document is a list.
  The results are reduced to \<open>changed\<close> or the error.
\<close>

datatype store_op =
    OpPutKey "Key option"
  | OpPutKeyIfNoUsable "Key option" gotime
  | OpRevokeKey string string gotime
  | OpReplaceKey "Key option" string string gotime
  | OpDeleteKey string
  | OpTouchKey string gotime
  | OpBurnEnrollment string string gotime
  | OpRevokeCert RevokedCert
  | OpPrune duration

definition changed_only :: "State \<times> (store_error + 'a) \<Rightarrow> ('a \<Rightarrow> bool) \<Rightarrow> State \<times> (store_error + bool)" where
  "changed_only r f = (fst r, (case snd r of Inl e \<Rightarrow> Inl e | Inr x \<Rightarrow> Inr (f x)))"

fun apply_op :: "gotime \<Rightarrow> store_op \<Rightarrow> State \<Rightarrow> State \<times> (store_error + bool)" where
  "apply_op now (OpPutKey k) s = PutKey k s"
| "apply_op now (OpPutKeyIfNoUsable k tm) s = PutKeyIfNoUsable k (if IsZero tm then now else tm) s"
| "apply_op now (OpRevokeKey kid reason tm) s = RevokeKey kid reason tm now s"
| "apply_op now (OpReplaceKey k old reason tm) s = ReplaceKey k old reason tm now s"
| "apply_op now (OpDeleteKey kid) s = DeleteKey kid s"
| "apply_op now (OpTouchKey kid tm) s = TouchKey kid tm now s"
| "apply_op now (OpBurnEnrollment kid serial tm) s =
     changed_only (BurnEnrollment kid serial tm now s) (\<lambda>_. True)"
| "apply_op now (OpRevokeCert rc) s = RevokeCert rc now s"
| "apply_op now (OpPrune retain) s =
     changed_only (Prune now retain s) snd"

text \<open>A history: the operations with the clock reading each one saw, and what each returned.\<close>

fun run_ops :: "(gotime \<times> store_op) list \<Rightarrow> State \<Rightarrow> State \<times> (store_error + bool) list" where
  "run_ops [] s = (s, [])"
| "run_ops ((now, op) # ops) s =
     (let (s', r) = apply_op now op s; (s'', rs) = run_ops ops s' in (s'', r # rs))"

definition wf_key_entry :: "string \<Rightarrow> KeyRecord \<Rightarrow> bool" where
  "wf_key_entry kid rec \<longleftrightarrow>
     kid \<noteq> '''' \<and> k_KID (kr_Key rec) = kid \<and> KeyClass_Valid (k_Class (kr_Key rec))
     \<and> k_SecretHMAC (kr_Key rec) = ''''"

definition wf_cert_entry :: "string \<Rightarrow> RevokedCert \<Rightarrow> bool" where
  "wf_cert_entry serial rc \<longleftrightarrow> serial \<noteq> '''' \<and> rc_Serial rc = serial"

definition wf_state :: "State \<Rightarrow> bool" where
  "wf_state s \<longleftrightarrow>
     wf_map (st_Keys s) \<and> wf_map (st_RevokedCerts s)
     \<and> list_all (\<lambda>(kid, rec). wf_key_entry kid rec) (st_Keys s)
     \<and> list_all (\<lambda>(serial, rc). wf_cert_entry serial rc) (st_RevokedCerts s)"

text \<open>
  What a decision can depend on: the key a caller may still use at a given time, apart from its
  last-use stamp, and whether a certificate serial is refused at that time. \<open>/renew\<close> accepts a
  certificate for \<open>RenewGrace\<close> past its expiry, so that a revocation decides that much longer.
\<close>

definition auth_view :: "State \<Rightarrow> string \<Rightarrow> gotime \<Rightarrow> Key option" where
  "auth_view s kid t =
     (case GetKey s kid of
        Inl _ \<Rightarrow> None
      | Inr k \<Rightarrow> if Usable k t then Some (k\<lparr>k_LastUsed := None\<rparr>) else None)"

definition cert_view :: "duration \<Rightarrow> State \<Rightarrow> string \<Rightarrow> gotime \<Rightarrow> RevokedCert option" where
  "cert_view grace s serial t =
     (case map_of (st_RevokedCerts s) serial of
        None \<Rightarrow> None
      | Some rc \<Rightarrow> if IsZero (rc_NotAfter rc) \<or> t \<le> rc_NotAfter rc + grace then Some rc else None)"

text \<open>
  A pass of \<open>hub.runStatePrune\<close>: the retention it hands to the store is the configured one and the
  renewal grace on top of it. A non-positive interval switches the passes off.
\<close>

definition prune_pass :: "duration \<Rightarrow> duration \<Rightarrow> duration \<Rightarrow> store_op option" where
  "prune_pass statePruneInterval stateRetention renewGrace =
     (let retain = stateRetention + renewGrace
      in if statePruneInterval \<le> 0 then None else Some (OpPrune retain))"

text \<open>An operation respects a grace if it is no pruning that keeps revocations for a shorter time.\<close>

definition op_honours :: "duration \<Rightarrow> store_op \<Rightarrow> bool" where
  "op_honours grace op \<longleftrightarrow> (case op of OpPrune retain \<Rightarrow> retain < 0 \<or> grace \<le> retain | _ \<Rightarrow> True)"

text \<open>How many more redemptions a stored enrollment token admits.\<close>

definition burn_budget :: "State \<Rightarrow> string \<Rightarrow> enat" where
  "burn_budget s kid =
     (case map_of (st_Keys s) kid of
        None \<Rightarrow> 0
      | Some rec \<Rightarrow>
          (case k_Enrollment (kr_Key rec) of
             None \<Rightarrow> 0
           | Some g \<Rightarrow>
               if eg_Reusable g
               then if eg_MaxRedemptions g > 0 then enat (nat (eg_MaxRedemptions g - eg_Redemptions g)) else \<infinity>
               else if eg_UsedAt g = None then 1 else 0))"

fun burns_of :: "string \<Rightarrow> (gotime \<times> store_op) list \<Rightarrow> (store_error + bool) list \<Rightarrow> nat" where
  "burns_of kid ((_, OpBurnEnrollment k _ _) # ops) (r # rs) =
     (if k = kid \<and> r = Inr True then 1 else 0) + burns_of kid ops rs"
| "burns_of kid (_ # ops) (_ # rs) = burns_of kid ops rs"
| "burns_of kid _ _ = 0"

text \<open>The operations that can end the life of the key \<open>kid\<close>, or store another in its place.\<close>

fun withdraws :: "string \<Rightarrow> store_op \<Rightarrow> bool" where
  "withdraws kid (OpRevokeKey k _ _) = (k = kid)"
| "withdraws kid (OpReplaceKey _ old _ _) = (old = kid)"
| "withdraws kid (OpDeleteKey k) = (k = kid)"
| "withdraws kid (OpPutKeyIfNoUsable (Some k) _) = (k_KID k = kid)"
| "withdraws kid _ = False"

text \<open>The operations that can store a fresh record under \<open>kid\<close>.\<close>

fun puts_kid :: "string \<Rightarrow> store_op \<Rightarrow> bool" where
  "puts_kid kid (OpPutKey (Some k)) = (k_KID k = kid)"
| "puts_kid kid (OpPutKeyIfNoUsable (Some k) _) = (k_KID k = kid)"
| "puts_kid kid (OpReplaceKey (Some k) _ _ _) = (k_KID k = kid)"
| "puts_kid kid _ = False"

subsection \<open>Shared facts\<close>

lemmas state_op_defs =
  PutKey_def PutKeyIfNoUsable_def RevokeKey_def ReplaceKey_def DeleteKey_def TouchKey_def
  BurnEnrollment_def RevokeCert_def Prune_def changed_only_def putKey_def bump_def

lemma cloneKey_id [simp]: "cloneKey k = k"
  by (simp add: cloneKey_def split: option.splits)

lemma value_simps [simp]:
  "k_SecretHMAC (KeyRecord_value r) = kr_SecretHMAC r"
  "k_KID (KeyRecord_value r) = k_KID (kr_Key r)"
  "k_Class (KeyRecord_value r) = k_Class (kr_Key r)"
  "k_Enrollment (KeyRecord_value r) = k_Enrollment (kr_Key r)"
  "k_CreatedAt (KeyRecord_value r) = k_CreatedAt (kr_Key r)"
  "k_ExpiresAt (KeyRecord_value r) = k_ExpiresAt (kr_Key r)"
  "k_RevokedAt (KeyRecord_value r) = k_RevokedAt (kr_Key r)"
  by (simp_all add: KeyRecord_value_def)

lemma value_lifecycle [simp]:
  "Revoked (KeyRecord_value r) = Revoked (kr_Key r)"
  "Usable (KeyRecord_value r) t = Usable (kr_Key r) t"
  by (simp_all add: Revoked_def Usable_def Expired_def)

lemma wf_state_iff:
  "wf_state s \<longleftrightarrow>
     wf_map (st_Keys s) \<and> wf_map (st_RevokedCerts s)
     \<and> (\<forall>kid rec. map_of (st_Keys s) kid = Some rec \<longrightarrow> wf_key_entry kid rec)
     \<and> (\<forall>serial rc. map_of (st_RevokedCerts s) serial = Some rc \<longrightarrow> wf_cert_entry serial rc)"
  by (auto simp: wf_state_def list_all_map_of)

lemma validateKey_None: "validateKey k = None \<longleftrightarrow> (\<exists>k'. k = Some k' \<and> k_KID k' \<noteq> '''' \<and> KeyClass_Valid (k_Class k'))"
  by (auto simp: validateKey_def split: option.splits)

lemma wf_NewState: "wf_state NewState"
  by (simp add: wf_state_def NewState_def)

text \<open>A write of one well-formed record, and the removal of records, keep the document well-formed.\<close>

lemma wf_state_write:
  "wf_state s \<Longrightarrow> wf_key_entry kid rec \<Longrightarrow> wf_state (s\<lparr>st_Keys := AList.update kid rec (st_Keys s)\<rparr>)"
  by (auto simp: wf_state_iff)

lemma wf_state_bump [simp]: "wf_state (bump s) = wf_state s"
  by (simp add: wf_state_def bump_def)

lemma wf_state_delete: "wf_state s \<Longrightarrow> wf_state (s\<lparr>st_Keys := AList.delete kid (st_Keys s)\<rparr>)"
  by (auto simp: wf_state_iff)

lemma wf_state_cert:
  "wf_state s \<Longrightarrow> wf_cert_entry n rc \<Longrightarrow> wf_state (s\<lparr>st_RevokedCerts := AList.update n rc (st_RevokedCerts s)\<rparr>)"
  by (auto simp: wf_state_iff)

lemma wf_state_filter:
  "wf_state s \<Longrightarrow> wf_state (s\<lparr>st_Keys := filter P (st_Keys s), st_RevokedCerts := filter Q (st_RevokedCerts s)\<rparr>)"
  by (auto simp: wf_state_def list_all_iff)

lemma wf_state_entry: "wf_state s \<Longrightarrow> map_of (st_Keys s) kid = Some rec \<Longrightarrow> wf_key_entry kid rec"
  by (simp add: wf_state_iff)

lemma wf_putKey:
  "wf_state s \<Longrightarrow> k_KID k \<noteq> '''' \<Longrightarrow> KeyClass_Valid (k_Class k) \<Longrightarrow> wf_state (putKey s k)"
  by (simp add: putKey_def wf_state_write wf_key_entry_def)

lemma wf_entry_update [simp]:
  "wf_key_entry kid (rec\<lparr>kr_Key := (kr_Key rec)\<lparr>k_RevokedAt := a, k_RevokedReason := b\<rparr>\<rparr>) = wf_key_entry kid rec"
  "wf_key_entry kid (rec\<lparr>kr_Key := (kr_Key rec)\<lparr>k_LastUsed := a\<rparr>\<rparr>) = wf_key_entry kid rec"
  "wf_key_entry kid (rec\<lparr>kr_Key := (kr_Key rec)\<lparr>k_Enrollment := g\<rparr>\<rparr>) = wf_key_entry kid rec"
  by (simp_all add: wf_key_entry_def)

lemma wf_PutKey: "wf_state s \<Longrightarrow> wf_state (fst (PutKey k s))"
  by (auto simp: PutKey_def validateKey_None wf_putKey split: option.splits)

lemma wf_PutKeyIfNoUsable: "wf_state s \<Longrightarrow> wf_state (fst (PutKeyIfNoUsable k t s))"
  by (auto simp: PutKeyIfNoUsable_def validateKey_None wf_putKey split: option.splits)

lemma wf_RevokeKey: "wf_state s \<Longrightarrow> wf_state (fst (RevokeKey kid reason t now s))"
  by (auto simp: RevokeKey_def Let_def wf_state_write wf_state_entry split: option.splits)

lemma wf_ReplaceKey: "wf_state s \<Longrightarrow> wf_state (fst (ReplaceKey k old reason t now s))"
  using wf_PutKey [of s k]
  by (auto simp: ReplaceKey_def Let_def wf_state_write wf_state_entry split: option.splits prod.splits sum.splits)

lemma wf_DeleteKey: "wf_state s \<Longrightarrow> wf_state (fst (DeleteKey kid s))"
  by (auto simp: DeleteKey_def wf_state_delete split: option.splits)

lemma wf_TouchKey: "wf_state s \<Longrightarrow> wf_state (fst (TouchKey kid t now s))"
  by (auto simp: TouchKey_def Let_def wf_state_write wf_state_entry split: option.splits)

lemma wf_BurnEnrollment: "wf_state s \<Longrightarrow> wf_state (fst (BurnEnrollment kid serial t now s))"
  by (auto simp: BurnEnrollment_def Let_def wf_state_write wf_state_entry split: option.splits bool.splits)

lemma wf_RevokeCert: "wf_state s \<Longrightarrow> wf_state (fst (RevokeCert rc now s))"
  by (simp add: RevokeCert_def Let_def wf_cert_entry_def wf_state_cert)

lemma wf_Prune: "wf_state s \<Longrightarrow> wf_state (fst (Prune now retain s))"
  by (simp add: Prune_def Let_def wf_state_filter)

lemmas wf_ops = wf_PutKey wf_PutKeyIfNoUsable wf_RevokeKey wf_ReplaceKey wf_DeleteKey wf_TouchKey
  wf_BurnEnrollment wf_RevokeCert wf_Prune

subsection \<open>The contract of a document mutation\<close>

text \<open>
  What a backend may assume of the function it hands to its compare-and-swap loop, and what a
  verifier may assume of the epoch: a call that reports no change leaves the document alone, the
  epoch moves by at most one, and while it does not move nothing a decision depends on has changed
  from \<open>now\<close> on.
\<close>

locale doc_mutation =
  fixes f :: "State \<Rightarrow> State \<times> (store_error + bool)"
  assumes keeps_wf: "wf_state s \<Longrightarrow> wf_state (fst (f s))"
    and inert: "snd (f s) \<noteq> Inr True \<Longrightarrow> fst (f s) = s"
    and epoch_step: "st_Epoch (fst (f s)) = st_Epoch s \<or> st_Epoch (fst (f s)) = st_Epoch s + 1"

locale guarded_mutation = doc_mutation +
  fixes now :: gotime and honours :: "duration \<Rightarrow> bool"
  assumes guard: "wf_state s \<Longrightarrow> st_Epoch (fst (f s)) = st_Epoch s \<Longrightarrow> now \<le> t \<Longrightarrow>
      auth_view (fst (f s)) kid t = auth_view s kid t"
    and guard_certs: "wf_state s \<Longrightarrow> st_Epoch (fst (f s)) = st_Epoch s \<Longrightarrow> now \<le> t \<Longrightarrow> honours grace \<Longrightarrow>
      cert_view grace (fst (f s)) serial t = cert_view grace s serial t"

lemma epoch_moves [simp]: "(w :: 64 word) + 1 \<noteq> w"
  by simp

lemma filter_same: "\<not> length (filter P xs) < length xs \<Longrightarrow> filter P xs = xs"
  using length_filter_less [of _ xs P] by (fastforce simp: filter_id_conv)

lemma Prune_inert:
  "snd (Prune now retain s) = Inl e \<or> snd (Prune now retain s) = Inr (p, False) \<Longrightarrow>
   fst (Prune now retain s) = s"
  by (cases "retain < 0") (auto simp: Prune_def Let_def PruneResult_Empty_def filter_same)

lemma PutKeyIfNoUsable_inert:
  "snd (PutKeyIfNoUsable k tm s) \<noteq> Inr True \<Longrightarrow> fst (PutKeyIfNoUsable k tm s) = s"
  by (auto simp: PutKeyIfNoUsable_def split: option.splits)

lemma inert_apply_op: "snd (apply_op now op s) \<noteq> Inr True \<Longrightarrow> fst (apply_op now op s) = s"
proof (cases op)
  case (OpPrune retain)
  assume "snd (apply_op now op s) \<noteq> Inr True"
  then show ?thesis using Prune_inert [of now retain s]
    by (auto simp: OpPrune changed_only_def split: sum.splits)
next
  case (OpPutKeyIfNoUsable k tm)
  assume "snd (apply_op now op s) \<noteq> Inr True"
  then show ?thesis unfolding OpPutKeyIfNoUsable apply_op.simps by (rule PutKeyIfNoUsable_inert)
qed (auto simp: state_op_defs Let_def split: option.splits bool.splits)

lemma epoch_apply_op:
  "st_Epoch (fst (apply_op now op s)) =
     (if snd (apply_op now op s) = Inr True \<and> (case op of OpTouchKey _ _ \<Rightarrow> False | OpPrune _ \<Rightarrow> False | _ \<Rightarrow> True)
      then st_Epoch s + 1 else st_Epoch s)"
  by (cases op) (auto simp: state_op_defs Let_def split: option.splits bool.splits)

lemma auth_view_Touch: "auth_view (fst (TouchKey kid' tm now s)) kid t = auth_view s kid t"
  by (auto simp: TouchKey_def auth_view_def GetKey_def Let_def KeyRecord_value_def Usable_def Revoked_def
      Expired_def split: option.splits)

lemma cert_view_Touch: "cert_view grace (fst (TouchKey kid' tm now s)) serial t = cert_view grace s serial t"
  by (auto simp: TouchKey_def cert_view_def Let_def split: option.splits)

lemma Prune_Keys_lookup:
  assumes "wf_state s"
  shows "map_of (st_Keys (fst (Prune now retain s))) kid =
     (case map_of (st_Keys s) kid of
        None \<Rightarrow> None
      | Some rec \<Rightarrow> if retain < 0 \<or> keeps_key now retain (labelAuthorities s) kid rec then Some rec else None)"
  using assms by (auto simp: Prune_def Let_def map_of_filter_wf wf_state_def split: option.splits)

lemma Prune_Certs_lookup:
  assumes "wf_state s"
  shows "map_of (st_RevokedCerts (fst (Prune now retain s))) serial =
     (case map_of (st_RevokedCerts s) serial of
        None \<Rightarrow> None
      | Some rc \<Rightarrow> if retain < 0 \<or> keeps_cert now retain rc then Some rc else None)"
  using assms by (auto simp: Prune_def Let_def map_of_filter_wf wf_state_def split: option.splits)

lemma auth_view_Prune:
  assumes "wf_state s" and "now \<le> t"
  shows "auth_view (fst (Prune now retain s)) kid t = auth_view s kid t"
  using assms(2) by (auto simp: auth_view_def GetKey_def Prune_Keys_lookup [OF assms(1)] keeps_key_def Usable_def Expired_def
      split: option.splits)

lemma cert_view_Prune:
  assumes "wf_state s" and "now \<le> t" and "retain < 0 \<or> grace \<le> retain"
  shows "cert_view grace (fst (Prune now retain s)) serial t = cert_view grace s serial t"
  using assms(2,3) by (auto simp: cert_view_def Prune_Certs_lookup [OF assms(1)] keeps_cert_def split: option.splits)

lemma fst_changed_only [simp]: "fst (changed_only r f) = fst r"
  by (simp add: changed_only_def)

lemma guard_apply_op:
  assumes "wf_state s" and "st_Epoch (fst (apply_op now op s)) = st_Epoch s" and "now \<le> t"
  shows "auth_view (fst (apply_op now op s)) kid t = auth_view s kid t"
    and "op_honours grace op \<Longrightarrow> cert_view grace (fst (apply_op now op s)) serial t = cert_view grace s serial t"
  using assms epoch_apply_op [of now op s] inert_apply_op [of now op s]
  by (cases "snd (apply_op now op s) = Inr True"; cases op;
      simp add: auth_view_Touch cert_view_Touch auth_view_Prune cert_view_Prune op_honours_def)+

lemma wf_apply_op: "wf_state s \<Longrightarrow> wf_state (fst (apply_op now op s))"
  by (cases op) (simp_all add: wf_ops)

interpretation store_op: guarded_mutation "apply_op now op" now "\<lambda>grace. op_honours grace op" for now op
  using wf_apply_op inert_apply_op guard_apply_op
  by unfold_locales (auto simp: epoch_apply_op)

lemma run_ops_Cons [simp]:
  "fst (run_ops ((now, op) # ops) s) = fst (run_ops ops (fst (apply_op now op s)))"
  "snd (run_ops ((now, op) # ops) s) = snd (apply_op now op s) # snd (run_ops ops (fst (apply_op now op s)))"
  by (simp_all add: split_def Let_def)

declare run_ops.simps(2) [simp del]

lemma run_ops_append: "fst (run_ops (ops @ ops') s) = fst (run_ops ops' (fst (run_ops ops s)))"
proof (induction ops arbitrary: s)
  case (Cons o1 ops)
  then show ?case by (cases o1) simp
qed simp

lemma wf_run_ops: "wf_state s \<Longrightarrow> wf_state (fst (run_ops ops s))"
proof (induction ops arbitrary: s)
  case (Cons o1 ops)
  then show ?case using store_op.keeps_wf by (cases o1) simp
qed simp

lemma auth_view_same_entry: "map_of (st_Keys s') kid = map_of (st_Keys s) kid \<Longrightarrow> auth_view s' kid t = auth_view s kid t"
  by (simp add: auth_view_def GetKey_def)

lemma apply_op_keeps_entry:
  assumes "map_of (st_Keys s) kid = Some rec" and "k_Class (kr_Key rec) \<noteq> ClassEnrollment" and "\<not> withdraws kid op"
    and "\<And>tm. op \<noteq> OpTouchKey kid tm" and "\<And>retain. op \<noteq> OpPrune retain"
  shows "map_of (st_Keys (fst (apply_op now op s))) kid = map_of (st_Keys s) kid"
proof (cases op)
  case (OpPutKey k)
  then show ?thesis using assms(1) by (auto simp: PutKey_def validateKey_def putKey_def Let_def bump_def split: option.splits)
next
  case (OpPutKeyIfNoUsable k tm)
  then show ?thesis using assms(3) by (cases k) (auto simp: PutKeyIfNoUsable_def validateKey_def putKey_def Let_def bump_def split: option.splits)
next
  case (OpReplaceKey k old reason tm)
  have "map_of (st_Keys (fst (PutKey k s))) kid = map_of (st_Keys s) kid"
    using assms(1) by (auto simp: PutKey_def validateKey_def putKey_def Let_def bump_def split: option.splits)
  then show ?thesis using OpReplaceKey assms(3)
    by (cases "PutKey k s") (auto simp: ReplaceKey_def Let_def split: option.splits sum.splits)
next
  case (OpBurnEnrollment k serial tm)
  then show ?thesis using assms(1,2) by (cases "k = kid") (auto simp: BurnEnrollment_def Let_def bump_def split: option.splits bool.splits)
qed (use assms(3-5) in \<open>auto simp: RevokeKey_def DeleteKey_def TouchKey_def RevokeCert_def Let_def bump_def split: option.splits\<close>)

lemma auth_view_kept:
  assumes "wf_state s" and "auth_view s kid t = Some k" and "k_Class k \<noteq> ClassEnrollment" and "\<not> withdraws kid op" and "now \<le> t"
  shows "auth_view (fst (apply_op now op s)) kid t = Some k"
proof -
  obtain rec where rec: "map_of (st_Keys s) kid = Some rec" "k_Class (kr_Key rec) \<noteq> ClassEnrollment"
    using assms(2,3) by (auto simp: auth_view_def GetKey_def KeyRecord_value_def split: option.splits if_splits)
  consider tm where "op = OpTouchKey kid tm" | retain where "op = OpPrune retain" | "\<And>tm. op \<noteq> OpTouchKey kid tm" "\<And>retain. op \<noteq> OpPrune retain" by blast
  then show ?thesis
  proof cases
    case 3
    then show ?thesis using auth_view_same_entry [OF apply_op_keeps_entry [OF rec assms(4)]] assms(2) by simp
  qed (use assms(2) auth_view_Touch auth_view_Prune [OF assms(1,5)] in simp_all)
qed

lemma auth_view_run:
  assumes "wf_state s" and "auth_view s kid t = Some k" and "k_Class k \<noteq> ClassEnrollment" and "\<forall>(now, op) \<in> set ops. now \<le> t \<and> \<not> withdraws kid op"
  shows "auth_view (fst (run_ops ops s)) kid t = Some k"
  using assms(1,2,4)
proof (induction ops arbitrary: s)
  case (Cons o1 ops)
  then show ?case using auth_view_kept [OF _ _ assms(3)] wf_apply_op by (cases o1) auto
qed simp

subsection \<open>Redemptions\<close>

lemma burn_budget_write:
  "burn_budget (bump s) kid = burn_budget s kid"
  "k_Enrollment (kr_Key rec') = k_Enrollment (kr_Key rec) \<Longrightarrow> map_of (st_Keys s) kid' = Some rec \<Longrightarrow>
   burn_budget (s\<lparr>st_Keys := AList.update kid' rec' (st_Keys s)\<rparr>) kid = burn_budget s kid"
  "kid' \<noteq> kid \<Longrightarrow> burn_budget (s\<lparr>st_Keys := AList.update kid' rec' (st_Keys s)\<rparr>) kid = burn_budget s kid"
  by (simp_all add: burn_budget_def bump_def)

lemma burn_budget_remove:
  "burn_budget (s\<lparr>st_Keys := AList.delete kid' (st_Keys s)\<rparr>) kid \<le> burn_budget s kid"
  by (simp add: burn_budget_def)

lemma burn_budget_Prune: "wf_state s \<Longrightarrow> burn_budget (fst (Prune now retain s)) kid \<le> burn_budget s kid"
  by (simp add: burn_budget_def Prune_Keys_lookup split: option.splits)

lemma burn_budget_putKey: "k_KID k \<noteq> kid \<Longrightarrow> burn_budget (putKey s k) kid = burn_budget s kid"
  by (simp add: burn_budget_def putKey_def)


definition burned :: "string \<Rightarrow> gotime \<Rightarrow> KeyRecord \<Rightarrow> EnrollmentGrant \<Rightarrow> KeyRecord" where
  "burned certSerial when rec g =
     rec\<lparr>kr_Key := (kr_Key rec)\<lparr>k_Enrollment := Some (g\<lparr>eg_UsedAt := Some when, eg_CertSerial := certSerial,
                                                    eg_Redemptions := eg_Redemptions g + 1\<rparr>)\<rparr>\<rparr>"

definition redeemable :: "EnrollmentGrant \<Rightarrow> bool" where
  "redeemable g \<longleftrightarrow>
     (if eg_Reusable g then \<not> (eg_MaxRedemptions g > 0 \<and> eg_Redemptions g \<ge> eg_MaxRedemptions g)
      else eg_UsedAt g = None)"

lemma BurnEnrollment_redeems:
  assumes "serial \<noteq> ''''" "map_of (st_Keys s) kid = Some rec" "k_Class (kr_Key rec) = ClassEnrollment"
    "k_Enrollment (kr_Key rec) = Some g" "Usable (kr_Key rec) (if IsZero tm then now else tm)" "redeemable g"
  shows "BurnEnrollment kid serial tm now s =
         (bump (s\<lparr>st_Keys := AList.update kid (burned serial (if IsZero tm then now else tm) rec g) (st_Keys s)\<rparr>),
          Inr (KeyRecord_value (burned serial (if IsZero tm then now else tm) rec g)))"
  using assms unfolding BurnEnrollment_def burned_def redeemable_def Let_def by (simp split: if_splits)

lemma BurnEnrollment_cases:
  obtains (failed) e where "BurnEnrollment kid serial tm now s = (s, Inl e)"
  | (redeemed) rec g where "serial \<noteq> ''''" "map_of (st_Keys s) kid = Some rec"
      "k_Class (kr_Key rec) = ClassEnrollment" "k_Enrollment (kr_Key rec) = Some g"
      "Usable (kr_Key rec) (if IsZero tm then now else tm)" "redeemable g"
proof -
  have "(\<exists>e. BurnEnrollment kid serial tm now s = (s, Inl e)) \<or>
    (\<exists>rec g. serial \<noteq> '''' \<and> map_of (st_Keys s) kid = Some rec \<and> k_Class (kr_Key rec) = ClassEnrollment
       \<and> k_Enrollment (kr_Key rec) = Some g \<and> Usable (kr_Key rec) (if IsZero tm then now else tm) \<and> redeemable g)"
    unfolding BurnEnrollment_def redeemable_def Let_def
    by (cases "map_of (st_Keys s) kid"; cases "k_Enrollment (kr_Key (the (map_of (st_Keys s) kid)))")
       (simp_all split: bool.splits)
  then show ?thesis using that by blast
qed

lemma BurnEnrollment_spends:
  "burn_budget (fst (BurnEnrollment kid serial tm now s)) kid'
     + (if kid = kid' \<and> \<not> isl (snd (BurnEnrollment kid serial tm now s)) then 1 else 0)
   \<le> burn_budget s kid'"
proof (cases rule: BurnEnrollment_cases [of kid serial tm now s])
  case (failed e)
  then show ?thesis by simp
next
  case (redeemed rec g)
  then show ?thesis
    by (auto simp: BurnEnrollment_redeems [OF redeemed] bump_def burn_budget_def burned_def
        redeemable_def one_enat_def)
qed

lemma apply_op_spends:
  assumes "wf_state s" and "\<not> puts_kid kid op"
  shows "burn_budget (fst (apply_op now op s)) kid + of_nat (burns_of kid [(now, op)] [snd (apply_op now op s)])
         \<le> burn_budget s kid"
proof (cases op)
  case (OpPutKey k)
  then show ?thesis using assms(2) by (cases k) (auto simp: PutKey_def validateKey_def burn_budget_write burn_budget_putKey split: option.splits)
next
  case (OpPutKeyIfNoUsable k tm)
  then show ?thesis using assms(2) by (cases k) (auto simp: PutKeyIfNoUsable_def validateKey_def burn_budget_write burn_budget_putKey split: option.splits)
next
  case (OpRevokeKey k reason tm)
  then show ?thesis by (auto simp: RevokeKey_def Let_def burn_budget_write split: option.splits)
next
  case (OpReplaceKey k old reason tm)
  then show ?thesis using assms(2)
    by (cases k) (auto simp: ReplaceKey_def PutKey_def validateKey_def Let_def burn_budget_def putKey_def bump_def split: option.splits)
next
  case (OpDeleteKey k)
  then show ?thesis by (auto simp: DeleteKey_def burn_budget_write burn_budget_remove split: option.splits)
next
  case (OpTouchKey k tm)
  then show ?thesis by (auto simp: TouchKey_def Let_def burn_budget_write split: option.splits)
next
  case (OpBurnEnrollment k serial tm)
  then show ?thesis using BurnEnrollment_spends [of k serial tm now s kid]
    by (cases "k = kid"; cases "snd (BurnEnrollment k serial tm now s)") (auto simp: changed_only_def)
next
  case (OpRevokeCert rc)
  then show ?thesis by (simp add: RevokeCert_def Let_def burn_budget_def bump_def)
next
  case (OpPrune retain)
  then show ?thesis by (simp add: burn_budget_Prune assms(1))
qed

lemma burns_of_Cons: "burns_of kid (o1 # ops) (r # rs) = burns_of kid [o1] [r] + burns_of kid ops rs"
  by (cases o1; cases "snd o1") auto

lemma run_ops_spends:
  assumes "wf_state s" and "\<forall>(now, op) \<in> set ops. \<not> puts_kid kid op"
  shows "burn_budget (fst (run_ops ops s)) kid + of_nat (burns_of kid ops (snd (run_ops ops s))) \<le> burn_budget s kid"
  using assms
proof (induction ops arbitrary: s)
  case (Cons o1 ops)
  obtain now op where o1: "o1 = (now, op)" by (cases o1)
  let ?s = "fst (apply_op now op s)"
  have "burn_budget (fst (run_ops ops ?s)) kid + of_nat (burns_of kid ops (snd (run_ops ops ?s))) \<le> burn_budget ?s kid"
    using Cons by (simp add: o1 store_op.keeps_wf)
  then have "burn_budget (fst (run_ops ops ?s)) kid + of_nat (burns_of kid ops (snd (run_ops ops ?s)))
      + of_nat (burns_of kid [o1] [snd (apply_op now op s)])
      \<le> burn_budget ?s kid + of_nat (burns_of kid [o1] [snd (apply_op now op s)])"
    by (rule add_right_mono)
  also have "\<dots> \<le> burn_budget s kid" using apply_op_spends Cons.prems by (simp add: o1)
  finally show ?case
    unfolding o1 run_ops_Cons burns_of_Cons [of kid _ ops] by (simp add: ac_simps)
qed simp

subsection \<open>The record the operator's labels come from\<close>

text \<open>
  Both selections are the minimum, over the eligible records of a cluster, of one total order:
  latest creation first, then the smallest KID.
\<close>

definition eligible :: "string \<Rightarrow> Key \<Rightarrow> bool" where
  "eligible clusterID k \<longleftrightarrow>
     k_Class k = ClassEnrollment \<and> \<not> Revoked k
     \<and> (case k_Enrollment k of None \<Rightarrow> False | Some g \<Rightarrow> eg_ClusterID g = clusterID)"

definition pref :: "Key \<Rightarrow> int \<times> string" where
  "pref k = (- k_CreatedAt k, k_KID k)"

definition best :: "Key set \<Rightarrow> string \<Rightarrow> Key option \<Rightarrow> bool" where
  "best ks clusterID r \<longleftrightarrow>
     (case r of
        None \<Rightarrow> \<forall>k \<in> ks. \<not> eligible clusterID k
      | Some k \<Rightarrow> k \<in> ks \<and> eligible clusterID k \<and> (\<forall>k' \<in> ks. eligible clusterID k' \<longrightarrow> pref k \<le> pref k'))"

lemma best_unique:
  assumes "best ks c r" and "best ks c r'" and "inj_on k_KID ks"
  shows "r = r'"
proof (cases r; cases r')
  fix k k' assume r: "r = Some k" "r' = Some k'"
  then have "pref k = pref k'" using assms(1,2) by (auto simp: best_def intro: antisym)
  then show ?thesis using assms r by (auto simp: pref_def best_def dest: inj_onD)
qed (use assms in \<open>auto simp: best_def\<close>)

lemma best_subset:
  assumes "best ks c r" and "ks' \<subseteq> ks" and "\<And>k. r = Some k \<Longrightarrow> k \<in> ks'"
  shows "best ks' c r"
  using assms by (auto simp: best_def split: option.splits)

lemma best_insert:
  assumes "best ks c r"
  shows "best (insert k ks) c
    (if \<not> eligible c k then r else case r of None \<Rightarrow> Some k | Some n \<Rightarrow> if pref k < pref n then Some k else r)"
proof (cases r)
  case None
  then show ?thesis using assms by (auto simp: best_def)
next
  case (Some n)
  then show ?thesis using assms by (auto simp: best_def not_less intro: order.trans [of "pref k" "pref n"])
qed

lemma pref_less: "pref k < pref n \<longleftrightarrow> k_CreatedAt n < k_CreatedAt k \<or> k_CreatedAt k = k_CreatedAt n \<and> k_KID k < k_KID n"
  by (auto simp: pref_def less_prod_simp)

lemma authority_step_best:
  assumes "\<forall>c. best ks c (map_of newest c)"
  shows "best (insert (kr_Key rec) ks) c (map_of (authority_step rec newest) c)"
proof -
  have "map_of (authority_step rec newest) c =
    (if \<not> eligible c (kr_Key rec) then map_of newest c
     else case map_of newest c of None \<Rightarrow> Some (kr_Key rec)
          | Some n \<Rightarrow> if pref (kr_Key rec) < pref n then Some (kr_Key rec) else map_of newest c)"
    by (auto simp: authority_step_def Let_def eligible_def pref_less split: option.splits bool.splits)
  then show ?thesis using best_insert assms by simp
qed

lemma fold_authority_best:
  "\<forall>c. best ks c (map_of newest c) \<Longrightarrow>
   best (ks \<union> kr_Key ` set recs) c (map_of (fold authority_step recs newest) c)"
proof (induction recs arbitrary: ks newest)
  case (Cons rec recs)
  have "\<forall>c. best (insert (kr_Key rec) ks) c (map_of (authority_step rec newest) c)"
    using authority_step_best Cons.prems by blast
  from Cons.IH [OF this] show ?case by simp
qed simp

lemma wf_authority_step: "wf_map newest \<Longrightarrow> wf_map (authority_step rec newest)"
  by (auto simp: authority_step_def Let_def split: option.splits bool.splits)

lemma wf_fold_authority: "wf_map newest \<Longrightarrow> wf_map (fold authority_step recs newest)"
  by (induction recs arbitrary: newest) (auto simp: wf_authority_step)

abbreviation stored_keys :: "State \<Rightarrow> Key set" where
  "stored_keys s \<equiv> kr_Key ` set (map snd (st_Keys s))"

lemma stored_keys_lookup:
  assumes "wf_state s"
  shows "k \<in> stored_keys s \<longleftrightarrow> (\<exists>rec. map_of (st_Keys s) (k_KID k) = Some rec \<and> kr_Key rec = k)"
proof
  assume "k \<in> stored_keys s"
  then obtain kid rec where mem: "(kid, rec) \<in> set (st_Keys s)" and k: "k = kr_Key rec" by auto
  then have rec: "map_of (st_Keys s) kid = Some rec" using assms by (simp add: wf_state_def mem_map_of)
  then have "k_KID k = kid" using wf_state_entry [OF assms rec] k by (simp add: wf_key_entry_def)
  then show "\<exists>rec. map_of (st_Keys s) (k_KID k) = Some rec \<and> kr_Key rec = k" using k rec by blast
next
  assume "\<exists>rec. map_of (st_Keys s) (k_KID k) = Some rec \<and> kr_Key rec = k"
  then obtain rec where "(k_KID k, rec) \<in> set (st_Keys s)" "kr_Key rec = k" by (blast dest: map_of_SomeD)
  then show "k \<in> stored_keys s" by force
qed

lemma inj_stored_keys: "wf_state s \<Longrightarrow> inj_on k_KID (stored_keys s)"
  by (rule inj_onI) (metis stored_keys_lookup option.inject)

lemma labelAuthorities_best:
  assumes "best (stored_keys s) c (Some k)" and "wf_state s"
  shows "k_KID k \<in> labelAuthorities s"
proof -
  let ?newest = "fold authority_step (map snd (st_Keys s)) []"
  have "\<forall>c. best {} c (map_of [] c)" by (simp add: best_def)
  from fold_authority_best [OF this, of "map snd (st_Keys s)" c]
  have "best (stored_keys s) c (map_of ?newest c)" by simp
  then have "map_of ?newest c = Some k"
    using best_unique assms inj_stored_keys by blast
  then show ?thesis unfolding labelAuthorities_def by (force dest: map_of_SomeD)
qed

text \<open>The loop of \<open>enrollmentLabels\<close> runs over the listing, which is sorted; a later element never wins a tie.\<close>

lemma newest_step_best:
  assumes "best ks c r" and "\<forall>k' \<in> ks. (k_CreatedAt k', k_KID k') \<le> (k_CreatedAt k, k_KID k)"
    and "k_Class k = ClassEnrollment"
  shows "best (insert k ks) c (newest_step c k r)"
proof -
  have tie: "pref k < pref n \<longleftrightarrow> k_CreatedAt n < k_CreatedAt k" if "n \<in> ks" for n
    using assms(2) that by (fastforce simp: pref_less)
  have "newest_step c k r =
    (if \<not> eligible c k then r else case r of None \<Rightarrow> Some k | Some n \<Rightarrow> if pref k < pref n then Some k else r)"
    using assms(1,3) tie by (auto simp: newest_step_def eligible_def best_def split: option.splits)
  then show ?thesis using best_insert [OF assms(1), of k] by simp
qed

lemma fold_newest_best:
  assumes "sorted (map (\<lambda>k. (k_CreatedAt k, k_KID k)) xs)" and "\<forall>k \<in> set xs. k_Class k = ClassEnrollment"
  shows "best (set xs) c (fold (newest_step c) xs None)"
  using assms
proof (induction xs rule: rev_induct)
  case (snoc x xs)
  then have "best (set xs) c (fold (newest_step c) xs None)" by (simp add: sorted_append)
  from newest_step_best [OF this, of x] snoc.prems show ?case by (auto simp: sorted_append)
qed (simp add: best_def)

lemma set_ListKeys:
  assumes "wf_state s"
  shows "k \<in> set (ListKeys class s) \<longleftrightarrow> GetKey s (k_KID k) = Inr k \<and> (class = '''' \<or> k_Class k = class)"
proof -
  have mem: "(kid, rec) \<in> set (st_Keys s) \<longleftrightarrow> map_of (st_Keys s) kid = Some rec" for kid rec
    using assms by (simp add: wf_state_def mem_map_of)
  have kid: "map_of (st_Keys s) kid = Some rec \<Longrightarrow> k_KID (kr_Key rec) = kid" for kid rec
    using wf_state_entry [OF assms] by (simp add: wf_key_entry_def)
  have "k \<in> set (ListKeys class s) \<longleftrightarrow>
    (\<exists>kid rec. (kid, rec) \<in> set (st_Keys s) \<and> (class = '''' \<or> k_Class (kr_Key rec) = class) \<and> k = KeyRecord_value rec)"
    unfolding ListKeys_def set_sort_key set_map set_filter image_iff Bex_def by (simp add: split_paired_Ex) blast
  also have "\<dots> \<longleftrightarrow> (\<exists>kid rec. map_of (st_Keys s) kid = Some rec \<and> k_KID k = kid
      \<and> (class = '''' \<or> k_Class k = class) \<and> k = KeyRecord_value rec)"
    unfolding mem using kid by (metis value_simps(2,3))
  also have "\<dots> \<longleftrightarrow> GetKey s (k_KID k) = Inr k \<and> (class = '''' \<or> k_Class k = class)"
    by (auto simp: GetKey_def split: option.splits)
  finally show ?thesis .
qed

lemma inj_ListKeys: "wf_state s \<Longrightarrow> inj_on k_KID (set (ListKeys class s))"
  by (rule inj_onI) (metis set_ListKeys sum.inject(2))

lemma sorted_ListKeys: "sorted (map (\<lambda>k. (k_CreatedAt k, k_KID k)) (ListKeys class s))"
  by (simp add: ListKeys_def)

lemma GetKey_value: "GetKey s kid = Inr k \<longleftrightarrow> (\<exists>rec. map_of (st_Keys s) kid = Some rec \<and> k = KeyRecord_value rec)"
  by (auto simp: GetKey_def split: option.splits)

text \<open>The pruned document lists a subset of the keys, and still lists the one the labels come from.\<close>

lemma ListKeys_best_is_authority:
  assumes "best (set (ListKeys ClassEnrollment s)) c (Some k)" and "wf_state s"
  shows "k_KID k \<in> labelAuthorities s"
proof -
  have listed: "KeyRecord_value rec \<in> set (ListKeys ClassEnrollment s)"
    if "map_of (st_Keys s) (k_KID (kr_Key rec)) = Some rec" "k_Class (kr_Key rec) = ClassEnrollment" for rec
    using that by (simp add: set_ListKeys [OF assms(2)] GetKey_value)
  have same: "eligible c' (KeyRecord_value rec) = eligible c' (kr_Key rec)" "pref (KeyRecord_value rec) = pref (kr_Key rec)"
    for c' rec by (simp_all add: eligible_def pref_def)
  obtain rec where rec: "map_of (st_Keys s) (k_KID k) = Some rec" "k = KeyRecord_value rec"
    using assms by (auto simp: best_def set_ListKeys [OF assms(2)] GetKey_value)
  have "best (stored_keys s) c (Some (kr_Key rec))"
    unfolding best_def option.case
  proof (intro conjI ballI impI)
    show "kr_Key rec \<in> stored_keys s" unfolding stored_keys_lookup [OF assms(2)] using rec by simp
    show "eligible c (kr_Key rec)" using assms(1) rec by (simp add: best_def same)
    fix k' assume k': "k' \<in> stored_keys s" "eligible c k'"
    then obtain rec' where "map_of (st_Keys s) (k_KID k') = Some rec'" "kr_Key rec' = k'"
      unfolding stored_keys_lookup [OF assms(2)] by blast
    then have "KeyRecord_value rec' \<in> set (ListKeys ClassEnrollment s)" "eligible c (KeyRecord_value rec')"
      using listed [of rec'] k' by (auto simp: same eligible_def)
    then have "pref k \<le> pref (KeyRecord_value rec')" using assms(1) by (simp add: best_def)
    then show "pref (kr_Key rec) \<le> pref k'" using rec \<open>kr_Key rec' = k'\<close> by (simp add: same)
  qed
  then show ?thesis using labelAuthorities_best assms(2) rec by fastforce
qed

lemma ListKeys_Prune:
  assumes "wf_state s"
  shows "set (ListKeys class (fst (Prune now retain s))) \<subseteq> set (ListKeys class s)"
    and "k \<in> set (ListKeys class s) \<Longrightarrow> k_KID k \<in> labelAuthorities s \<Longrightarrow>
         k \<in> set (ListKeys class (fst (Prune now retain s)))"
  using assms
  by (auto simp: set_ListKeys wf_Prune GetKey_value Prune_Keys_lookup keeps_key_def split: option.splits if_splits)

lemma enrollment_choice_Prune:
  assumes "wf_state s"
  shows "fold (newest_step c) (ListKeys ClassEnrollment (fst (Prune now retain s))) None =
         fold (newest_step c) (ListKeys ClassEnrollment s) None"
proof -
  let ?s' = "fst (Prune now retain s)"
  let ?r = "fold (newest_step c) (ListKeys ClassEnrollment s) None"
  have wf': "wf_state ?s'" using assms by (rule wf_Prune)
  have best: "best (set (ListKeys ClassEnrollment s')) c (fold (newest_step c) (ListKeys ClassEnrollment s') None)"
    if "wf_state s'" for s'
    by (rule fold_newest_best [OF sorted_ListKeys]) (simp add: set_ListKeys [OF that] ClassEnrollment_def)
  have "best (set (ListKeys ClassEnrollment ?s')) c ?r"
  proof (rule best_subset [OF best [OF assms] ListKeys_Prune(1) [OF assms]])
    fix k assume "?r = Some k"
    then have "best (set (ListKeys ClassEnrollment s)) c (Some k)" using best [OF assms] by simp
    then show "k \<in> set (ListKeys ClassEnrollment ?s')"
      using ListKeys_Prune(2) [OF assms] ListKeys_best_is_authority assms by (auto simp: best_def)
  qed
  with best [OF wf'] show ?thesis by (rule best_unique [OF _ _ inj_ListKeys [OF wf']])
qed

subsection \<open>Histories and persistence\<close>

lemma run_ops_epoch:
  assumes "wf_state s" and "\<forall>(now, op) \<in> set ops. now \<le> t"
  shows "\<exists>n \<le> length ops. st_Epoch (fst (run_ops ops s)) = st_Epoch s + of_nat n
    \<and> (n = 0 \<longrightarrow> auth_view (fst (run_ops ops s)) kid t = auth_view s kid t
                \<and> ((\<forall>(now, op) \<in> set ops. op_honours grace op) \<longrightarrow> cert_view grace (fst (run_ops ops s)) serial t = cert_view grace s serial t))"
  using assms
proof (induction ops arbitrary: s)
  case (Cons o1 ops)
  obtain now op where o1: "o1 = (now, op)" by (cases o1)
  let ?s = "fst (apply_op now op s)"
  obtain n where n: "n \<le> length ops" "st_Epoch (fst (run_ops ops ?s)) = st_Epoch ?s + of_nat n"
    "n = 0 \<longrightarrow> auth_view (fst (run_ops ops ?s)) kid t = auth_view ?s kid t
              \<and> ((\<forall>(now, op) \<in> set ops. op_honours grace op) \<longrightarrow> cert_view grace (fst (run_ops ops ?s)) serial t = cert_view grace ?s serial t)"
    using Cons.IH [of ?s] Cons.prems store_op.keeps_wf by (auto simp: o1)
  show ?case
  proof (cases "st_Epoch ?s = st_Epoch s")
    case True
    then show ?thesis using n store_op.guard [OF Cons.prems(1) True, of t kid] store_op.guard_certs [OF Cons.prems(1) True, of t grace serial] Cons.prems(2)
      by (auto simp: o1 intro!: exI [of _ n])
  next
    case False
    then have "st_Epoch ?s = st_Epoch s + 1" using store_op.epoch_step [of now op s] by blast
    then show ?thesis using n(1,2) by (auto simp: o1 ac_simps intro!: exI [of _ "Suc n"])
  qed
qed auto

text \<open>
  \<open>fleet.Key\<close> tags its digest \<open>json:"-"\<close>, so a document comes back from JSON without the copies
  on the embedded keys, and its maps in some other order.
\<close>

definition json_strip :: "KeyRecord \<Rightarrow> KeyRecord" where
  "json_strip rec = rec\<lparr>kr_Key := (kr_Key rec)\<lparr>k_SecretHMAC := ''''\<rparr>\<rparr>"

definition json_same :: "State \<Rightarrow> State \<Rightarrow> bool" where
  "json_same s s' \<longleftrightarrow>
     st_SchemaVersion s' = st_SchemaVersion s \<and> st_Epoch s' = st_Epoch s
     \<and> wf_map (st_Keys s') \<and> wf_map (st_RevokedCerts s')
     \<and> map_of (st_Keys s') = map_option json_strip \<circ> map_of (st_Keys s)
     \<and> map_of (st_RevokedCerts s') = map_of (st_RevokedCerts s)"

lemma json_strip_wf: "wf_key_entry kid rec \<Longrightarrow> json_strip rec = rec"
  by (simp add: wf_key_entry_def json_strip_def)

lemma json_same_lookup:
  assumes "json_same s s'" and "wf_state s"
  shows "map_of (st_Keys s') kid = map_of (st_Keys s) kid"
  using assms(1) json_strip_wf [OF wf_state_entry [OF assms(2)]]
  by (cases "map_of (st_Keys s) kid") (auto simp: json_same_def)

lemma migrateTo_current: "st_SchemaVersion s = SchemaVersion \<Longrightarrow> migrateTo migs SchemaVersion s = Inr s"
  by (simp add: migrateTo_def migrate_loop.simps SchemaVersion_def)

lemma GetKey_bump [simp]: "GetKey (bump s) kid = GetKey s kid"
  by (simp add: GetKey_def bump_def)

lemma GetKey_write:
  "GetKey (s\<lparr>st_Keys := AList.update kid' rec (st_Keys s)\<rparr>) kid =
     (if kid = kid' then Inr (KeyRecord_value rec) else GetKey s kid)"
  by (simp add: GetKey_def)

lemma GetKey_putKey: "GetKey (putKey s k) kid = (if kid = k_KID k then Inr k else GetKey s kid)"
  by (simp add: putKey_def GetKey_write KeyRecord_value_def)

lemma GetKey_PutKey:
  "PutKey (Some k) s = (s', Inr r) \<Longrightarrow> GetKey s' kid = (if kid = k_KID k then Inr k else GetKey s kid)"
  by (auto simp only: PutKey_def GetKey_putKey GetKey_bump option.sel option.case prod.inject sum.simps split: option.splits)

lemma epoch_quiet [simp]:
  "st_Epoch (fst (Prune now retain s)) = st_Epoch s"
  "st_Epoch (fst (TouchKey kid tm now s)) = st_Epoch s"
  by (simp_all add: Prune_def TouchKey_def Let_def split: option.splits)

subsection \<open>Properties of the document\<close>

text \<open>
  C1. An enrollment token is never redeemed past its budget. Over any history of operations in
  which no call stores a record under its KID again, a single-use token that was stored unused is
  redeemed at most once, and a capped reusable one at most as often as its cap leaves.
\<close>
theorem enrollment_never_overspent:
  assumes "wf_state s" and "map_of (st_Keys s) kid = Some rec" and "k_Enrollment (kr_Key rec) = Some g"
    and "\<forall>(now, op) \<in> set ops. \<not> puts_kid kid op"
  shows "(\<not> eg_Reusable g \<longrightarrow> burns_of kid ops (snd (run_ops ops s)) \<le> (if eg_UsedAt g = None then 1 else 0))
       \<and> (eg_Reusable g \<and> 0 < eg_MaxRedemptions g \<longrightarrow>
            burns_of kid ops (snd (run_ops ops s)) \<le> nat (eg_MaxRedemptions g - eg_Redemptions g))"
proof -
  have "of_nat (burns_of kid ops (snd (run_ops ops s))) \<le> burn_budget s kid"
    by (rule order.trans [OF _ run_ops_spends [OF assms(1,4)]]) simp
  then show ?thesis using assms(2,3) by (simp add: burn_budget_def of_nat_eq_enat one_enat_def zero_enat_def split: if_splits)
qed

definition example_key :: "string \<Rightarrow> KeyClass \<Rightarrow> gotime \<Rightarrow> EnrollmentGrant option \<Rightarrow> Key" where
  "example_key kid cls created g =
     \<lparr>k_KID = kid, k_Class = cls, k_Name = ''n'', k_Owner = ''o'', k_SecretHMAC = ''digest'', k_Scope = None,
      k_Enrollment = g, k_CreatedAt = created, k_ExpiresAt = 100, k_LastUsed = None, k_RevokedAt = None,
      k_RevokedReason = ''''\<rparr>"

definition example_grant :: "bool \<Rightarrow> EnrollmentGrant" where
  "example_grant reusable =
     \<lparr>eg_ClusterID = ''c1'', eg_Labels = [(''env'', ''prod'')], eg_UsedAt = None, eg_CertSerial = '''',
      eg_Reusable = reusable, eg_Redemptions = 0, eg_MaxRedemptions = 2\<rparr>"

definition example_state :: State where
  "example_state = fst (PutKey (Some (example_key ''k1'' ClassEnrollment 5 (Some (example_grant False)))) NewState)"

lemmas example_state_defs = example_state_def example_key_def example_grant_def NewState_def SchemaVersion_def
  class_defs KeyClass_Valid_def

definition example_record :: KeyRecord where
  "example_record = \<lparr>kr_V = 1,
     kr_Key = (example_key ''k1'' ClassEnrollment 5 (Some (example_grant False)))\<lparr>k_SecretHMAC := ''''\<rparr>,
     kr_SecretHMAC = ''digest''\<rparr>"

definition example_ops :: "(gotime \<times> store_op) list" where
  "example_ops = [(10, OpBurnEnrollment ''k1'' ''s1'' 0), (11, OpBurnEnrollment ''k1'' ''s2'' 0)]"

lemma example_state_lookup: "map_of (st_Keys example_state) ''k1'' = Some example_record"
  by (simp add: example_state_defs example_record_def PutKey_def validateKey_def putKey_def bump_def)

lemma example_state_wf: "wf_state example_state"
  unfolding example_state_def by (rule wf_PutKey) (rule wf_NewState)

theorem enrollment_never_overspent_witness:
  "burns_of ''k1'' example_ops (snd (run_ops example_ops example_state)) \<le> 1"
proof -
  have "k_Enrollment (kr_Key example_record) = Some (example_grant False)"
    by (simp add: example_record_def example_key_def)
  from enrollment_never_overspent [OF example_state_wf example_state_lookup this, of example_ops]
  show ?thesis by (simp add: example_ops_def example_grant_def del: burns_of.simps run_ops_Cons)
qed

text \<open>
  C31. The epoch protects every cached decision. If it has the same value after a history of fewer
  than \<open>2^64\<close> operations, then from the last clock reading on every key is usable exactly as before,
  with the same scope, digest and grant. If moreover every pruning kept revocations for the renewal
  grace, as the hub's do, every certificate is refused exactly as before, in a renewal within the
  grace after its expiry too.
\<close>
theorem epoch_guards_decisions:
  assumes "wf_state s" and "length ops < 2 ^ 64" and "\<forall>(now, op) \<in> set ops. now \<le> t"
    and "st_Epoch (fst (run_ops ops s)) = st_Epoch s"
  shows "auth_view (fst (run_ops ops s)) kid t = auth_view s kid t
       \<and> ((\<forall>(now, op) \<in> set ops. op_honours grace op) \<longrightarrow> cert_view grace (fst (run_ops ops s)) serial t = cert_view grace s serial t)"
proof -
  obtain n where n: "n \<le> length ops" "st_Epoch (fst (run_ops ops s)) = st_Epoch s + of_nat n"
    "n = 0 \<longrightarrow> auth_view (fst (run_ops ops s)) kid t = auth_view s kid t
              \<and> ((\<forall>(now, op) \<in> set ops. op_honours grace op) \<longrightarrow> cert_view grace (fst (run_ops ops s)) serial t = cert_view grace s serial t)"
    using run_ops_epoch [OF assms(1,3)] by blast
  have "(of_nat n :: 64 word) = 0" using n(2) assms(4) by simp
  then have "2 ^ 64 dvd n" by (simp add: word_of_nat_eq_0_iff)
  then have "n = 0" using n(1) assms(2) by (auto dest: dvd_imp_le)
  then show ?thesis using n(3) by simp
qed

definition example_revoked :: State where
  "example_revoked = example_state\<lparr>st_RevokedCerts := [(''2a'', \<lparr>rc_Serial = ''2a'', rc_RevokedAt = 5, rc_NotAfter = 20, rc_Reason = ''lost''\<rparr>)]\<rparr>"

lemma example_revoked_facts: "wf_state example_revoked" "cert_view 990 example_revoked ''2a'' 1001 \<noteq> None"
  using example_state_wf by (simp_all add: example_revoked_def wf_state_def wf_cert_entry_def cert_view_def)

theorem epoch_guards_decisions_witness:
  "let s' = fst (run_ops [(10, OpTouchKey ''k1'' 0), (20, OpPrune 990)] example_revoked)
   in auth_view s' ''k1'' 30 = auth_view example_revoked ''k1'' 30 \<and> cert_view 990 s' ''2a'' 30 = cert_view 990 example_revoked ''2a'' 30"
  using epoch_guards_decisions [OF example_revoked_facts(1), of "[(10, OpTouchKey ''k1'' 0), (20, OpPrune 990)]" 30 "''k1''" 990 "''2a''"]
  by (simp add: op_honours_def)

text \<open>
  C32. The hub's pruning changes no decision. From the moment a scheduled pass runs, every key is
  usable as before, and every certificate is refused as before, in a renewal within the grace after
  its expiry too, for any configured retention that is not negative; a key without expiry, or not yet
  expired, is kept whether or not it is revoked; and the operator's labels of every cluster are the
  ones they were, because the record they come from is kept however old it is.
\<close>
theorem Prune_changes_no_decision:
  assumes "wf_state s" and "prune_pass interval stateRetention renewGrace = Some op" and "0 \<le> stateRetention"
    and "apply_op now op s = (s', r)"
  shows "(\<forall>kid t. now \<le> t \<longrightarrow> auth_view s' kid t = auth_view s kid t)
    \<and> (\<forall>serial t. now \<le> t \<longrightarrow> cert_view renewGrace s' serial t = cert_view renewGrace s serial t)
    \<and> (\<forall>kid rec. map_of (st_Keys s) kid = Some rec \<and> \<not> Expired (kr_Key rec) now \<longrightarrow>
          map_of (st_Keys s') kid = Some rec)
    \<and> (\<forall>c. enrollmentLabels (Some (Inr s')) c = enrollmentLabels (Some (Inr s)) c)
    \<and> st_Epoch s' = st_Epoch s"
proof (intro conjI allI impI)
  let ?retain = "stateRetention + renewGrace"
  have op: "op = OpPrune ?retain" using assms(2) by (simp add: prune_pass_def Let_def split: if_splits)
  have s': "s' = fst (Prune now ?retain s)" using arg_cong [OF assms(4), of fst] by (simp add: op)
  show "now \<le> t \<Longrightarrow> auth_view s' kid t = auth_view s kid t" for kid t
    unfolding s' by (rule auth_view_Prune [OF assms(1)])
  show "now \<le> t \<Longrightarrow> cert_view renewGrace s' serial t = cert_view renewGrace s serial t" for serial t
    unfolding s' using assms(3) by (intro cert_view_Prune [OF assms(1)]) simp_all
  show "map_of (st_Keys s') kid = Some rec" if "map_of (st_Keys s) kid = Some rec \<and> \<not> Expired (kr_Key rec) now" for kid rec
    using that unfolding s' by (auto simp: Prune_Keys_lookup [OF assms(1)] keeps_key_def Expired_def Let_def)
  show "enrollmentLabels (Some (Inr s')) c = enrollmentLabels (Some (Inr s)) c" for c
    unfolding s' enrollmentLabels_def by (simp add: enrollment_choice_Prune [OF assms(1)])
  show "st_Epoch s' = st_Epoch s" unfolding s' by simp
qed

theorem Prune_changes_no_decision_witness:
  "let s' = fst (apply_op 1000 (OpPrune 990) example_revoked)
   in enrollmentLabels (Some (Inr s')) ''c1'' = enrollmentLabels (Some (Inr example_revoked)) ''c1''
     \<and> cert_view 990 s' ''2a'' 1001 = cert_view 990 example_revoked ''2a'' 1001 \<and> cert_view 990 example_revoked ''2a'' 1001 \<noteq> None"
proof -
  have "prune_pass 1 0 990 = Some (OpPrune 990)" by (simp add: prune_pass_def)
  from Prune_changes_no_decision [OF example_revoked_facts(1) this order.refl surjective_pairing, of 1000] example_revoked_facts(2)
  show ?thesis unfolding Let_def by simp
qed

text \<open>
  C39. A stored key survives persistence with its digest. \<open>encoding/json\<close> is assumed to give back
  the document up to the fields the domain type hides and the order of the maps; a key put into a
  well-formed document, encoded and decoded again, is then read back exactly as it was stored, and
  every other key reads as before.
\<close>
theorem stored_key_survives_persistence:
  assumes "wf_state s" and "st_SchemaVersion s = SchemaVersion" and "PutKey (Some k) s = (s1, Inr True)"
    and json: "\<exists>s2. unmarshal (marshal s1) = Some s2 \<and> json_same s1 s2" and "marshal s1 \<noteq> ''''"
  shows "\<exists>s2. Decode unmarshal migs (snd (Encode marshal s1)) = Inr s2
    \<and> GetKey s2 kid = (if kid = k_KID k then Inr k else GetKey s kid) \<and> st_Epoch s2 = st_Epoch s + 1"
proof -
  have s1: "wf_state s1" "st_SchemaVersion s1 = SchemaVersion" "st_Epoch s1 = st_Epoch s + 1"
    using wf_PutKey [OF assms(1), of "Some k"] epoch_apply_op [of 0 "OpPutKey (Some k)" s] assms(2,3)
    by (auto simp: PutKey_def putKey_def bump_def split: option.splits)
  then have enc: "snd (Encode marshal s1) = marshal s1"
    by (simp add: Encode_def Let_def flip: s1(2))
  obtain s2 where s2: "unmarshal (marshal s1) = Some s2" "json_same s1 s2" using json by blast
  then have "Decode unmarshal migs (marshal s1) = Inr s2"
    using assms(5) s1(2) by (simp add: Decode_def migrateTo_current json_same_def)
  moreover have "GetKey s2 kid = GetKey s1 kid"
    by (simp add: GetKey_def json_same_lookup [OF s2(2) s1(1)])
  ultimately show ?thesis using enc GetKey_PutKey [OF assms(3), of kid] s1(3) s2(2)
    by (auto simp: json_same_def)
qed

definition example_codec :: "string \<Rightarrow> State option" where
  "example_codec b = (if b = ''{}'' then Some example_state else None)"

theorem stored_key_survives_persistence_witness:
  "\<exists>s2. Decode example_codec (\<lambda>_. None) (snd (Encode (\<lambda>_. ''{}'') example_state)) = Inr s2
     \<and> GetKey s2 ''k1'' = Inr (example_key ''k1'' ClassEnrollment 5 (Some (example_grant False)))"
proof -
  let ?k = "example_key ''k1'' ClassEnrollment 5 (Some (example_grant False))"
  have put: "PutKey (Some ?k) NewState = (example_state, Inr True)"
    by (simp add: example_state_defs PutKey_def validateKey_def)
  have same: "json_same example_state example_state"
    by (auto simp: json_same_def fun_eq_iff option.map_ident_strong json_strip_wf wf_state_entry [OF example_state_wf]
        example_state_defs PutKey_def validateKey_def putKey_def bump_def json_strip_def)
  show ?thesis
    using stored_key_survives_persistence [OF wf_NewState _ put, of example_codec "\<lambda>_. ''{}''" "\<lambda>_. None" "''k1''"] same
    by (auto simp: example_codec_def NewState_def example_key_def)
qed

text \<open>
  C38. Rotation is all or nothing. \<open>ReplaceKey\<close> either fails and leaves the document alone, or stores
  the fresh key, revokes the replaced one with the given reason and moves the epoch once; no other
  record changes.
\<close>
theorem ReplaceKey_atomic:
  "case ReplaceKey fresh oldKID reason tm now s of
     (s', Inl e) \<Rightarrow> s' = s
   | (s', Inr _) \<Rightarrow>
       \<exists>k old. fresh = Some k \<and> k_KID k \<noteq> oldKID \<and> GetKey s oldKID = Inr old \<and> \<not> Revoked old
         \<and> GetKey s' (k_KID k) = Inr k
         \<and> GetKey s' oldKID = Inr (old\<lparr>k_RevokedAt := Some (if IsZero tm then now else tm), k_RevokedReason := reason\<rparr>)
         \<and> (\<forall>kid. kid \<noteq> k_KID k \<and> kid \<noteq> oldKID \<longrightarrow> GetKey s' kid = GetKey s kid)
         \<and> st_Epoch s' = st_Epoch s + 1"
  by (auto simp: ReplaceKey_def PutKey_def validateKey_def Let_def Revoked_def putKey_def bump_def GetKey_def KeyRecord_value_def
      split: option.splits)

theorem ReplaceKey_atomic_witness:
  "\<exists>old. GetKey (fst (ReplaceKey (Some (example_key ''k2'' ClassEnrollment 6 None)) ''k1'' ''rotated'' 0 7 example_state)) ''k1''
     = Inr (old\<lparr>k_RevokedAt := Some 7, k_RevokedReason := ''rotated''\<rparr>)"
proof -
  have "snd (ReplaceKey (Some (example_key ''k2'' ClassEnrollment 6 None)) ''k1'' ''rotated'' 0 7 example_state) = Inr True"
    by (simp add: ReplaceKey_def PutKey_def validateKey_def example_state_defs putKey_def bump_def)
  then show ?thesis
    using ReplaceKey_atomic [where fresh = "Some (example_key ''k2'' ClassEnrollment 6 None)" and oldKID = "''k1''"
        and reason = "''rotated''" and tm = 0 and now = 7 and s = example_state]
    by (auto split: prod.splits sum.splits)
qed

end
