(* ===== verification/Token.thy ===== *)
theory Token
  imports Fleet_Types "HOL-Library.Monad_Syntax"
begin

unbundle bit_operations_syntax

text \<open>
  The credential text of \<open>internal/token\<close>: \<open>token.go\<close> (minting, parsing, the base62 codec and its
  checksum) and \<open>hasher.go\<close> (the peppered digest).

  A byte is a \<open>char\<close>; a \<open>big.Int\<close> that is never negative is a \<open>nat\<close>; a \<open>uint32\<close> is a \<open>32 word\<close>.
  The entropy source is a parameter, a function on its own state that either fails or fills the
  buffer; so is HMAC-SHA256. CRC-32C is the bitwise form of the standard library's table.
\<close>

subsection \<open>Constants\<close>

definition Prefix :: string where "Prefix = ''pmf_''"
definition ClassLen :: nat where "ClassLen = 3"
definition KIDLen :: nat where "KIDLen = 10"
definition SecretBytes :: nat where "SecretBytes = 32"
definition SecretLen :: nat where "SecretLen = 43"
definition CRCLen :: nat where "CRCLen = 6"
definition headLen :: nat where "headLen = length Prefix + ClassLen + 1"
definition kidEnd :: nat where "kidEnd = headLen + KIDLen"
definition crcSep :: nat where "crcSep = kidEnd + SecretLen"
definition bodyLen :: nat where "bodyLen = crcSep"
definition Len :: nat where "Len = headLen + KIDLen + SecretLen + 1 + CRCLen"

definition alphabet :: string where
  "alphabet = ''0123456789ABCDEFGHIJKLMNOPQRSTUVWXYZabcdefghijklmnopqrstuvwxyz''"

lemmas token_consts = Prefix_def ClassLen_def KIDLen_def SecretBytes_def SecretLen_def CRCLen_def
  headLen_def kidEnd_def crcSep_def bodyLen_def Len_def

datatype token_error = ErrMalformed | ErrBadChecksum | ErrUnknownClass | ErrEntropy | ErrShortPepper

subsection \<open>The base62 codec\<close>

abbreviation byte_of :: "char \<Rightarrow> nat" where
  "byte_of c \<equiv> of_char c"

definition b62Table :: "int list" where
  "b62Table = fold (\<lambda>i t. t[byte_of (alphabet ! i) := int i]) [0..<length alphabet] (replicate 256 (- 1))"

definition b62Index :: "char \<Rightarrow> int" where
  "b62Index c = b62Table ! byte_of c"

definition isBase62 :: "string \<Rightarrow> bool" where
  "isBase62 s \<longleftrightarrow>
     list_all (\<lambda>c. \<not> ((c < CHR ''0'' \<or> c > CHR ''9'') \<and> (c < CHR ''A'' \<or> c > CHR ''Z'')
                     \<and> (c < CHR ''a'' \<or> c > CHR ''z''))) s
     \<and> length s > 0"

text \<open>
  The loop both encoders share: digits are written from the last position to the first, and what is
  left of the number is returned.
\<close>

fun digits_loop :: "nat \<Rightarrow> nat \<Rightarrow> string \<Rightarrow> string \<times> nat" where
  "digits_loop 0 n out = (out, n)"
| "digits_loop (Suc i) n out = digits_loop i (n div 62) (alphabet ! (n mod 62) # out)"

definition encodeCRC :: "32 word \<Rightarrow> string" where
  "encodeCRC crc = fst (digits_loop CRCLen (unat crc) [])"

text \<open>\<open>big.Int.SetBytes\<close>, \<open>BitLen\<close> and \<open>FillBytes\<close>.\<close>

definition SetBytes :: "string \<Rightarrow> nat" where
  "SetBytes b = foldl (\<lambda>n c. n * 256 + byte_of c) 0 b"

fun BitLen :: "nat \<Rightarrow> nat" where
  "BitLen n = (if n = 0 then 0 else Suc (BitLen (n div 2)))"

declare BitLen.simps [simp del]

fun fill_loop :: "nat \<Rightarrow> nat \<Rightarrow> string \<Rightarrow> string" where
  "fill_loop 0 n out = out"
| "fill_loop (Suc i) n out = fill_loop i (n div 256) (char_of (n mod 256) # out)"

definition FillBytes :: "nat \<Rightarrow> nat \<Rightarrow> string" where
  "FillBytes byteLen n = fill_loop byteLen n []"

definition encodeBase62 :: "string \<Rightarrow> nat \<Rightarrow> string \<times> bool" where
  "encodeBase62 b width = (let (out, n) = digits_loop width (SetBytes b) [] in (out, n = 0))"

fun decode_loop :: "string \<Rightarrow> nat \<Rightarrow> nat option" where
  "decode_loop [] n = Some n"
| "decode_loop (c # cs) n =
     (let v = b62Index c in if v < 0 then None else decode_loop cs (n * 62 + nat v))"

definition decodeBase62 :: "string \<Rightarrow> nat \<Rightarrow> string option" where
  "decodeBase62 s byteLen =
     (case decode_loop s 0 of
        None \<Rightarrow> None
      | Some n \<Rightarrow> if BitLen n > byteLen * 8 then None else Some (FillBytes byteLen n))"

subsection \<open>CRC-32C\<close>

definition castagnoli :: "32 word" where
  "castagnoli = 0x82F63B78"

definition crc_shift :: "32 word \<Rightarrow> 32 word" where
  "crc_shift x = (if bit x 0 then drop_bit 1 x XOR castagnoli else drop_bit 1 x)"

definition crc_step :: "char \<Rightarrow> 32 word \<Rightarrow> 32 word" where
  "crc_step c crc = (crc_shift ^^ 8) (crc XOR word_of_nat (byte_of c))"

definition Checksum :: "string \<Rightarrow> 32 word" where
  "Checksum b = NOT (fold crc_step b (NOT 0))"

subsection \<open>Minting\<close>

record Minted =
  mt_Raw :: string
  mt_KID :: string
  mt_Secret :: string

type_synonym 'r entropy = "'r \<Rightarrow> nat \<Rightarrow> (token_error + string) \<times> 'r"

text \<open>
  \<open>randomBase62\<close> draws buffers until it has enough unbiased digits. The inner loop appends the
  digits of one buffer and stops when the output is full.
\<close>

fun take_digits :: "nat \<Rightarrow> string \<Rightarrow> string \<Rightarrow> string" where
  "take_digits n out [] = out"
| "take_digits n out (b # bs) =
     (if byte_of b \<ge> 248 then take_digits n out bs
      else let out = out @ [alphabet ! (byte_of b mod 62)]
           in if length out = n then out else take_digits n out bs)"

partial_function (option) random_loop ::
    "'r entropy \<Rightarrow> nat \<Rightarrow> string \<Rightarrow> 'r \<Rightarrow> ((token_error + string) \<times> 'r) option" where
  "random_loop read n out r =
     (if length out < n then
        (case read r n of
           (Inl e, r') \<Rightarrow> Some (Inl e, r')
         | (Inr buf, r') \<Rightarrow> random_loop read n (take_digits n out buf) r')
      else Some (Inr out, r))"

definition randomBase62 :: "'r entropy \<Rightarrow> nat \<Rightarrow> 'r \<Rightarrow> ((token_error + string) \<times> 'r) option" where
  "randomBase62 read n r = random_loop read n [] r"

definition token_text :: "KeyClass \<Rightarrow> string \<Rightarrow> string \<Rightarrow> string" where
  "token_text class kid secret =
     (let buf = Prefix @ class @ ''_'' @ kid @ fst (encodeBase62 secret SecretLen) @ ''_''
      in buf @ encodeCRC (Checksum (take bodyLen buf)))"

definition mint_secret ::
    "'r entropy \<Rightarrow> KeyClass \<Rightarrow> string \<Rightarrow> 'r \<Rightarrow> (token_error + Minted) \<times> 'r" where
  "mint_secret read class kid r =
     (case read r SecretBytes of
        (Inl e, r') \<Rightarrow> (Inl e, r')
      | (Inr secret, r') \<Rightarrow>
          (Inr \<lparr>mt_Raw = token_text class kid secret, mt_KID = kid, mt_Secret = secret\<rparr>, r'))"

definition mintWith ::
    "KeyClass \<Rightarrow> string \<Rightarrow> 'r entropy \<Rightarrow> 'r \<Rightarrow> ((token_error + Minted) \<times> 'r) option" where
  "mintWith class kid read r =
     (if \<not> KeyClass_Valid class then Some (Inl ErrUnknownClass, r)
      else if kid = '''' then
        (case randomBase62 read KIDLen r of
           None \<Rightarrow> None
         | Some (Inl e, r') \<Rightarrow> Some (Inl e, r')
         | Some (Inr kid, r') \<Rightarrow> Some (mint_secret read class kid r'))
      else Some (mint_secret read class kid r))"

definition Mint :: "KeyClass \<Rightarrow> 'r entropy \<Rightarrow> 'r \<Rightarrow> ((token_error + Minted) \<times> 'r) option" where
  "Mint class read r = mintWith class '''' read r"

definition MintWithKID ::
    "KeyClass \<Rightarrow> string \<Rightarrow> 'r entropy \<Rightarrow> 'r \<Rightarrow> ((token_error + Minted) \<times> 'r) option" where
  "MintWithKID class kid read r =
     (if length kid \<noteq> KIDLen \<or> \<not> isBase62 kid then Some (Inl ErrMalformed, r)
      else mintWith class kid read r)"

subsection \<open>Parsing\<close>

text \<open>\<open>raw[a:b]\<close>.\<close>

definition slice :: "string \<Rightarrow> nat \<Rightarrow> nat \<Rightarrow> string" where
  "slice raw a b = take (b - a) (drop a raw)"

definition Parse :: "string \<Rightarrow> token_error + KeyClass \<times> string \<times> string" where
  "Parse raw =
     (if length raw \<noteq> Len then Inl ErrMalformed
      else if take (length Prefix) raw \<noteq> Prefix then Inl ErrMalformed
      else if raw ! (headLen - 1) \<noteq> CHR ''_'' \<or> raw ! crcSep \<noteq> CHR ''_'' then Inl ErrMalformed
      else if list_ex (\<lambda>i. b62Index (raw ! i) < 0) [length Prefix..<headLen - 1] then Inl ErrMalformed
      else if list_ex (\<lambda>i. b62Index (raw ! i) < 0) [headLen..<crcSep] then Inl ErrMalformed
      else if list_ex (\<lambda>i. b62Index (raw ! i) < 0) [crcSep + 1..<Len] then Inl ErrMalformed
      else if encodeCRC (Checksum (take bodyLen raw)) \<noteq> drop (crcSep + 1) raw then Inl ErrBadChecksum
      else
        (let class = slice raw (length Prefix) (headLen - 1)
         in if \<not> KeyClass_Valid class then Inl ErrUnknownClass
            else
              (case decodeBase62 (slice raw kidEnd crcSep) SecretBytes of
                 None \<Rightarrow> Inl ErrMalformed
               | Some secret \<Rightarrow> Inr (class, slice raw headLen kidEnd, secret))))"

subsection \<open>Hashing\<close>

definition MinPepperBytes :: nat where "MinPepperBytes = 32"

definition decoySecret :: string where "decoySecret = ''prometheus-mcp-fleet/decoy/v1___''"

record Hasher =
  h_pepper :: string
  h_decoyHMAC :: string

type_synonym mac = "string \<Rightarrow> string \<Rightarrow> string"

definition Hasher_Sum :: "mac \<Rightarrow> Hasher option \<Rightarrow> string \<Rightarrow> string" where
  "Hasher_Sum hmac h secret = (case h of None \<Rightarrow> '''' | Some h \<Rightarrow> hmac (h_pepper h) secret)"

definition NewHasher :: "mac \<Rightarrow> string \<Rightarrow> token_error + Hasher" where
  "NewHasher hmac pepper =
     (if length pepper < MinPepperBytes then Inl ErrShortPepper
      else let h = \<lparr>h_pepper = pepper, h_decoyHMAC = ''''\<rparr>
           in Inr (h\<lparr>h_decoyHMAC := Hasher_Sum hmac (Some h) decoySecret\<rparr>))"

definition Hasher_Equal :: "mac \<Rightarrow> Hasher option \<Rightarrow> string \<Rightarrow> string \<Rightarrow> bool" where
  "Hasher_Equal hmac h storedHMAC secret =
     (case h of None \<Rightarrow> False | Some _ \<Rightarrow> storedHMAC = Hasher_Sum hmac h secret)"

text \<open>\<open>Decoy\<close> returns the increment of the counter that absorbs its comparison.\<close>

definition Hasher_Decoy :: "mac \<Rightarrow> Hasher option \<Rightarrow> string \<Rightarrow> nat" where
  "Hasher_Decoy hmac h secret =
     (case h of None \<Rightarrow> 0 | Some h' \<Rightarrow> if h_decoyHMAC h' = Hasher_Sum hmac h secret then 1 else 0)"

subsection \<open>The alphabet\<close>

lemma alphabet_bytes: "map byte_of alphabet = [48..<58] @ [65..<91] @ [97..<123]"
  by code_simp

lemma length_alphabet [simp]: "length alphabet = 62"
  by (simp add: alphabet_def)

lemma distinct_alphabet: "distinct alphabet"
  by (simp add: alphabet_def)

lemma b62Table_fold:
  assumes "n \<le> 62"
  shows "length (fold (\<lambda>i t. t[byte_of (alphabet ! i) := int i]) [0..<n] (replicate 256 (- 1))) = 256
    \<and> (\<forall>i < n. fold (\<lambda>i t. t[byte_of (alphabet ! i) := int i]) [0..<n] (replicate 256 (- 1)) ! byte_of (alphabet ! i) = int i)
    \<and> (\<forall>c. (\<forall>i < n. alphabet ! i \<noteq> c) \<longrightarrow>
          fold (\<lambda>i t. t[byte_of (alphabet ! i) := int i]) [0..<n] (replicate 256 (- 1)) ! byte_of c = - 1)"
  using assms
proof (induction n)
  case 0
  have "byte_of c < 256" for c by (rule nat_of_char_less_256)
  then show ?case by simp
next
  case (Suc n)
  have "byte_of (alphabet ! n) \<noteq> byte_of (alphabet ! i)" if "i < n" for i
    using that Suc.prems distinct_alphabet by (simp add: nth_eq_iff_index_eq)
  then show ?case using Suc by (auto simp: nth_list_update less_Suc_eq)
qed

lemma b62Index_nth [simp]: "i < 62 \<Longrightarrow> b62Index (alphabet ! i) = int i"
  using b62Table_fold [of 62] by (simp add: b62Index_def b62Table_def)

lemma b62Index_out: "c \<notin> set alphabet \<Longrightarrow> b62Index c = - 1"
  using b62Table_fold [of 62] by (simp add: b62Index_def b62Table_def in_set_conv_nth)

lemma b62Index_digit: "0 \<le> b62Index c \<longleftrightarrow> c \<in> set alphabet"
  using b62Index_out [of c] b62Index_nth by (fastforce simp: in_set_conv_nth)

lemma alphabet_b62Index: "c \<in> set alphabet \<Longrightarrow> nat (b62Index c) < 62 \<and> alphabet ! nat (b62Index c) = c"
  by (auto simp: in_set_conv_nth)

lemma isBase62_iff: "isBase62 s \<longleftrightarrow> s \<noteq> [] \<and> set s \<subseteq> set alphabet"
proof -
  have "c \<in> set alphabet \<longleftrightarrow> byte_of c \<in> set (map byte_of alphabet)" for c
    by auto
  then have "c \<in> set alphabet \<longleftrightarrow> byte_of c \<in> {48..<58} \<union> {65..<91} \<union> {97..<123}" for c
    by (simp only: alphabet_bytes set_append set_upt Un_assoc)
  then show ?thesis
    by (auto simp: isBase62_def list_all_iff less_char_def subset_iff)
qed
subsection \<open>Both directions of the codecs\<close>

lemma decode_loop_append:
  "decode_loop (s @ t) k = (case decode_loop s k of None \<Rightarrow> None | Some n \<Rightarrow> decode_loop t n)"
  by (induction s arbitrary: k) (simp_all add: Let_def)

lemma digits_loop_spec:
  "\<exists>ds. digits_loop w n out = (ds @ out, n div 62 ^ w) \<and> length ds = w \<and> set ds \<subseteq> set alphabet
     \<and> (\<forall>k. decode_loop ds k = Some (k * 62 ^ w + n mod 62 ^ w))"
proof (induction w arbitrary: n out)
  case 0
  then show ?case by simp
next
  case (Suc w)
  let ?d = "alphabet ! (n mod 62)"
  obtain ds where ds: "digits_loop w (n div 62) (?d # out) = (ds @ ?d # out, n div 62 div 62 ^ w)"
    "length ds = w" "set ds \<subseteq> set alphabet" "\<forall>k. decode_loop ds k = Some (k * 62 ^ w + n div 62 mod 62 ^ w)"
    using Suc.IH by blast
  have "n mod 62 ^ Suc w = 62 * (n div 62 mod 62 ^ w) + n mod 62"
    by (simp add: mod_mult2_eq)
  moreover have "?d \<in> set alphabet" by (rule nth_mem) simp
  ultimately show ?case using ds
    by (intro exI [of _ "ds @ [?d]"]) (simp add: decode_loop_append div_mult2_eq algebra_simps)
qed

lemma digits_loop_inverse:
  "decode_loop s k = Some n \<Longrightarrow> digits_loop (length s) n out = (s @ out, k)"
proof (induction s arbitrary: n out rule: rev_induct)
  case Nil
  then show ?case by simp
next
  case (snoc c s)
  then obtain m where m: "decode_loop s k = Some m" "0 \<le> b62Index c" "n = m * 62 + nat (b62Index c)"
    by (auto simp: decode_loop_append Let_def split: option.splits if_splits)
  then have "nat (b62Index c) < 62" "alphabet ! nat (b62Index c) = c"
    using alphabet_b62Index b62Index_digit by blast+
  then show ?case using snoc.IH [OF m(1), of "c # out"] m(3) by simp
qed

lemma decode_loop_total: "set s \<subseteq> set alphabet \<Longrightarrow> \<exists>n. decode_loop s k = Some n"
  by (induction s arbitrary: k) (auto simp: Let_def not_le b62Index_digit [symmetric])

lemma SetBytes_snoc [simp]: "SetBytes (b @ [c]) = SetBytes b * 256 + byte_of c"
  by (simp add: SetBytes_def)

lemma SetBytes_less: "SetBytes b < 256 ^ length b"
proof (induction b rule: rev_induct)
  case (snoc c b)
  have "SetBytes b * 256 + byte_of c < (SetBytes b + 1) * 256" by simp
  also have "\<dots> \<le> 256 ^ length b * 256" using snoc.IH by (intro mult_right_mono) simp_all
  finally show ?case by simp
qed (simp add: SetBytes_def)

lemma fill_loop_SetBytes: "fill_loop (length b) (SetBytes b) out = b @ out"
  by (induction b arbitrary: out rule: rev_induct) simp_all

lemma length_fill_loop [simp]: "length (fill_loop l n out) = l + length out"
  by (induction l arbitrary: n out) simp_all

lemma SetBytes_fill_loop: "SetBytes (fill_loop l n out) = (n mod 256 ^ l) * 256 ^ length out + SetBytes out"
proof (induction l arbitrary: n out)
  case (Suc l)
  have cons: "SetBytes (c # out) = byte_of c * 256 ^ length out + SetBytes out" for c out
  proof (induction out rule: rev_induct)
    case (snoc x xs)
    then show ?case using SetBytes_snoc [of "c # xs" x] by simp
  qed (simp add: SetBytes_def)
  have "n mod 256 ^ Suc l = 256 * (n div 256 mod 256 ^ l) + n mod 256"
    by (simp add: mod_mult2_eq)
  then show ?case using Suc.IH [of "n div 256" "char_of (n mod 256) # out"]
    by (simp add: cons algebra_simps)
qed (simp add: SetBytes_def)

lemma BitLen_le: "BitLen n \<le> k \<longleftrightarrow> n < 2 ^ k"
proof (induction n arbitrary: k rule: BitLen.induct)
  case (1 n)
  show ?case
  proof (cases "n = 0")
    case False
    show ?thesis
    proof (cases k)
      case 0
      then show ?thesis using False by (simp add: BitLen.simps [of n])
    next
      case (Suc k')
      then show ?thesis using 1 [OF False, of k'] False
        by (simp add: BitLen.simps [of n] less_mult_imp_div_less div_less_iff_less_mult mult.commute)
    qed
  qed (simp add: BitLen.simps)
qed

lemma length_encodeBase62 [simp]: "length (fst (encodeBase62 b w)) = w"
  using digits_loop_spec [of w "SetBytes b" "[]"] by (auto simp: encodeBase62_def Let_def)

lemma length_encodeCRC [simp]: "length (encodeCRC c) = CRCLen"
  using digits_loop_spec [of CRCLen "unat c" "[]"] by (auto simp: encodeCRC_def)

lemma set_encodeBase62: "set (fst (encodeBase62 b w)) \<subseteq> set alphabet"
  using digits_loop_spec [of w "SetBytes b" "[]"] by (auto simp: encodeBase62_def Let_def)

lemma set_encodeCRC: "set (encodeCRC c) \<subseteq> set alphabet"
  using digits_loop_spec [of CRCLen "unat c" "[]"] by (auto simp: encodeCRC_def)

lemma decode_encodeBase62:
  assumes "256 ^ length b \<le> (62 :: nat) ^ w"
  shows "decodeBase62 (fst (encodeBase62 b w)) (length b) = Some b"
proof -
  have less: "SetBytes b < 256 ^ length b" by (rule SetBytes_less)
  then have "SetBytes b mod 62 ^ w = SetBytes b" using assms by simp
  then have "decode_loop (fst (encodeBase62 b w)) 0 = Some (SetBytes b)"
    using digits_loop_spec [of w "SetBytes b" "[]"] by (auto simp: encodeBase62_def Let_def)
  moreover have "\<not> BitLen (SetBytes b) > length b * 8"
    using less by (simp add: not_less BitLen_le power_mult mult.commute [of _ 8])
  ultimately show ?thesis using fill_loop_SetBytes [of b "[]"] by (simp add: decodeBase62_def FillBytes_def)
qed

lemma encode_decodeBase62:
  assumes "decodeBase62 s l = Some b"
  shows "encodeBase62 b (length s) = (s, True) \<and> length b = l"
proof -
  obtain n where n: "decode_loop s 0 = Some n" "\<not> BitLen n > l * 8" "b = FillBytes l n"
    using assms by (auto simp: decodeBase62_def split: option.splits if_splits)
  then have "n < 256 ^ l" by (simp add: not_less BitLen_le power_mult mult.commute [of _ 8])
  then have "SetBytes b = n" using n(3) SetBytes_fill_loop [of l n "[]"] by (simp add: FillBytes_def SetBytes_def)
  then show ?thesis using digits_loop_inverse [OF n(1), of "[]"] n(3)
    by (simp add: encodeBase62_def FillBytes_def)
qed

lemma encodeCRC_inj: "encodeCRC a = encodeCRC b \<longleftrightarrow> a = b"
proof
  have dec: "decode_loop (encodeCRC c) 0 = Some (unat c)" for c
  proof -
    have "unat c < 2 ^ LENGTH(32)" by (rule unsigned_less)
    then have "unat c < 62 ^ CRCLen" by (simp add: CRCLen_def)
    then show ?thesis using digits_loop_spec [of CRCLen "unat c" "[]"] by (auto simp: encodeCRC_def)
  qed
  assume "encodeCRC a = encodeCRC b"
  then have "unat a = unat b" using dec [of a] dec [of b] by simp
  then show "a = b" by (rule unsigned_word_eqI)
qed simp

subsection \<open>The checksum\<close>

lemma castagnoli_bits: "bit castagnoli 31"
  by (simp add: castagnoli_def)

lemma crc_shift_bit:
  "bit (crc_shift x) n \<longleftrightarrow> bit x (Suc n) \<noteq> (bit x 0 \<and> bit castagnoli n)"
  by (auto simp: crc_shift_def bit_simps)

lemma inj_crc_shift: "inj crc_shift"
proof (rule injI)
  fix x y assume eq: "crc_shift x = crc_shift y"
  have top: "bit (crc_shift z) 31 \<longleftrightarrow> bit z 0" for z
    using castagnoli_bits bit_imp_le_length [of z 32] by (auto simp: crc_shift_bit)
  have low: "bit x 0 \<longleftrightarrow> bit y 0" using top [of x] top [of y] eq by simp
  have "bit x n \<longleftrightarrow> bit y n" for n
  proof (cases n)
    case (Suc m)
    then show ?thesis using crc_shift_bit [of x m] crc_shift_bit [of y m] eq low by auto
  qed (simp add: low)
  then show "x = y" by (auto intro: bit_eqI)
qed

lemma xor_cancel:
  fixes x y a :: "32 word"
  shows "x XOR a = y XOR a \<longleftrightarrow> x = y" and "a XOR x = a XOR y \<longleftrightarrow> x = y"
  by (auto simp: bit_eq_iff bit_simps)

lemma inj_crc_step: "inj (crc_step c)"
proof (rule injI)
  fix x y assume "crc_step c x = crc_step c y"
  then have "x XOR word_of_nat (byte_of c) = y XOR word_of_nat (byte_of c)"
    unfolding crc_step_def by (rule injD [OF inj_fn [OF inj_crc_shift]])
  then show "x = y" by (simp add: xor_cancel)
qed

lemma crc_step_byte: "crc_step c x = crc_step d x \<Longrightarrow> c = d"
proof -
  assume "crc_step c x = crc_step d x"
  then have "x XOR word_of_nat (byte_of c) = x XOR word_of_nat (byte_of d)"
    unfolding crc_step_def by (rule injD [OF inj_fn [OF inj_crc_shift]])
  then have "(word_of_nat (byte_of c) :: 32 word) = word_of_nat (byte_of d)" by (simp add: xor_cancel)
  then have "byte_of c mod 2 ^ LENGTH(32) = byte_of d mod 2 ^ LENGTH(32)"
    by (simp add: word_of_nat_eq_iff take_bit_eq_mod)
  then have "byte_of c = byte_of d"
    using nat_of_char_less_256 [of c] nat_of_char_less_256 [of d] by simp
  then show "c = d" by simp
qed

lemma Checksum_one_byte:
  assumes "c \<noteq> d"
  shows "Checksum (a @ c # b) \<noteq> Checksum (a @ d # b)"
proof
  assume "Checksum (a @ c # b) = Checksum (a @ d # b)"
  then have eq: "fold crc_step b (crc_step c (fold crc_step a (NOT 0))) = fold crc_step b (crc_step d (fold crc_step a (NOT 0)))"
    by (simp add: Checksum_def)
  have "inj (fold crc_step b)"
    by (induction b) (auto simp: inj_on_def dest: injD [OF inj_crc_step])
  then have "crc_step c (fold crc_step a (NOT 0)) = crc_step d (fold crc_step a (NOT 0))"
    using eq by (rule injD)
  then show False using crc_step_byte assms by blast
qed

subsection \<open>The fixed layout\<close>

lemma not_digits:
  assumes "b \<le> length raw"
  shows "list_ex (\<lambda>i. b62Index (raw ! i) < 0) [a..<b] \<longleftrightarrow> \<not> set (slice raw a b) \<subseteq> set alphabet"
proof -
  have "slice raw a b = map ((!) raw) [a..<b]"
    using assms by (auto simp: slice_def list_eq_iff_nth_eq)
  then show ?thesis by (auto simp: list_ex_iff not_le [symmetric] b62Index_digit)
qed

lemma token_nums:
  "length Prefix = 4" "headLen = 8" "kidEnd = 18" "crcSep = 61" "bodyLen = 61" "Len = 68" "SecretBytes = 32"
  "ClassLen = 3" "KIDLen = 10" "SecretLen = 43" "CRCLen = 6"
  by (simp_all add: token_consts)

definition segments :: "KeyClass \<Rightarrow> string \<Rightarrow> string \<Rightarrow> string \<Rightarrow> string" where
  "segments class kid enc crc = Prefix @ class @ ''_'' @ kid @ enc @ ''_'' @ crc"

definition shaped :: "KeyClass \<Rightarrow> string \<Rightarrow> string \<Rightarrow> string \<Rightarrow> bool" where
  "shaped class kid enc crc \<longleftrightarrow>
     length class = ClassLen \<and> length kid = KIDLen \<and> length enc = SecretLen \<and> length crc = CRCLen
     \<and> set class \<subseteq> set alphabet \<and> set kid \<subseteq> set alphabet \<and> set enc \<subseteq> set alphabet \<and> set crc \<subseteq> set alphabet"

text \<open>\<open>Parse\<close> on a text cut at the fixed offsets.\<close>

lemma Parse_segments:
  assumes "shaped class kid enc crc"
  shows "Parse (segments class kid enc crc) =
    (if encodeCRC (Checksum (Prefix @ class @ ''_'' @ kid @ enc)) \<noteq> crc then Inl ErrBadChecksum
     else if \<not> KeyClass_Valid class then Inl ErrUnknownClass
     else case decodeBase62 enc SecretBytes of None \<Rightarrow> Inl ErrMalformed | Some secret \<Rightarrow> Inr (class, kid, secret))"
proof -
  let ?raw = "segments class kid enc crc"
  have len: "length class = 3" "length kid = 10" "length enc = 43" "length crc = 6"
    using assms by (simp_all add: shaped_def token_nums)
  have raw: "?raw = Prefix @ class @ ''_'' @ kid @ enc @ ''_'' @ crc"
    by (simp add: segments_def)
  have cut: "length ?raw = 68" "take 4 ?raw = Prefix" "slice ?raw 4 7 = class" "?raw ! 7 = CHR ''_''"
    "slice ?raw 8 61 = kid @ enc" "slice ?raw 8 18 = kid" "slice ?raw 18 61 = enc" "?raw ! 61 = CHR ''_''"
    "drop 62 ?raw = crc" "slice ?raw 62 68 = crc" "take 61 ?raw = Prefix @ class @ ''_'' @ kid @ enc"
    unfolding raw by (simp_all add: slice_def len nth_append token_nums)
  show ?thesis using assms
    unfolding Parse_def token_nums
    by (simp add: cut not_digits shaped_def Let_def del: upt_rec_numeral split: option.splits)
qed

lemma not_shaped_Parse:
  assumes "Parse raw \<noteq> Inl ErrMalformed"
  obtains cls kid enc crc where "raw = segments cls kid enc crc" "shaped cls kid enc crc"
proof -
  have len: "length raw = 68" and pre: "take 4 raw = Prefix" and sep: "raw ! 7 = CHR ''_''" "raw ! 61 = CHR ''_''"
    and digits: "set (slice raw 4 7) \<subseteq> set alphabet" "set (slice raw 8 61) \<subseteq> set alphabet" "set (slice raw 62 68) \<subseteq> set alphabet"
    using assms unfolding Parse_def token_nums by (auto simp: not_digits simp del: upt_rec_numeral split: if_splits)
  have cut: "drop a raw = slice raw a b @ drop b raw" if "a \<le> b" for a b
    using that by (simp add: slice_def) (metis append_take_drop_id drop_drop le_add_diff_inverse2)
  have sep': "drop 7 raw = raw ! 7 # drop 8 raw" "drop 61 raw = raw ! 61 # drop 62 raw" "drop 62 raw = slice raw 62 68"
    using len Cons_nth_drop_Suc [of 7 raw] Cons_nth_drop_Suc [of 61 raw] by (simp_all add: slice_def)
  have "take 4 raw @ drop 4 raw
      = take 4 raw @ slice raw 4 7 @ [raw ! 7] @ slice raw 8 18 @ slice raw 18 61 @ [raw ! 61] @ slice raw 62 68"
    using cut [of 4 7] cut [of 8 18] cut [of 18 61] sep' by simp
  then have "raw = segments (slice raw 4 7) (slice raw 8 18) (slice raw 18 61) (slice raw 62 68)"
    unfolding append_take_drop_id unfolding pre sep by (simp add: segments_def)
  moreover have "slice raw 8 61 = slice raw 8 18 @ slice raw 18 61"
    using take_add [of 10 43 "drop 8 raw"] by (simp add: slice_def)
  then have "shaped (slice raw 4 7) (slice raw 8 18) (slice raw 18 61) (slice raw 62 68)"
    using digits len by (simp add: shaped_def slice_def token_nums)
  ultimately show ?thesis by (rule that)
qed


subsection \<open>Drawing a key identifier\<close>

lemma take_digits_bounds:
  "length out < n \<Longrightarrow> set out \<subseteq> set alphabet \<Longrightarrow>
   length out \<le> length (take_digits n out bs) \<and> length (take_digits n out bs) \<le> n
   \<and> set (take_digits n out bs) \<subseteq> set alphabet"
proof (induction n out bs rule: take_digits.induct)
  case (2 n out b bs)
  let ?out = "out @ [alphabet ! (byte_of b mod 62)]"
  have "set ?out \<subseteq> set alphabet" using 2(4) nth_mem [of "byte_of b mod 62" alphabet] by simp
  then show ?case using 2 by (cases "byte_of b \<ge> 248"; cases "length ?out = n") (simp_all add: Let_def)
qed simp

lemma take_digits_progress:
  "length out < n \<Longrightarrow> \<exists>b \<in> set bs. byte_of b < 248 \<Longrightarrow> length out < length (take_digits n out bs)"
proof (induction n out bs rule: take_digits.induct)
  case (2 n out b bs)
  show ?case
  proof (cases "byte_of b \<ge> 248")
    case True
    then show ?thesis using 2 by auto
  next
    case False
    have len: "length (out @ [alphabet ! (byte_of b mod 62)]) \<le> n" using 2 by simp
    have mono: "length out' \<le> length (take_digits n out' bs')" for out' bs'
      by (induction n out' bs' rule: take_digits.induct) (auto simp: Let_def)
    show ?thesis using False mono [of "out @ [alphabet ! (byte_of b mod 62)]" bs] by (auto simp: Let_def)
  qed
qed simp

lemma random_loop_result:
  assumes "random_loop read n out r = Some y" and "length out \<le> n" and "set out \<subseteq> set alphabet" and "y = (Inr s, r')"
  shows "length s = n \<and> set s \<subseteq> set alphabet"
  using assms
proof (induction rule: random_loop.raw_induct [rotated, consumes 1, case_names step])
  case (step random_loop read n out r y)
  show ?case
  proof (cases "length out < n")
    case True
    then obtain buf r1 where "random_loop read n (take_digits n out buf) r1 = Some y"
      using step.hyps step.prems by (auto split: prod.splits sum.splits)
    then show ?thesis using step.IH step.prems take_digits_bounds [OF True step.prems(2), of buf] by blast
  next
    case False
    then show ?thesis using step.hyps step.prems by simp
  qed
qed

lemma random_loop_returns:
  assumes "\<And>r. \<exists>bs r'. read r n = (Inr bs, r') \<and> (\<exists>b \<in> set bs. byte_of b < 248)"
  shows "length out \<le> n \<Longrightarrow> set out \<subseteq> set alphabet \<Longrightarrow> \<exists>s r'. random_loop read n out r = Some (Inr s, r')"
proof (induction "n - length out" arbitrary: out r rule: less_induct)
  case less
  show ?case
  proof (cases "length out < n")
    case True
    obtain bs r1 where bs: "read r n = (Inr bs, r1)" "\<exists>b \<in> set bs. byte_of b < 248" using assms by blast
    have "n - length (take_digits n out bs) < n - length out"
      using take_digits_progress [OF True bs(2)] True by (rule diff_less_mono2)
    then have "\<exists>s r'. random_loop read n (take_digits n out bs) r1 = Some (Inr s, r')"
      using less.hyps take_digits_bounds [OF True less.prems(2), of bs] by blast
    then show ?thesis using bs(1) True by (simp add: random_loop.simps)
  qed (simp add: random_loop.simps)
qed

subsection \<open>Properties of the credential text\<close>

lemma class_shape: "KeyClass_Valid c \<Longrightarrow> length c = ClassLen \<and> set c \<subseteq> set alphabet"
  by (auto simp: KeyClass_Valid_def class_defs ClassLen_def alphabet_def)

lemma token_text_segments:
  assumes "KeyClass_Valid class" and "length kid = KIDLen" and "set kid \<subseteq> set alphabet"
  shows "token_text class kid secret = segments class kid (fst (encodeBase62 secret SecretLen))
      (encodeCRC (Checksum (Prefix @ class @ ''_'' @ kid @ fst (encodeBase62 secret SecretLen))))
    \<and> shaped class kid (fst (encodeBase62 secret SecretLen)) (encodeCRC c)"
  using assms class_shape [OF assms(1)]
  by (simp add: token_text_def segments_def shaped_def set_encodeBase62 set_encodeCRC token_nums Let_def)

lemma Parse_token_text:
  assumes "KeyClass_Valid class" and "length kid = KIDLen" and "set kid \<subseteq> set alphabet" and "length secret = SecretBytes"
  shows "Parse (token_text class kid secret) = Inr (class, kid, secret)"
proof -
  have "256 ^ length secret \<le> (62 :: nat) ^ SecretLen"
    using assms(4) by (simp add: token_nums)
  from decode_encodeBase62 [OF this]
  have "decodeBase62 (fst (encodeBase62 secret SecretLen)) SecretBytes = Some secret" using assms(4) by simp
  then show ?thesis
    using token_text_segments [OF assms(1-3)] Parse_segments assms(1) by simp
qed

lemma mint_secret_Inr:
  "mint_secret read class kid r = (Inr m, r') \<Longrightarrow>
   mt_KID m = kid \<and> mt_Raw m = token_text class kid (mt_Secret m) \<and> read r SecretBytes = (Inr (mt_Secret m), r')"
  by (auto simp: mint_secret_def split: prod.splits sum.splits)

lemma mintWith_Inr:
  "mintWith class kid read r = Some (Inr m, r') \<Longrightarrow>
   KeyClass_Valid class \<and> (\<exists>kid' r1. mint_secret read class kid' r1 = (Inr m, r')
     \<and> (if kid = '''' then randomBase62 read KIDLen r = Some (Inr kid', r1) else kid' = kid))"
  by (auto simp: mintWith_def split: if_splits option.splits prod.splits sum.splits)

text \<open>
  What is minted parses back. Whatever the entropy source returns, a credential minted under a
  random identifier or under a given one parses to the class it was minted for, the identifier the
  store keys on and the secret the hasher was given.
\<close>
theorem minted_token_parses:
  assumes read_fills: "\<forall>r n bs r'. read r n = (Inr bs, r') \<longrightarrow> length bs = n"
    and "mintWith class kid read r = Some (Inr m, r')"
    and "kid = '''' \<or> length kid = KIDLen \<and> isBase62 kid"
  shows "Parse (mt_Raw m) = Inr (class, mt_KID m, mt_Secret m)"
proof -
  obtain kid' r1 where m: "KeyClass_Valid class" "mint_secret read class kid' r1 = (Inr m, r')"
    and kid: "if kid = '''' then randomBase62 read KIDLen r = Some (Inr kid', r1) else kid' = kid"
    using mintWith_Inr [OF assms(2)] by blast
  have "length kid' = KIDLen \<and> set kid' \<subseteq> set alphabet"
  proof (cases "kid = ''''")
    case True
    then have "random_loop read KIDLen [] r = Some (Inr kid', r1)" using kid by (simp add: randomBase62_def)
    then show ?thesis by (rule random_loop_result) simp_all
  qed (use kid assms(3) in \<open>auto simp: isBase62_iff\<close>)
  moreover have "length (mt_Secret m) = SecretBytes" using mint_secret_Inr [OF m(2)] read_fills by blast
  ultimately show ?thesis using Parse_token_text m(1) mint_secret_Inr [OF m(2)] by simp
qed

definition example_read :: "unit entropy" where
  "example_read r n = (Inr (replicate n CHR ''a''), r)"

lemma example_kid:
  "isBase62 ''0123456789''" "length ''0123456789'' = KIDLen" "set ''0123456789'' \<subseteq> set alphabet"
  by code_simp+

lemma example_token:
  "KeyClass_Valid cls \<Longrightarrow>
   Parse (token_text cls ''0123456789'' (replicate 32 CHR ''a'')) = Inr (cls, ''0123456789'', replicate 32 CHR ''a'')"
  by (rule Parse_token_text) (simp_all only: example_kid length_replicate token_nums)

theorem minted_token_parses_witness:
  "\<exists>m. mintWith ClassAgent ''0123456789'' example_read () = Some (Inr m, ())
     \<and> Parse (mt_Raw m) = Inr (ClassAgent, ''0123456789'', replicate 32 CHR ''a'')"
proof -
  let ?m = "\<lparr>mt_Raw = token_text ClassAgent ''0123456789'' (replicate 32 CHR ''a''), mt_KID = ''0123456789'',
             mt_Secret = replicate 32 CHR ''a''\<rparr>"
  have mint: "mintWith ClassAgent ''0123456789'' example_read () = Some (Inr ?m, ())"
    by (simp add: mintWith_def mint_secret_def example_read_def KeyClass_Valid_def token_nums)
  have "Parse (mt_Raw ?m) = Inr (ClassAgent, mt_KID ?m, mt_Secret ?m)"
  proof (rule minted_token_parses [OF _ mint])
    show "\<forall>r n bs r'. example_read r n = (Inr bs, r') \<longrightarrow> length bs = n" by (simp add: example_read_def)
    show "''0123456789'' = '''' \<or> length ''0123456789'' = KIDLen \<and> isBase62 ''0123456789''"
      using example_kid by simp
  qed
  then show ?thesis using mint by (intro exI [of _ ?m] conjI) (simp_all only: Minted.select_convs)
qed

text \<open>
  C33. The text of a credential is canonical. Everything \<open>Parse\<close> accepts is exactly the text minting
  would produce for the class, identifier and secret it returns, so no two texts carry the same
  credential, and the secret always has its full width.
\<close>
theorem Parse_canonical:
  assumes "Parse raw = Inr (class, kid, secret)"
  shows "raw = token_text class kid secret \<and> KeyClass_Valid class \<and> length raw = Len
    \<and> length kid = KIDLen \<and> length secret = SecretBytes"
proof -
  have "Parse raw \<noteq> Inl ErrMalformed" using assms by simp
  then obtain cls kid' enc crc where raw: "raw = segments cls kid' enc crc" and shaped: "shaped cls kid' enc crc"
    by (rule not_shaped_Parse)
  have parts: "cls = class" "kid' = kid" "KeyClass_Valid class" "decodeBase62 enc SecretBytes = Some secret"
    "encodeCRC (Checksum (Prefix @ class @ ''_'' @ kid @ enc)) = crc"
    using assms unfolding raw Parse_segments [OF shaped] by (auto split: if_splits option.splits)
  have "encodeBase62 secret SecretLen = (enc, True)" "length secret = SecretBytes"
    using encode_decodeBase62 [OF parts(4)] shaped by (simp_all add: shaped_def)
  moreover have "set kid \<subseteq> set alphabet" "length kid = KIDLen" using shaped parts(2) by (simp_all add: shaped_def)
  ultimately show ?thesis
    using token_text_segments [OF parts(3), of kid secret] parts raw shaped
    by (simp add: segments_def shaped_def token_nums)
qed

theorem Parse_canonical_witness:
  "\<exists>raw. Parse raw = Inr (ClassAdmin, ''0123456789'', replicate 32 CHR ''a'')
     \<and> raw = token_text ClassAdmin ''0123456789'' (replicate 32 CHR ''a'')"
proof -
  have "Parse (token_text ClassAdmin ''0123456789'' (replicate 32 CHR ''a'')) = Inr (ClassAdmin, ''0123456789'', replicate 32 CHR ''a'')"
    by (rule example_token) (simp add: KeyClass_Valid_def)
  with Parse_canonical [OF this] show ?thesis by blast
qed

lemma Parse_checksum:
  "Parse raw \<noteq> Inl ErrMalformed \<Longrightarrow> encodeCRC (Checksum (take bodyLen raw)) \<noteq> drop (crcSep + 1) raw \<Longrightarrow>
   Parse raw = Inl ErrBadChecksum"
  "Parse raw = Inr r \<Longrightarrow> encodeCRC (Checksum (take bodyLen raw)) = drop (crcSep + 1) raw"
  by (auto simp: Parse_def split: if_splits)

lemma Parse_separator: "Parse raw \<noteq> Inl ErrMalformed \<Longrightarrow> raw ! crcSep = CHR ''_'' \<and> length raw = Len"
  by (auto simp: Parse_def split: if_splits)

text \<open>
  C34. A mistyped credential is refused without a lookup. Changing any single byte of a valid text
  to any other byte makes \<open>Parse\<close> report a malformed text or a bad checksum.
\<close>
theorem Parse_detects_one_byte:
  assumes "Parse raw = Inr r" and "i < Len" and "c \<noteq> raw ! i"
  shows "Parse (raw[i := c]) = Inl ErrMalformed \<or> Parse (raw[i := c]) = Inl ErrBadChecksum"
proof (rule disjCI)
  let ?raw = "raw[i := c]"
  have len: "length raw = Len" and sep: "raw ! crcSep = CHR ''_''" using assms(1) Parse_separator by auto
  assume ok: "Parse ?raw \<noteq> Inl ErrBadChecksum"
  show "Parse ?raw = Inl ErrMalformed"
  proof (rule ccontr)
    assume mal: "Parse ?raw \<noteq> Inl ErrMalformed"
    then have crc: "encodeCRC (Checksum (take bodyLen ?raw)) = drop (crcSep + 1) ?raw" using ok Parse_checksum(1) by blast
    have crc0: "encodeCRC (Checksum (take bodyLen raw)) = drop (crcSep + 1) raw" using Parse_checksum(2) [OF assms(1)] .
    consider "i < bodyLen" | "i = crcSep" | "crcSep < i" using bodyLen_def by linarith
    then show False
    proof cases
      case 1
      then have "take bodyLen raw = take i raw @ raw ! i # drop (Suc i) (take bodyLen raw)"
        using len id_take_nth_drop [of i "take bodyLen raw"] by (simp add: token_nums min_def)
      moreover have "take bodyLen ?raw = take i raw @ c # drop (Suc i) (take bodyLen raw)"
        using 1 len upd_conv_take_nth_drop [of i "take bodyLen raw" c]
        by (simp only: take_update_swap) (simp add: token_nums min_def)
      ultimately have "Checksum (take bodyLen ?raw) \<noteq> Checksum (take bodyLen raw)"
        using Checksum_one_byte [OF assms(3)] by metis
      moreover have "drop (crcSep + 1) ?raw = drop (crcSep + 1) raw" using 1 by (simp add: token_nums)
      ultimately show False using crc crc0 encodeCRC_inj by metis
    next
      case 2
      then show False using Parse_separator [OF mal] assms(2,3) len sep by simp
    next
      case 3
      then have "drop (crcSep + 1) ?raw = drop (crcSep + 1) raw" using crc crc0 by (simp add: token_nums)
      then have "?raw ! i = raw ! i"
        using 3 len assms(2) nth_drop [of "crcSep + 1" raw "i - (crcSep + 1)"] nth_drop [of "crcSep + 1" ?raw "i - (crcSep + 1)"]
        by simp
      then show False using assms len by simp
    qed
  qed
qed

theorem Parse_detects_one_byte_witness:
  "let raw = token_text ClassAgent ''0123456789'' (replicate 32 CHR ''a'')
   in Parse (raw[9 := CHR ''2'']) = Inl ErrMalformed \<or> Parse (raw[9 := CHR ''2'']) = Inl ErrBadChecksum"
proof -
  have p: "Parse (token_text ClassAgent ''0123456789'' (replicate 32 CHR ''a'')) = Inr (ClassAgent, ''0123456789'', replicate 32 CHR ''a'')"
    by (rule example_token) (simp add: KeyClass_Valid_def)
  show ?thesis unfolding Let_def
    by (rule Parse_detects_one_byte [OF p])
      (simp_all add: token_nums token_text_def Prefix_def ClassAgent_def nth_append)
qed

text \<open>
  C37. Minting returns. The rejection loop of \<open>randomBase62\<close> ends, with exactly the digits asked for,
  whenever every buffer the entropy source fills has a byte below the rejection bound.
\<close>
theorem randomBase62_returns:
  assumes "\<forall>r. \<exists>bs r'. read r n = (Inr bs, r') \<and> (\<exists>b \<in> set bs. byte_of b < 248)"
  shows "\<exists>s r'. randomBase62 read n r = Some (Inr s, r') \<and> length s = n \<and> set s \<subseteq> set alphabet"
proof -
  obtain s r' where s: "random_loop read n [] r = Some (Inr s, r')"
    using random_loop_returns [of read n "[]" r] assms by auto
  then show ?thesis using random_loop_result [OF s] by (simp add: randomBase62_def)
qed

theorem randomBase62_returns_witness:
  "\<exists>s r'. randomBase62 example_read 10 () = Some (Inr s, r') \<and> length s = 10"
  using randomBase62_returns [of example_read 10 "()"] by (auto simp: example_read_def)

end
