(* ===== verification/Lru.thy ===== *)
theory Lru
  imports Fleet_Prelude
begin

text \<open>
  The recency cache of \<open>internal/authn/lru.go\<close>: a map into an intrusive doubly linked list.

  A \<open>*lruNode\<close> is an address (\<open>None\<close> for nil) into the cache's heap of nodes, so that \<open>prev\<close> and
  \<open>next\<close> alias the nodes the map points to, as in the code. Every method holds the mutex for its
  whole body and is one step. The only dereference that can be nil is \<open>evictTail\<close>'s; a panic is
  \<open>None\<close>, and so is an eviction loop that does not end.

  The cache is proved to implement the abstract one: a list of bindings, most recent first, cut to
  the capacity.
\<close>

subsection \<open>The code\<close>

type_synonym addr = nat

record ('k, 'v) lruNode =
  n_key :: 'k
  n_val :: 'v
  n_prev :: "addr option"
  n_next :: "addr option"

record ('k, 'v) lruCache =
  l_cap :: int
  l_m :: "('k, addr) gomap"
  l_head :: "addr option"
  l_tail :: "addr option"
  l_heap :: "addr \<Rightarrow> ('k, 'v) lruNode"
  l_fresh :: addr

definition newLRU :: "(addr \<Rightarrow> ('k, 'v) lruNode) \<Rightarrow> int \<Rightarrow> ('k, 'v) lruCache" where
  "newLRU h capacity =
     \<lparr>l_cap = (if capacity < 1 then 1 else capacity), l_m = [], l_head = None, l_tail = None,
      l_heap = h, l_fresh = 0\<rparr>"

text \<open>An assignment to one field of the node at an address.\<close>

definition node_upd ::
    "addr \<Rightarrow> (('k, 'v) lruNode \<Rightarrow> ('k, 'v) lruNode) \<Rightarrow> ('k, 'v) lruCache \<Rightarrow> ('k, 'v) lruCache" where
  "node_upd a f c = c\<lparr>l_heap := (l_heap c)(a := f (l_heap c a))\<rparr>"

definition pushFront :: "addr \<Rightarrow> ('k, 'v) lruCache \<Rightarrow> ('k, 'v) lruCache" where
  "pushFront n c =
     (let c = node_upd n (n_prev_update (\<lambda>_. None)) c;
          c = node_upd n (n_next_update (\<lambda>_. l_head c)) c;
          c = (case l_head c of None \<Rightarrow> c | Some h \<Rightarrow> node_upd h (n_prev_update (\<lambda>_. Some n)) c);
          c = c\<lparr>l_head := Some n\<rparr>
      in if l_tail c = None then c\<lparr>l_tail := Some n\<rparr> else c)"

definition unlink :: "addr \<Rightarrow> ('k, 'v) lruCache \<Rightarrow> ('k, 'v) lruCache" where
  "unlink n c =
     (let c = (case n_prev (l_heap c n) of
                 Some p \<Rightarrow> node_upd p (n_next_update (\<lambda>_. n_next (l_heap c n))) c
               | None \<Rightarrow> c\<lparr>l_head := n_next (l_heap c n)\<rparr>);
          c = (case n_next (l_heap c n) of
                 Some q \<Rightarrow> node_upd q (n_prev_update (\<lambda>_. n_prev (l_heap c n))) c
               | None \<Rightarrow> c\<lparr>l_tail := n_prev (l_heap c n)\<rparr>)
      in node_upd n (\<lambda>nd. nd\<lparr>n_prev := None, n_next := None\<rparr>) c)"

definition moveToFront :: "addr \<Rightarrow> ('k, 'v) lruCache \<Rightarrow> ('k, 'v) lruCache" where
  "moveToFront n c = (if l_head c = Some n then c else pushFront n (unlink n c))"

definition evictTail :: "('k, 'v) lruCache \<Rightarrow> ('k, 'v) lruCache option" where
  "evictTail c =
     (case l_tail c of
        None \<Rightarrow> None
      | Some n \<Rightarrow>
          let c = unlink n c in Some (c\<lparr>l_m := AList.delete (n_key (l_heap c n)) (l_m c)\<rparr>))"

definition lru_Get :: "'k \<Rightarrow> ('k, 'v) lruCache \<Rightarrow> ('k, 'v) lruCache \<times> 'v option" where
  "lru_Get key c =
     (case map_of (l_m c) key of
        None \<Rightarrow> (c, None)
      | Some n \<Rightarrow> let c = moveToFront n c in (c, Some (n_val (l_heap c n))))"

partial_function (option) evict_loop :: "('k, 'v) lruCache \<Rightarrow> ('k, 'v) lruCache option" where
  "evict_loop c =
     (if int (length (l_m c)) > l_cap c
      then (case evictTail c of None \<Rightarrow> None | Some c' \<Rightarrow> evict_loop c')
      else Some c)"

definition lru_Put :: "'k \<Rightarrow> 'v \<Rightarrow> ('k, 'v) lruCache \<Rightarrow> ('k, 'v) lruCache option" where
  "lru_Put key val c =
     (case map_of (l_m c) key of
        Some n \<Rightarrow> Some (moveToFront n (node_upd n (n_val_update (\<lambda>_. val)) c))
      | None \<Rightarrow>
          let n = l_fresh c;
              c = c\<lparr>l_fresh := Suc n,
                    l_heap := (l_heap c)(n := \<lparr>n_key = key, n_val = val, n_prev = None, n_next = None\<rparr>)\<rparr>;
              c = c\<lparr>l_m := AList.update key n (l_m c)\<rparr>
          in evict_loop (pushFront n c))"

definition lru_Remove :: "'k \<Rightarrow> ('k, 'v) lruCache \<Rightarrow> ('k, 'v) lruCache \<times> bool" where
  "lru_Remove key c =
     (case map_of (l_m c) key of
        None \<Rightarrow> (c, False)
      | Some n \<Rightarrow> let c = unlink n c in (c\<lparr>l_m := AList.delete key (l_m c)\<rparr>, True))"

definition lru_Purge :: "('k, 'v) lruCache \<Rightarrow> ('k, 'v) lruCache" where
  "lru_Purge c = c\<lparr>l_m := [], l_head := None, l_tail := None\<rparr>"

text \<open>
  A value that is itself a pointer is written through without touching the list: the assignment to
  the bucket \<open>b\<close> that \<open>ratelimit.go\<close> obtained under \<open>key\<close>.
\<close>

definition lru_write :: "'k \<Rightarrow> 'v \<Rightarrow> ('k, 'v) lruCache \<Rightarrow> ('k, 'v) lruCache" where
  "lru_write key val c =
     (case map_of (l_m c) key of None \<Rightarrow> c | Some n \<Rightarrow> node_upd n (n_val_update (\<lambda>_. val)) c)"

subsection \<open>The abstract cache\<close>

definition spec_get :: "'k \<Rightarrow> ('k \<times> 'v) list \<Rightarrow> ('k \<times> 'v) list \<times> 'v option" where
  "spec_get k l =
     (case map_of l k of None \<Rightarrow> (l, None) | Some v \<Rightarrow> ((k, v) # AList.delete k l, Some v))"

definition spec_put :: "nat \<Rightarrow> 'k \<Rightarrow> 'v \<Rightarrow> ('k \<times> 'v) list \<Rightarrow> ('k \<times> 'v) list" where
  "spec_put n k v l = take n ((k, v) # AList.delete k l)"

text \<open>What the code may be asked for, and the list of bindings from head to tail.\<close>

definition first :: "addr list \<Rightarrow> addr option \<Rightarrow> addr option" where
  "first xs q = (case xs of [] \<Rightarrow> q | a # _ \<Rightarrow> Some a)"

definition final :: "addr list \<Rightarrow> addr option \<Rightarrow> addr option" where
  "final xs p = (if xs = [] then p else Some (last xs))"

fun chain :: "(addr \<Rightarrow> ('k, 'v) lruNode) \<Rightarrow> addr option \<Rightarrow> addr list \<Rightarrow> addr option \<Rightarrow> bool" where
  "chain h p [] q = True"
| "chain h p (a # xs) q \<longleftrightarrow> n_prev (h a) = p \<and> n_next (h a) = first xs q \<and> chain h (Some a) xs q"

definition lru_list :: "('k, 'v) lruCache \<Rightarrow> addr list \<Rightarrow> bool" where
  "lru_list c xs \<longleftrightarrow>
     distinct xs \<and> chain (l_heap c) None xs None \<and> l_head c = first xs None \<and> l_tail c = final xs None"

definition lru_inv :: "('k, 'v) lruCache \<Rightarrow> addr list \<Rightarrow> bool" where
  "lru_inv c xs \<longleftrightarrow>
     lru_list c xs \<and> wf_map (l_m c) \<and> l_cap c \<ge> 1 \<and> (\<forall>a \<in> set xs. a < l_fresh c)
     \<and> (\<forall>k a. map_of (l_m c) k = Some a \<longleftrightarrow> a \<in> set xs \<and> n_key (l_heap c a) = k)"

definition bindings :: "('k, 'v) lruCache \<Rightarrow> addr list \<Rightarrow> ('k \<times> 'v) list" where
  "bindings c xs = map (\<lambda>a. (n_key (l_heap c a), n_val (l_heap c a))) xs"

definition full_inv :: "('k, 'v) lruCache \<Rightarrow> addr list \<Rightarrow> bool" where
  "full_inv c xs \<longleftrightarrow> lru_inv c xs \<and> int (length xs) \<le> l_cap c"

definition lru_ok :: "('k, 'v) lruCache \<Rightarrow> bool" where
  "lru_ok c \<longleftrightarrow> (\<exists>xs. full_inv c xs)"

definition contents :: "('k, 'v) lruCache \<Rightarrow> 'k \<Rightarrow> 'v option" where
  "contents c k = map_option (\<lambda>n. n_val (l_heap c n)) (map_of (l_m c) k)"

subsection \<open>List segments\<close>

lemma first_simps [simp]: "first [] q = q" "first (a # xs) q = Some a"
  by (simp_all add: first_def)

lemma final_simps [simp]: "final [] p = p" "final (xs @ [a]) p = Some a" "final (a # xs) p = final xs (Some a)"
  by (simp_all add: final_def)

lemma first_append: "first (ys @ zs) q = first ys (first zs q)"
  by (cases ys) simp_all

lemma final_append: "final (ys @ zs) p = final zs (final ys p)"
  by (simp add: final_def)

lemma chain_append: "chain h p (ys @ zs) q \<longleftrightarrow> chain h p ys (first zs q) \<and> chain h (final ys p) zs q"
  by (induction ys arbitrary: p) (auto simp: first_append)

lemma chain_cong:
  "(\<And>a. a \<in> set xs \<Longrightarrow> n_prev (h a) = n_prev (h' a) \<and> n_next (h a) = n_next (h' a)) \<Longrightarrow>
   chain h p xs q = chain h' p xs q"
  by (induction xs arbitrary: p) auto

lemma chain_other [simp]: "a \<notin> set xs \<Longrightarrow> chain (h(a := nd)) p xs q = chain h p xs q"
  by (rule chain_cong) auto

text \<open>Everything but the links is left alone.\<close>

definition same_data :: "('k, 'v) lruCache \<Rightarrow> ('k, 'v) lruCache \<Rightarrow> bool" where
  "same_data c c' \<longleftrightarrow>
     l_cap c' = l_cap c \<and> l_m c' = l_m c \<and> l_fresh c' = l_fresh c
     \<and> (\<forall>a. n_key (l_heap c' a) = n_key (l_heap c a) \<and> n_val (l_heap c' a) = n_val (l_heap c a))"

lemma same_data_pushFront: "same_data c (pushFront a c)"
  by (auto simp: same_data_def pushFront_def node_upd_def Let_def split: option.splits)

lemma same_data_unlink: "same_data c (unlink a c)"
  by (auto simp: same_data_def unlink_def node_upd_def Let_def split: option.splits)

lemma same_data_trans: "same_data a b \<Longrightarrow> same_data b c \<Longrightarrow> same_data a c"
  by (simp add: same_data_def)

lemma same_data_refl [simp]: "same_data c c"
  by (simp add: same_data_def)

lemma pushFront_list:
  assumes "lru_list c xs" and "a \<notin> set xs"
  shows "lru_list (pushFront a c) (a # xs)"
proof (cases xs)
  case Nil
  then show ?thesis using assms
    by (simp add: lru_list_def pushFront_def node_upd_def Let_def)
next
  case (Cons b ys)
  then show ?thesis using assms
    by (auto simp: lru_list_def pushFront_def node_upd_def Let_def final_def)
qed

lemma unlink_list:
  assumes "lru_list c (ys @ a # zs)"
  shows "lru_list (unlink a c) (ys @ zs)"
proof -
  have d: "distinct (ys @ a # zs)" and ch: "chain (l_heap c) None ys (Some a)" "chain (l_heap c) (Some a) zs None"
    and links: "n_prev (l_heap c a) = final ys None" "n_next (l_heap c a) = first zs None"
    and ends: "l_head c = first (ys @ a # zs) None" "l_tail c = final (ys @ a # zs) None"
    using assms by (auto simp: lru_list_def chain_append)
  show ?thesis
  proof (cases ys rule: rev_cases; cases zs)
    assume "ys = []" "zs = []"
    then show ?thesis using links by (simp add: lru_list_def unlink_def node_upd_def Let_def)
  next
    fix b zs' assume "ys = []" "zs = b # zs'"
    then show ?thesis using d ch links ends
      by (simp add: lru_list_def unlink_def node_upd_def Let_def final_def)
  next
    fix b ys' assume "ys = ys' @ [b]" "zs = []"
    then show ?thesis using d ch links ends
      by (simp add: lru_list_def unlink_def node_upd_def Let_def chain_append first_append)
  next
    fix b ys' e zs' assume "ys = ys' @ [b]" "zs = e # zs'"
    then show ?thesis using d ch links ends
      by (auto simp: lru_list_def unlink_def node_upd_def Let_def chain_append first_append final_append)
  qed
qed

lemma moveToFront_list:
  assumes "lru_list c (ys @ a # zs)"
  shows "lru_list (moveToFront a c) (a # ys @ zs)"
proof (cases "l_head c = Some a")
  case True
  then have "ys = []" using assms by (cases ys) (auto simp: lru_list_def)
  then show ?thesis using assms True by (simp add: moveToFront_def)
next
  case False
  have "a \<notin> set (ys @ zs)" using assms by (simp add: lru_list_def)
  then show ?thesis using pushFront_list [OF unlink_list [OF assms]] False by (simp add: moveToFront_def)
qed

lemma same_data_moveToFront: "same_data c (moveToFront a c)"
  by (auto simp: moveToFront_def intro: same_data_trans [OF same_data_unlink same_data_pushFront])

subsection \<open>Every operation refines the abstract one\<close>

lemma delete_append: "AList.delete k (xs @ ys) = AList.delete k xs @ AList.delete k ys"
  by (simp add: AList.delete_eq)

lemma lru_inv_move:
  "lru_inv c xs \<Longrightarrow> same_data c c' \<Longrightarrow> lru_list c' xs' \<Longrightarrow> set xs' = set xs \<Longrightarrow> lru_inv c' xs'"
  by (simp add: lru_inv_def same_data_def)

lemma bindings_same: "same_data c c' \<Longrightarrow> bindings c' xs = bindings c xs"
  by (simp add: bindings_def same_data_def)

lemma bindings_simps [simp]:
  "bindings c [] = []"
  "bindings c (a # xs) = (n_key (l_heap c a), n_val (l_heap c a)) # bindings c xs"
  "bindings c (xs @ ys) = bindings c xs @ bindings c ys"
  "length (bindings c xs) = length xs"
  by (simp_all add: bindings_def)

lemma lru_inv_lookup: "lru_inv c xs \<Longrightarrow> a \<in> set xs \<Longrightarrow> map_of (l_m c) (n_key (l_heap c a)) = Some a"
  by (simp add: lru_inv_def)

lemma lru_inv_keys:
  assumes "lru_inv c xs"
  shows "distinct (map (\<lambda>a. n_key (l_heap c a)) xs)"
proof -
  have "inj_on (\<lambda>a. n_key (l_heap c a)) (set xs)"
    using assms by (intro inj_onI) (metis lru_inv_def option.inject)
  then show ?thesis using assms by (simp add: lru_inv_def lru_list_def distinct_map)
qed

lemma map_of_bindings:
  assumes "lru_inv c xs"
  shows "map_of (bindings c xs) k = contents c k"
proof -
  have wf: "wf_map (bindings c xs)" using lru_inv_keys [OF assms] by (simp add: bindings_def comp_def)
  show ?thesis
  proof (cases "map_of (l_m c) k")
    case None
    then have "k \<notin> fst ` set (bindings c xs)" by (auto simp: bindings_def lru_inv_lookup [OF assms])
    then have "map_of (bindings c xs) k = None" by (simp add: map_of_eq_None_iff)
    then show ?thesis using None by (simp add: contents_def)
  next
    case (Some a)
    then have "(k, n_val (l_heap c a)) \<in> set (bindings c xs)" using assms by (auto simp: lru_inv_def bindings_def)
    then show ?thesis using Some wf by (simp add: contents_def mem_map_of)
  qed
qed

lemma lru_split:
  assumes "lru_inv c xs" and "map_of (l_m c) k = Some a"
  obtains ys zs where "xs = ys @ a # zs" "n_key (l_heap c a) = k"
    "AList.delete k (bindings c xs) = bindings c ys @ bindings c zs"
proof -
  have a: "a \<in> set xs" "n_key (l_heap c a) = k" using assms by (auto simp: lru_inv_def)
  then obtain ys zs where xs: "xs = ys @ a # zs" by (meson split_list)
  have "k \<notin> fst ` set (bindings c ys)" "k \<notin> fst ` set (bindings c zs)"
    using lru_inv_keys [OF assms(1)] a(2) by (auto simp: xs bindings_def)
  then have "AList.delete k (bindings c xs) = bindings c ys @ bindings c zs"
    using a(2) by (simp add: xs delete_append)
  then show ?thesis using that xs a(2) by blast
qed

lemma Get_refines:
  assumes "lru_inv c xs" and "lru_Get k c = (c', r)"
  shows "\<exists>xs'. lru_inv c' xs' \<and> set xs' = set xs \<and> same_data c c' \<and> spec_get k (bindings c xs) = (bindings c' xs', r)"
proof (cases "map_of (l_m c) k")
  case None
  then show ?thesis using assms map_of_bindings [OF assms(1), of k]
    by (auto simp: lru_Get_def spec_get_def contents_def)
next
  case (Some a)
  obtain ys zs where xs: "xs = ys @ a # zs" "n_key (l_heap c a) = k"
    "AList.delete k (bindings c xs) = bindings c ys @ bindings c zs"
    using assms(1) Some by (rule lru_split)
  have c': "c' = moveToFront a c" "r = Some (n_val (l_heap c a))"
    using assms(2) Some same_data_moveToFront [of c a] by (auto simp: lru_Get_def Let_def same_data_def)
  have sd: "same_data c c'" by (simp add: c' same_data_moveToFront)
  have "lru_list c' (a # ys @ zs)"
    using assms(1) moveToFront_list by (auto simp: c' lru_inv_def xs)
  then have "lru_inv c' (a # ys @ zs)" using lru_inv_move [OF assms(1) sd] by (auto simp: xs)
  moreover have "spec_get k (bindings c xs) = (bindings c' (a # ys @ zs), r)"
    using map_of_bindings [OF assms(1), of k] Some xs(2,3) c'(2)
    unfolding bindings_same [OF sd] by (simp add: spec_get_def contents_def)
  ultimately show ?thesis using sd by (intro exI [of _ "a # ys @ zs"]) (auto simp: xs)
qed

lemma lru_inv_list: "lru_inv c xs \<Longrightarrow> lru_list c xs"
  by (simp add: lru_inv_def)

lemma lru_inv_length:
  assumes "lru_inv c xs"
  shows "length (l_m c) = length xs"
proof -
  have "set (map fst (l_m c)) = (\<lambda>a. n_key (l_heap c a)) ` set xs"
  proof (rule set_eqI)
    fix k
    have "k \<in> set (map fst (l_m c)) \<longleftrightarrow> (\<exists>a. map_of (l_m c) k = Some a)"
      by (metis map_of_eq_None_iff not_None_eq set_map)
    then show "k \<in> set (map fst (l_m c)) \<longleftrightarrow> k \<in> (\<lambda>a. n_key (l_heap c a)) ` set xs"
      using assms by (auto simp: lru_inv_def)
  qed
  moreover have "length (map fst (l_m c)) = card (set (map fst (l_m c)))"
    using assms by (simp only: lru_inv_def distinct_card)
  moreover have "length (map (\<lambda>a. n_key (l_heap c a)) xs) = card (set (map (\<lambda>a. n_key (l_heap c a)) xs))"
    using lru_inv_keys [OF assms] by (simp only: distinct_card)
  ultimately show ?thesis by simp
qed

lemma unlink_delete:
  assumes "lru_inv c (ys @ a # zs)" and "n_key (l_heap c a) = k"
    and "c' = (unlink a c)\<lparr>l_m := AList.delete k (l_m (unlink a c))\<rparr>"
  shows "lru_inv c' (ys @ zs)" and "bindings c' (ys @ zs) = bindings c ys @ bindings c zs" and "l_cap c' = l_cap c"
proof -
  have sd: "same_data c (unlink a c)" by (rule same_data_unlink)
  have notin: "a \<notin> set (ys @ zs)" using assms(1) by (simp add: lru_inv_def lru_list_def)
  have other: "n_key (l_heap c b) \<noteq> k" if "b \<in> set (ys @ zs)" for b
  proof
    assume "n_key (l_heap c b) = k"
    then have "map_of (l_m c) k = Some b" using lru_inv_lookup [OF assms(1), of b] that by auto
    moreover have "map_of (l_m c) k = Some a" using lru_inv_lookup [OF assms(1), of a] assms(2) by simp
    ultimately show False using notin that by simp
  qed
  have l: "lru_list c' (ys @ zs)"
    using unlink_list [OF lru_inv_list [OF assms(1)]] by (simp add: assms(3) lru_list_def)
  show "lru_inv c' (ys @ zs)"
    using l assms(1,2) sd other by (auto simp: assms(3) lru_inv_def same_data_def)
  show "bindings c' (ys @ zs) = bindings c ys @ bindings c zs" "l_cap c' = l_cap c"
    using sd by (simp_all add: assms(3) same_data_def bindings_def)
qed

lemma Remove_refines:
  assumes "lru_inv c xs" and "lru_Remove k c = (c', r)"
  shows "\<exists>xs'. lru_inv c' xs' \<and> set xs' \<subseteq> set xs \<and> length xs' \<le> length xs \<and> l_cap c' = l_cap c
    \<and> bindings c' xs' = AList.delete k (bindings c xs) \<and> (r \<longleftrightarrow> contents c k \<noteq> None)"
proof (cases "map_of (l_m c) k")
  case None
  then have "k \<notin> fst ` set (bindings c xs)"
    using map_of_bindings [OF assms(1), of k] by (simp add: contents_def map_of_eq_None_iff [symmetric])
  then show ?thesis using None assms by (auto simp: lru_Remove_def contents_def)
next
  case (Some a)
  obtain ys zs where xs: "xs = ys @ a # zs" "n_key (l_heap c a) = k"
    "AList.delete k (bindings c xs) = bindings c ys @ bindings c zs"
    using assms(1) Some by (rule lru_split)
  have c': "c' = (unlink a c)\<lparr>l_m := AList.delete k (l_m (unlink a c))\<rparr>" "r"
    using assms(2) Some by (auto simp: lru_Remove_def Let_def)
  note un = unlink_delete [OF assms(1) [unfolded xs(1)] xs(2) c'(1)]
  show ?thesis
    using un xs c'(2) Some by (intro exI [of _ "ys @ zs"]) (auto simp: contents_def)
qed

lemma evictTail_refines:
  assumes "lru_inv c (ys @ [a])"
  shows "\<exists>c'. evictTail c = Some c' \<and> lru_inv c' ys \<and> bindings c' ys = bindings c ys \<and> l_cap c' = l_cap c"
proof -
  have tail: "l_tail c = Some a" using assms by (simp add: lru_inv_def lru_list_def)
  have key: "n_key (l_heap (unlink a c) a) = n_key (l_heap c a)"
    using same_data_unlink [of c a] by (simp add: same_data_def)
  show ?thesis using unlink_delete [OF assms refl refl] tail key by (simp add: evictTail_def Let_def)
qed

lemma evict_loop_refines:
  "lru_inv c xs \<Longrightarrow> \<exists>c'. evict_loop c = Some c' \<and> full_inv c' (take (nat (l_cap c)) xs)
     \<and> bindings c' (take (nat (l_cap c)) xs) = take (nat (l_cap c)) (bindings c xs) \<and> l_cap c' = l_cap c"
proof (induction "length xs" arbitrary: c xs)
  case 0
  then show ?case
    using lru_inv_length [OF 0(2)] by (auto simp: evict_loop.simps [of c] full_inv_def lru_inv_def)
next
  case (Suc n)
  then obtain ys a where xs: "xs = ys @ [a]" by (metis length_Suc_conv_rev)
  show ?case
  proof (cases "int (length (l_m c)) > l_cap c")
    case True
    have cap: "l_cap c \<ge> 1" using Suc.prems by (simp add: lru_inv_def)
    obtain c1 where c1: "evictTail c = Some c1" "lru_inv c1 ys" "bindings c1 ys = bindings c ys" "l_cap c1 = l_cap c"
      using evictTail_refines Suc.prems xs by blast
    have "nat (l_cap c) \<le> length ys" using True lru_inv_length [OF Suc.prems] cap by (simp add: xs)
    then show ?thesis using Suc.hyps(1) [of ys c1] Suc.hyps(2) c1 True xs
      by (simp add: evict_loop.simps [of c])
  next
    case False
    then show ?thesis using lru_inv_length [OF Suc.prems] Suc.prems
      by (auto simp: evict_loop.simps [of c] full_inv_def)
  qed
qed

lemma node_val_inv:
  assumes "lru_inv c xs" and "c' = node_upd a (n_val_update (\<lambda>_. v)) c"
  shows "lru_inv c' xs" and "l_cap c' = l_cap c" and "l_m c' = l_m c"
    and "n_key (l_heap c' b) = n_key (l_heap c b)" and "n_val (l_heap c' b) = (if b = a then v else n_val (l_heap c b))"
proof -
  have "chain (l_heap c') p ys q = chain (l_heap c) p ys q" for p ys q
    by (rule chain_cong) (simp add: assms(2) node_upd_def)
  then show "lru_inv c' xs" using assms by (auto simp: lru_inv_def lru_list_def node_upd_def)
qed (simp_all add: assms(2) node_upd_def)

lemma Put_refines:
  assumes "full_inv c xs"
  shows "\<exists>c' xs'. lru_Put k v c = Some c' \<and> full_inv c' xs' \<and> l_cap c' = l_cap c
    \<and> bindings c' xs' = spec_put (nat (l_cap c)) k v (bindings c xs)"
proof (cases "map_of (l_m c) k")
  case (Some a)
  have inv: "lru_inv c xs" and len: "int (length xs) \<le> l_cap c" using assms by (auto simp: full_inv_def)
  obtain ys zs where xs: "xs = ys @ a # zs" "n_key (l_heap c a) = k"
    "AList.delete k (bindings c xs) = bindings c ys @ bindings c zs"
    using inv Some by (rule lru_split)
  define c1 where "c1 = node_upd a (n_val_update (\<lambda>_. v)) c"
  define c2 where "c2 = moveToFront a c1"
  note c1 = node_val_inv [OF inv c1_def]
  have sd: "same_data c1 c2" by (simp add: c2_def same_data_moveToFront)
  have "lru_list c2 (a # ys @ zs)" using moveToFront_list lru_inv_list [OF c1(1)] by (simp add: c2_def xs)
  then have inv2: "lru_inv c2 (a # ys @ zs)" using lru_inv_move [OF c1(1) sd] by (simp add: xs)
  have "a \<notin> set ys" "a \<notin> set zs" using lru_inv_list [OF inv] by (auto simp: lru_list_def xs)
  then have same: "bindings c1 ys = bindings c ys" "bindings c1 zs = bindings c zs"
    using c1(4,5) by (auto simp: bindings_def)
  have "bindings c2 (a # ys @ zs) = (k, v) # AList.delete k (bindings c xs)"
    unfolding bindings_same [OF sd] xs(3) by (simp add: c1(4,5) xs(2) same)
  moreover have "length (AList.delete k (bindings c xs)) = length ys + length zs" by (simp add: xs(3))
  moreover have "l_cap c2 = l_cap c" using sd c1(2) by (simp add: same_data_def)
  ultimately show ?thesis using inv2 len Some
    by (intro exI [of _ c2] exI [of _ "a # ys @ zs"])
      (auto simp: lru_Put_def c1_def c2_def full_inv_def spec_put_def xs)
next
  case None
  have inv: "lru_inv c xs" using assms by (simp add: full_inv_def)
  define n where "n = l_fresh c"
  define c1 where "c1 = c\<lparr>l_fresh := Suc n, l_heap := (l_heap c)(n := \<lparr>n_key = k, n_val = v, n_prev = None, n_next = None\<rparr>),
    l_m := AList.update k n (l_m c)\<rparr>"
  define c2 where "c2 = pushFront n c1"
  have n: "n \<notin> set xs" using inv by (auto simp: lru_inv_def n_def)
  have l1: "lru_list c1 xs" using lru_inv_list [OF inv] n by (simp add: lru_list_def c1_def)
  have sd: "same_data c1 c2" by (simp add: c2_def same_data_pushFront)
  have l2: "lru_list c2 (n # xs)" unfolding c2_def by (rule pushFront_list [OF l1 n])
  have other: "n_key (l_heap c a) \<noteq> k" if "a \<in> set xs" for a using lru_inv_lookup [OF inv that] None by auto
  have "lru_inv c2 (n # xs)"
    using inv l2 sd n other None by (auto simp: lru_inv_def same_data_def c1_def n_def less_Suc_eq)
  from evict_loop_refines [OF this] obtain c3 where c3: "evict_loop c2 = Some c3"
    "full_inv c3 (take (nat (l_cap c2)) (n # xs))" "l_cap c3 = l_cap c2"
    "bindings c3 (take (nat (l_cap c2)) (n # xs)) = take (nat (l_cap c2)) (bindings c2 (n # xs))" by blast
  have "bindings c1 xs = bindings c xs" using n by (auto simp: bindings_def c1_def)
  moreover have "AList.delete k (bindings c xs) = bindings c xs" using other by (intro delete_id) (fastforce simp: bindings_def)
  ultimately have "bindings c2 (n # xs) = (k, v) # AList.delete k (bindings c xs)"
    unfolding bindings_same [OF sd] by (simp add: c1_def)
  moreover have "l_cap c2 = l_cap c" using sd by (simp add: same_data_def c1_def)
  ultimately show ?thesis using c3 None
    by (auto simp: lru_Put_def spec_put_def c1_def c2_def n_def Let_def)
qed

lemma Purge_refines: "full_inv c xs \<Longrightarrow> full_inv (lru_Purge c) []"
  by (auto simp: full_inv_def lru_inv_def lru_list_def lru_Purge_def)

lemma newLRU_ok: "full_inv (newLRU h n) []"
  by (auto simp: full_inv_def lru_inv_def lru_list_def newLRU_def)

subsection \<open>What a client relies on\<close>

text \<open>
  The verifier and the failure limiter use a cache only through these laws: a lookup returns what is
  stored and changes nothing, an insertion stores its binding and may drop others, a removal drops
  one and a purge all.
\<close>

locale bounded_cache =
  fixes get :: "'k \<Rightarrow> 'c \<Rightarrow> 'c \<times> 'v option"
    and put :: "'k \<Rightarrow> 'v \<Rightarrow> 'c \<Rightarrow> 'c option"
    and remove :: "'k \<Rightarrow> 'c \<Rightarrow> 'c \<times> bool"
    and purge :: "'c \<Rightarrow> 'c"
    and ok :: "'c \<Rightarrow> bool"
    and lookup :: "'c \<Rightarrow> 'k \<Rightarrow> 'v option"
  assumes get_laws: "ok c \<Longrightarrow> ok (fst (get k c)) \<and> lookup (fst (get k c)) = lookup c \<and> snd (get k c) = lookup c k"
    and put_laws: "ok c \<Longrightarrow> \<exists>c'. put k v c = Some c' \<and> ok c' \<and> lookup c' k = Some v
      \<and> (\<forall>k'. k' \<noteq> k \<longrightarrow> lookup c' k' = None \<or> lookup c' k' = lookup c k')"
    and remove_laws: "ok c \<Longrightarrow> ok (fst (remove k c)) \<and> lookup (fst (remove k c)) = (lookup c)(k := None)"
    and purge_laws: "ok c \<Longrightarrow> ok (purge c) \<and> lookup (purge c) = Map.empty"
begin

text \<open>A property of all stored bindings survives every operation that stores only such bindings.\<close>

lemma put_total: "ok c \<Longrightarrow> put k v c = Some (the (put k v c)) \<and> ok (the (put k v c))"
  using put_laws [of c k v] by auto

lemma put_all:
  assumes "ok c" and "\<And>k v. lookup c k = Some v \<Longrightarrow> P k v" and "P k v"
    and "lookup (the (put k v c)) k' = Some v'"
  shows "P k' v'"
proof -
  obtain c' where c': "put k v c = Some c'" "lookup c' k = Some v"
    "\<forall>k'. k' \<noteq> k \<longrightarrow> lookup c' k' = None \<or> lookup c' k' = lookup c k'"
    using put_laws [OF assms(1), of k v] by blast
  show ?thesis using assms(2-4) c' by (cases "k' = k") auto
qed

lemma get_all: "ok c \<Longrightarrow> lookup (fst (get k c)) k' = Some v' \<Longrightarrow> lookup c k' = Some v'"
  using get_laws by simp

lemma remove_all: "ok c \<Longrightarrow> lookup (fst (remove k c)) k' = Some v' \<Longrightarrow> lookup c k' = Some v'"
  using remove_laws by (simp split: if_splits)

end

lemma contents_bindings: "lru_inv c xs \<Longrightarrow> contents c = map_of (bindings c xs)"
  by (rule ext) (simp add: map_of_bindings)

lemma map_of_take: "wf_map l \<Longrightarrow> map_of (take n l) k = None \<or> map_of (take n l) k = map_of l k"
proof -
  assume "wf_map l"
  then have "wf_map (take n l)" by (simp add: take_map [symmetric])
  then show ?thesis using \<open>wf_map l\<close>
    by (metis in_set_takeD mem_map_of not_None_eq)
qed

interpretation lru: bounded_cache lru_Get lru_Put lru_Remove lru_Purge lru_ok contents
proof
  fix c :: "('k, 'v) lruCache" and k v
  assume "lru_ok c"
  then obtain xs where full: "full_inv c xs" by (auto simp: lru_ok_def)
  then have inv: "lru_inv c xs" and len: "int (length xs) \<le> l_cap c" by (simp_all add: full_inv_def)
  have wf: "wf_map (bindings c xs)" using lru_inv_keys [OF inv] by (simp add: bindings_def comp_def)
  show "lru_ok (fst (lru_Get k c)) \<and> contents (fst (lru_Get k c)) = contents c \<and> snd (lru_Get k c) = contents c k"
  proof -
    obtain xs' where xs': "lru_inv (fst (lru_Get k c)) xs'" "set xs' = set xs" "same_data c (fst (lru_Get k c))"
      "spec_get k (bindings c xs) = (bindings (fst (lru_Get k c)) xs', snd (lru_Get k c))"
      using Get_refines [OF inv, of k] by (metis prod.collapse)
    have "length xs' = length xs"
      using xs'(1,2) inv by (metis lru_inv_list lru_list_def distinct_card)
    then have "lru_ok (fst (lru_Get k c))" using xs'(1,3) len by (auto simp: lru_ok_def full_inv_def same_data_def)
    then show ?thesis using xs'(3,4) map_of_bindings [OF inv, of k]
      by (auto simp: contents_def same_data_def spec_get_def fun_eq_iff split: option.splits)
  qed
  show "\<exists>c'. lru_Put k v c = Some c' \<and> lru_ok c' \<and> contents c' k = Some v
      \<and> (\<forall>k'. k' \<noteq> k \<longrightarrow> contents c' k' = None \<or> contents c' k' = contents c k')"
  proof -
    obtain c' xs' where c': "lru_Put k v c = Some c'" "full_inv c' xs'"
      "bindings c' xs' = spec_put (nat (l_cap c)) k v (bindings c xs)"
      using Put_refines [OF full] by blast
    have "nat (l_cap c) = Suc (nat (l_cap c) - 1)" using inv by (simp add: lru_inv_def)
    moreover have "contents c' = map_of (bindings c' xs')" using c'(2) contents_bindings by (auto simp: full_inv_def)
    ultimately have "contents c' k' = (if k' = k then Some v
        else map_of (take (nat (l_cap c) - 1) (AList.delete k (bindings c xs))) k')" for k'
      unfolding c'(3) spec_put_def by (metis map_of_Cons_code(2) take_Suc_Cons)
    moreover have "contents c = map_of (bindings c xs)" by (rule contents_bindings [OF inv])
    moreover have "map_of (take n (AList.delete k (bindings c xs))) k' = None
        \<or> map_of (take n (AList.delete k (bindings c xs))) k' = map_of (bindings c xs) k'" if "k' \<noteq> k" for k' n
      using map_of_take [OF wf_delete [OF wf], of n k k'] that by simp
    ultimately have "contents c' k = Some v" "\<forall>k'. k' \<noteq> k \<longrightarrow> contents c' k' = None \<or> contents c' k' = contents c k'"
      by auto
    then show ?thesis using c'(1,2) by (auto simp: lru_ok_def)
  qed
  show "lru_ok (fst (lru_Remove k c)) \<and> contents (fst (lru_Remove k c)) = (contents c)(k := None)"
  proof -
    obtain xs' where xs': "lru_inv (fst (lru_Remove k c)) xs'" "length xs' \<le> length xs"
      "l_cap (fst (lru_Remove k c)) = l_cap c" "bindings (fst (lru_Remove k c)) xs' = AList.delete k (bindings c xs)"
      using Remove_refines [OF inv, of k] by (metis prod.collapse)
    then show ?thesis using len contents_bindings [OF inv]
      by (auto simp: lru_ok_def full_inv_def contents_bindings [OF xs'(1)] delete_conv')
  qed
  show "lru_ok (lru_Purge c) \<and> contents (lru_Purge c) = Map.empty"
    using Purge_refines [OF full] by (auto simp: lru_ok_def contents_def lru_Purge_def)
qed

lemma lru_write_laws:
  assumes "lru_ok c"
  shows "lru_ok (lru_write k v c)"
    and "contents (lru_write k v c) = (if contents c k = None then contents c else (contents c)(k \<mapsto> v))"
proof -
  obtain xs where xs: "lru_inv c xs" "int (length xs) \<le> l_cap c" using assms by (auto simp: lru_ok_def full_inv_def)
  show "lru_ok (lru_write k v c)"
    using xs node_val_inv [OF xs(1) refl] by (auto simp: lru_write_def lru_ok_def full_inv_def split: option.splits)
  show "contents (lru_write k v c) = (if contents c k = None then contents c else (contents c)(k \<mapsto> v))"
  proof (cases "map_of (l_m c) k")
    case (Some a)
    have same: "b = a \<longleftrightarrow> k' = k" if "map_of (l_m c) k' = Some b" for k' b
      using that Some xs(1) by (metis lru_inv_def option.inject)
    have "contents (lru_write k v c) k' = (if k' = k then Some v else contents c k')" for k'
      using Some same by (cases "map_of (l_m c) k'") (auto simp: lru_write_def contents_def node_upd_def)
    then show ?thesis using Some by (auto simp: contents_def fun_eq_iff)
  qed (simp add: lru_write_def contents_def)
qed

subsection \<open>Histories\<close>

datatype ('k, 'v) lru_op = LGet 'k | LPut 'k 'v | LRemove 'k | LPurge

fun lru_apply :: "('k, 'v) lru_op \<Rightarrow> ('k, 'v) lruCache \<Rightarrow> (('k, 'v) lruCache \<times> 'v option) option" where
  "lru_apply (LGet k) c = Some (lru_Get k c)"
| "lru_apply (LPut k v) c = map_option (\<lambda>c'. (c', None)) (lru_Put k v c)"
| "lru_apply (LRemove k) c = Some (fst (lru_Remove k c), None)"
| "lru_apply LPurge c = Some (lru_Purge c, None)"

fun spec_apply :: "nat \<Rightarrow> ('k, 'v) lru_op \<Rightarrow> ('k \<times> 'v) list \<Rightarrow> ('k \<times> 'v) list \<times> 'v option" where
  "spec_apply n (LGet k) l = spec_get k l"
| "spec_apply n (LPut k v) l = (spec_put n k v l, None)"
| "spec_apply n (LRemove k) l = (AList.delete k l, None)"
| "spec_apply n LPurge l = ([], None)"

fun lru_run :: "('k, 'v) lru_op list \<Rightarrow> ('k, 'v) lruCache \<Rightarrow> (('k, 'v) lruCache \<times> 'v option list) option" where
  "lru_run [] c = Some (c, [])"
| "lru_run (x # xs) c =
     (case lru_apply x c of
        None \<Rightarrow> None
      | Some (c', r) \<Rightarrow> map_option (\<lambda>(c'', rs). (c'', r # rs)) (lru_run xs c'))"

fun spec_run :: "nat \<Rightarrow> ('k, 'v) lru_op list \<Rightarrow> ('k \<times> 'v) list \<Rightarrow> ('k \<times> 'v) list \<times> 'v option list" where
  "spec_run n [] l = (l, [])"
| "spec_run n (x # xs) l =
     (let (l', r) = spec_apply n x l; (l'', rs) = spec_run n xs l' in (l'', r # rs))"

lemma lru_apply_refines:
  assumes "full_inv c xs"
  shows "\<exists>c' xs'. lru_apply x c = Some (c', snd (spec_apply (nat (l_cap c)) x (bindings c xs))) \<and> full_inv c' xs'
    \<and> l_cap c' = l_cap c \<and> bindings c' xs' = fst (spec_apply (nat (l_cap c)) x (bindings c xs))"
proof -
  have inv: "lru_inv c xs" and len: "int (length xs) \<le> l_cap c" using assms by (simp_all add: full_inv_def)
  show ?thesis
  proof (cases x)
    case (LGet k)
    obtain xs' where xs': "lru_inv (fst (lru_Get k c)) xs'" "set xs' = set xs" "same_data c (fst (lru_Get k c))"
      "spec_get k (bindings c xs) = (bindings (fst (lru_Get k c)) xs', snd (lru_Get k c))"
      using Get_refines [OF inv, of k] by (metis prod.collapse)
    have "length xs' = length xs"
      using xs'(1,2) inv by (metis lru_inv_list lru_list_def distinct_card)
    then show ?thesis using xs' len LGet
      by (intro exI [of _ "fst (lru_Get k c)"] exI [of _ xs']) (simp add: full_inv_def same_data_def)
  next
    case (LPut k v)
    then show ?thesis using Put_refines [OF assms, of k v] by force
  next
    case (LRemove k)
    obtain xs' where "lru_inv (fst (lru_Remove k c)) xs'" "length xs' \<le> length xs"
      "l_cap (fst (lru_Remove k c)) = l_cap c" "bindings (fst (lru_Remove k c)) xs' = AList.delete k (bindings c xs)"
      using Remove_refines [OF inv, of k] by (metis prod.collapse)
    then show ?thesis using LRemove len by (intro exI [of _ "fst (lru_Remove k c)"] exI [of _ xs']) (simp add: full_inv_def)
  next
    case LPurge
    then show ?thesis using Purge_refines [OF assms] by (intro exI [of _ "lru_Purge c"] exI [of _ "[]"]) (simp add: lru_Purge_def)
  qed
qed

lemma lru_run_refines:
  "full_inv c xs \<Longrightarrow> \<exists>c' xs'. lru_run ops c = Some (c', snd (spec_run (nat (l_cap c)) ops (bindings c xs))) \<and> full_inv c' xs'
    \<and> l_cap c' = l_cap c \<and> bindings c' xs' = fst (spec_run (nat (l_cap c)) ops (bindings c xs))"
proof (induction ops arbitrary: c xs)
  case (Cons x ops)
  obtain c1 xs1 where s1: "lru_apply x c = Some (c1, snd (spec_apply (nat (l_cap c)) x (bindings c xs)))"
    "full_inv c1 xs1" "l_cap c1 = l_cap c" "bindings c1 xs1 = fst (spec_apply (nat (l_cap c)) x (bindings c xs))"
    using lru_apply_refines [OF Cons.prems] by blast
  obtain c2 xs2 where "lru_run ops c1 = Some (c2, snd (spec_run (nat (l_cap c1)) ops (bindings c1 xs1)))"
    "full_inv c2 xs2" "l_cap c2 = l_cap c1" "bindings c2 xs2 = fst (spec_run (nat (l_cap c1)) ops (bindings c1 xs1))"
    using Cons.IH [OF s1(2)] by blast
  with s1 show ?case by (intro exI [of _ c2] exI [of _ xs2]) (simp add: Let_def split_def)
qed auto

text \<open>
  C35. The linked cache is the abstract one. From a fresh cache, any sequence of lookups, insertions,
  removals and purges runs without a nil dereference and with every eviction loop ending; each
  lookup returns what the abstract most-recent-first list returns; and at the end the list from
  head to tail is exactly the abstract one, never longer than the capacity.
\<close>
theorem lru_implements_recency_list:
  "\<exists>c' xs. lru_run ops (newLRU h n) = Some (c', snd (spec_run (nat (max 1 n)) ops []))
     \<and> lru_inv c' xs \<and> bindings c' xs = fst (spec_run (nat (max 1 n)) ops []) \<and> int (length xs) \<le> max 1 n"
proof -
  have "l_cap (newLRU h n) = max 1 n" by (auto simp: newLRU_def)
  then show ?thesis
    using lru_run_refines [OF newLRU_ok [of h n], of ops] by (auto simp: full_inv_def)
qed


lemma newLRU_laws: "lru_ok (newLRU h n)" "contents (newLRU h n) k = None"
  using newLRU_ok [of h n] by (auto simp only: lru_ok_def) (simp add: contents_def newLRU_def)

end
