(* ===== verification/Limiter.thy ===== *)
theory Limiter
  imports Lru
begin

text \<open>
  The failure limiter of \<open>internal/authn/ratelimit.go\<close>: a token bucket over failed authentications
  per source, held in the bounded cache.

  \<open>float64\<close> tokens are \<open>real\<close>. A bucket is reached through a pointer the cache stores, so what a
  method assigns to it is written back under its key. Each method holds the limiter's mutex for its
  whole body and is one step; a panic of the cache is \<open>None\<close>.
\<close>

subsection \<open>The code\<close>

definition failureBurst :: real where "failureBurst = 10"
definition failureWindow :: duration where "failureWindow = Minute"
definition firstPenalty :: duration where "firstPenalty = Second"
definition maxPenalty :: duration where "maxPenalty = 5 * Minute"
definition limiterEntries :: int where "limiterEntries = 8192"

lemmas limiter_consts = failureBurst_def failureWindow_def firstPenalty_def maxPenalty_def
  Minute_def Second_def

record failureBucket =
  fb_tokens :: real
  fb_last :: gotime
  fb_penalty :: duration
  fb_penaltyUntil :: gotime

type_synonym failureLimiter = "(string, failureBucket) lruCache"

definition newFailureLimiter :: "(addr \<Rightarrow> (string, failureBucket) lruNode) \<Rightarrow> failureLimiter" where
  "newFailureLimiter h = newLRU h limiterEntries"

definition refill :: "failureBucket \<Rightarrow> gotime \<Rightarrow> failureBucket" where
  "refill b now =
     (let elapsed = time_Sub now (fb_last b)
      in if elapsed \<le> 0 then b
         else b\<lparr>fb_last := now,
                fb_tokens := min (fb_tokens b + of_int elapsed / of_int failureWindow * failureBurst) failureBurst\<rparr>)"

definition limiter_Allow :: "string \<Rightarrow> gotime \<Rightarrow> failureLimiter \<Rightarrow> failureLimiter \<times> bool" where
  "limiter_Allow src now l =
     (if src = '''' then (l, True)
      else
        (case lru_Get src l of
           (l, None) \<Rightarrow> (l, True)
         | (l, Some b) \<Rightarrow>
             let b = refill b now in (lru_write src b l, \<not> now < fb_penaltyUntil b)))"

text \<open>The body of \<open>Fail\<close> after the bucket has been found or made.\<close>

definition debit :: "failureBucket \<Rightarrow> gotime \<Rightarrow> failureBucket" where
  "debit b now =
     (let b = refill b now
      in if fb_tokens b \<ge> 1 then b\<lparr>fb_tokens := fb_tokens b - 1\<rparr>
         else
           (let b = (if fb_penalty b = 0 then b\<lparr>fb_penalty := firstPenalty\<rparr>
                     else if now > fb_penaltyUntil b then b\<lparr>fb_penalty := min (fb_penalty b * 2) maxPenalty\<rparr>
                     else b);
                until = now + fb_penalty b
            in if until > fb_penaltyUntil b then b\<lparr>fb_penaltyUntil := until\<rparr> else b))"

definition limiter_Fail :: "string \<Rightarrow> gotime \<Rightarrow> failureLimiter \<Rightarrow> failureLimiter option" where
  "limiter_Fail src now l =
     (if src = '''' then Some l
      else
        (case lru_Get src l of
           (l, Some b) \<Rightarrow> Some (lru_write src (debit b now) l)
         | (l, None) \<Rightarrow>
             let b = \<lparr>fb_tokens = failureBurst, fb_last = now, fb_penalty = 0, fb_penaltyUntil = 0\<rparr>
             in (case lru_Put src b l of
                   None \<Rightarrow> None
                 | Some l \<Rightarrow> Some (lru_write src (debit b now) l))))"

definition limiter_Succeed :: "string \<Rightarrow> gotime \<Rightarrow> failureLimiter \<Rightarrow> failureLimiter" where
  "limiter_Succeed src now l =
     (if src = '''' then l
      else
        (case lru_Get src l of
           (l, None) \<Rightarrow> l
         | (l, Some b) \<Rightarrow>
             lru_write src
               (b\<lparr>fb_tokens := failureBurst, fb_last := now, fb_penalty := 0, fb_penaltyUntil := 0\<rparr>) l))"

subsection \<open>Histories\<close>

datatype limiter_op = LAllow string gotime | LFail string gotime | LSucceed string gotime

fun limiter_apply :: "limiter_op \<Rightarrow> failureLimiter \<Rightarrow> failureLimiter option" where
  "limiter_apply (LAllow src now) l = Some (fst (limiter_Allow src now l))"
| "limiter_apply (LFail src now) l = limiter_Fail src now l"
| "limiter_apply (LSucceed src now) l = Some (limiter_Succeed src now l)"

fun limiter_run :: "limiter_op list \<Rightarrow> failureLimiter \<Rightarrow> failureLimiter option" where
  "limiter_run [] l = Some l"
| "limiter_run (x # xs) l = (case limiter_apply x l of None \<Rightarrow> None | Some l' \<Rightarrow> limiter_run xs l')"

fun op_time :: "limiter_op \<Rightarrow> gotime" where
  "op_time (LAllow _ t) = t"
| "op_time (LFail _ t) = t"
| "op_time (LSucceed _ t) = t"

fun fails_of :: "string \<Rightarrow> limiter_op list \<Rightarrow> nat" where
  "fails_of src [] = 0"
| "fails_of src (LFail s _ # xs) = (if s = src then 1 else 0) + fails_of src xs"
| "fails_of src (_ # xs) = fails_of src xs"

subsection \<open>One step on the bindings\<close>

text \<open>
  What one operation does to the bucket of one source, seen through the cache's laws: it is kept, or
  refilled, debited or cleared, or (by an insertion elsewhere) evicted.
\<close>

definition fresh_bucket :: "gotime \<Rightarrow> failureBucket" where
  "fresh_bucket now = \<lparr>fb_tokens = failureBurst, fb_last = now, fb_penalty = 0, fb_penaltyUntil = 0\<rparr>"

definition cleared :: "failureBucket \<Rightarrow> gotime \<Rightarrow> failureBucket" where
  "cleared b now = b\<lparr>fb_tokens := failureBurst, fb_last := now, fb_penalty := 0, fb_penaltyUntil := 0\<rparr>"

lemma Allow_step:
  assumes "lru_ok l"
  shows "lru_ok (fst (limiter_Allow src now l))"
    and "contents (fst (limiter_Allow src now l)) s =
      (if s = src \<and> src \<noteq> '''' then map_option (\<lambda>b. refill b now) (contents l s) else contents l s)"
    and "snd (limiter_Allow src now l) \<longleftrightarrow>
      src = '''' \<or> (\<forall>b. contents l src = Some b \<longrightarrow> fb_penaltyUntil (refill b now) \<le> now)"
proof -
  note get = lru.get_laws [OF assms, of src]
  obtain l' r where l': "lru_Get src l = (l', r)" by (cases "lru_Get src l")
  with get have "lru_ok l'" "contents l' = contents l" "r = contents l src" by auto
  then show "lru_ok (fst (limiter_Allow src now l))"
    "contents (fst (limiter_Allow src now l)) s =
      (if s = src \<and> src \<noteq> '''' then map_option (\<lambda>b. refill b now) (contents l s) else contents l s)"
    "snd (limiter_Allow src now l) \<longleftrightarrow>
      src = '''' \<or> (\<forall>b. contents l src = Some b \<longrightarrow> fb_penaltyUntil (refill b now) \<le> now)"
    using assms
    by (auto simp: limiter_Allow_def l' Let_def lru_write_laws not_less split: option.splits)
qed

lemma Succeed_step:
  assumes "lru_ok l"
  shows "lru_ok (limiter_Succeed src now l)"
    and "contents (limiter_Succeed src now l) s =
      (if s = src \<and> src \<noteq> '''' then map_option (\<lambda>b. cleared b now) (contents l s) else contents l s)"
proof -
  note get = lru.get_laws [OF assms, of src]
  obtain l' r where l': "lru_Get src l = (l', r)" by (cases "lru_Get src l")
  with get have "lru_ok l'" "contents l' = contents l" "r = contents l src" by auto
  then show "lru_ok (limiter_Succeed src now l)"
    "contents (limiter_Succeed src now l) s =
      (if s = src \<and> src \<noteq> '''' then map_option (\<lambda>b. cleared b now) (contents l s) else contents l s)"
    using assms
    by (auto simp: limiter_Succeed_def l' cleared_def lru_write_laws split: option.splits)
qed

lemma Fail_step:
  assumes "lru_ok l"
  obtains l' where "limiter_Fail src now l = Some l'" "lru_ok l'"
    "src = '''' \<Longrightarrow> l' = l"
    "src \<noteq> '''' \<Longrightarrow> contents l' src = Some (debit (case contents l src of None \<Rightarrow> fresh_bucket now | Some b \<Rightarrow> b) now)"
    "\<And>s. s \<noteq> src \<Longrightarrow> contents l' s = None \<or> contents l' s = contents l s"
proof (cases "src = ''''")
  case True
  then show ?thesis using that assms by (auto simp: limiter_Fail_def)
next
  case False
  obtain l1 r where l1: "lru_Get src l = (l1, r)" by (cases "lru_Get src l")
  with lru.get_laws [OF assms, of src] have ok1: "lru_ok l1" "contents l1 = contents l" "r = contents l src" by auto
  show ?thesis
  proof (cases "contents l src")
    case (Some b)
    then show ?thesis using that [of "lru_write src (debit b now) l1"] False ok1 lru_write_laws [OF ok1(1)] l1
      by (simp add: limiter_Fail_def)
  next
    case None
    obtain l2 where l2: "lru_Put src (fresh_bucket now) l1 = Some l2" "lru_ok l2" "contents l2 src = Some (fresh_bucket now)"
      "\<forall>s. s \<noteq> src \<longrightarrow> contents l2 s = None \<or> contents l2 s = contents l1 s"
      using lru.put_laws [OF ok1(1), of src "fresh_bucket now"] by blast
    show ?thesis using that [of "lru_write src (debit (fresh_bucket now) now) l2"] False ok1 lru_write_laws [OF l2(2)] l1 l2 None
      by (simp add: limiter_Fail_def fresh_bucket_def)
  qed
qed

subsection \<open>Properties of the limiter\<close>

lemma limiter_apply_all:
  assumes "lru_ok l" and "\<And>s b. contents l s = Some b \<Longrightarrow> P s b"
    and keep: "\<And>s b. P s b \<Longrightarrow> Q s b"
    and refill: "\<And>s b. x = LAllow s (op_time x) \<Longrightarrow> P s b \<Longrightarrow> Q s (refill b (op_time x))"
    and clear: "\<And>s b. x = LSucceed s (op_time x) \<Longrightarrow> P s b \<Longrightarrow> Q s (cleared b (op_time x))"
    and debit: "\<And>s b. x = LFail s (op_time x) \<Longrightarrow> P s b \<or> b = fresh_bucket (op_time x) \<Longrightarrow> Q s (debit b (op_time x))"
  shows "\<exists>l'. limiter_apply x l = Some l' \<and> lru_ok l' \<and> (\<forall>s b. contents l' s = Some b \<longrightarrow> Q s b)"
proof (cases x)
  case (LAllow src now)
  then show ?thesis using assms Allow_step [OF assms(1), of src now] by (auto split: if_splits)
next
  case (LSucceed src now)
  then show ?thesis using assms Succeed_step [OF assms(1), of src now] by (auto split: if_splits)
next
  case (LFail src now)
  obtain l' where l': "limiter_Fail src now l = Some l'" "lru_ok l'" "src = '''' \<Longrightarrow> l' = l"
    "src \<noteq> '''' \<Longrightarrow> contents l' src = Some (debit (case contents l src of None \<Rightarrow> fresh_bucket now | Some b \<Rightarrow> b) now)"
    "\<And>s. s \<noteq> src \<Longrightarrow> contents l' s = None \<or> contents l' s = contents l s"
    using Fail_step [OF assms(1), of src now] by blast
  have "Q s b" if "contents l' s = Some b" for s b
  proof (cases "src = '''' \<or> s \<noteq> src")
    case True
    then have "contents l s = Some b" using that l'(3) l'(5) [of s] by auto
    then show ?thesis using assms(2) keep by blast
  next
    case False
    then have "b = debit (case contents l src of None \<Rightarrow> fresh_bucket now | Some b \<Rightarrow> b) now" "s = src"
      using that l'(4) by auto
    then show ?thesis using debit [of src] LFail assms(2) by (cases "contents l src") auto
  qed
  then show ?thesis using l'(1,2) LFail by auto
qed

text \<open>The penalty never exceeds the cap, and never reaches further than the cap past the last failure.\<close>

definition capped :: "gotime \<Rightarrow> failureBucket \<Rightarrow> bool" where
  "capped t b \<longleftrightarrow> 0 \<le> fb_penalty b \<and> fb_penalty b \<le> maxPenalty \<and> fb_penaltyUntil b \<le> t + maxPenalty"

lemma refill_keeps [simp]:
  "fb_penalty (refill b now) = fb_penalty b" "fb_penaltyUntil (refill b now) = fb_penaltyUntil b"
  by (simp_all add: refill_def Let_def)

lemma capped_debit: "capped t b \<Longrightarrow> now \<le> t \<Longrightarrow> capped t (debit b now)"
  by (auto simp: capped_def debit_def Let_def limiter_consts)

lemma limiter_run_capped:
  "lru_ok l \<Longrightarrow> (\<And>s b. contents l s = Some b \<Longrightarrow> capped t b) \<Longrightarrow> \<forall>x \<in> set ops. op_time x \<le> t \<Longrightarrow> 0 \<le> t \<Longrightarrow>
   \<exists>l'. limiter_run ops l = Some l' \<and> lru_ok l' \<and> (\<forall>s b. contents l' s = Some b \<longrightarrow> capped t b)"
proof (induction ops arbitrary: l)
  case (Cons x ops)
  have fresh: "capped t (fresh_bucket now)" for now
    using Cons.prems(4) by (simp add: capped_def fresh_bucket_def limiter_consts)
  have "\<exists>l'. limiter_apply x l = Some l' \<and> lru_ok l' \<and> (\<forall>s b. contents l' s = Some b \<longrightarrow> capped t b)"
  proof (rule limiter_apply_all [where P = "\<lambda>_. capped t"])
    show "lru_ok l" by (rule Cons.prems(1))
    show "contents l s = Some b \<Longrightarrow> capped t b" for s b by (rule Cons.prems(2))
    show "capped t b \<Longrightarrow> capped t (refill b (op_time x))" for b by (simp add: capped_def)
    show "capped t (cleared b (op_time x))" for b using Cons.prems(4) by (simp add: capped_def cleared_def limiter_consts)
    show "capped t b \<or> b = fresh_bucket (op_time x) \<Longrightarrow> capped t (debit b (op_time x))" for b
      using fresh capped_debit Cons.prems(3) by auto
  qed
  then show ?case using Cons.IH Cons.prems(3,4) by fastforce
qed auto

lemma newFailureLimiter_ok: "lru_ok (newFailureLimiter h)" "contents (newFailureLimiter h) s = None"
  by (simp_all add: newFailureLimiter_def newLRU_laws)

text \<open>
  C36. Backoff is bounded. Whatever a fresh limiter has been asked, every source is allowed again
  five minutes after the last clock reading: the limiter cannot lock an address out for good.
\<close>
theorem lockout_is_bounded:
  assumes "\<forall>x \<in> set ops. op_time x \<le> t" and "0 \<le> t"
  shows "\<exists>l. limiter_run ops (newFailureLimiter h) = Some l \<and> snd (limiter_Allow src (t + maxPenalty) l)"
proof -
  obtain l where l: "limiter_run ops (newFailureLimiter h) = Some l" "lru_ok l" "\<forall>s b. contents l s = Some b \<longrightarrow> capped t b"
    using limiter_run_capped [OF newFailureLimiter_ok(1), of h t ops] assms newFailureLimiter_ok(2) by auto
  then show ?thesis by (auto simp: Allow_step(3) [OF l(2)] capped_def)
qed

definition example_heap :: "addr \<Rightarrow> (string, failureBucket) lruNode" where
  "example_heap a = \<lparr>n_key = '''', n_val = fresh_bucket 0, n_prev = None, n_next = None\<rparr>"

theorem lockout_is_bounded_witness:
  "\<exists>l. limiter_run (replicate 12 (LFail ''a'' 7)) (newFailureLimiter example_heap) = Some l
     \<and> snd (limiter_Allow ''a'' (7 + maxPenalty) l)"
  by (rule lockout_is_bounded) simp_all

text \<open>While a source has failed no more often than the burst, its bucket holds what is left and no penalty.\<close>

definition unpenalised :: "nat \<Rightarrow> failureBucket \<Rightarrow> bool" where
  "unpenalised n b \<longleftrightarrow> failureBurst - of_nat n \<le> fb_tokens b \<and> fb_penalty b = 0 \<and> fb_penaltyUntil b = 0"

lemma refill_tokens: "min (fb_tokens b) failureBurst \<le> fb_tokens (refill b now)"
proof (cases "time_Sub now (fb_last b) \<le> 0")
  case False
  then have "fb_last b \<le> now" using time_Sub_nonneg_iff [of now "fb_last b"] by linarith
  then show ?thesis using False by (auto simp: refill_def Let_def limiter_consts)
qed (simp add: refill_def)

lemma unpenalised_refill: "unpenalised n b \<Longrightarrow> unpenalised n (refill b now)"
  using refill_tokens [of b now] by (auto simp: unpenalised_def min_def split: if_splits)

lemma unpenalised_debit: "unpenalised n b \<Longrightarrow> n < 10 \<Longrightarrow> unpenalised (Suc n) (debit b now)"
proof -
  assume b: "unpenalised n b" and n: "n < 10"
  have r: "unpenalised n (refill b now)" using b by (rule unpenalised_refill)
  have "(1 :: real) \<le> failureBurst - of_nat n" using n by (simp add: failureBurst_def)
  then have "1 \<le> fb_tokens (refill b now)" using r by (simp add: unpenalised_def)
  then show ?thesis using r by (simp add: debit_def Let_def unpenalised_def)
qed

lemma unpenalised_mono: "unpenalised m b \<Longrightarrow> m \<le> n \<Longrightarrow> unpenalised n b"
  by (auto simp: unpenalised_def)

lemma limiter_run_unpenalised:
  "lru_ok l \<Longrightarrow> (\<And>b. contents l src = Some b \<Longrightarrow> unpenalised n b) \<Longrightarrow> n + fails_of src ops \<le> 10 \<Longrightarrow>
   \<exists>l'. limiter_run ops l = Some l' \<and> lru_ok l' \<and> (\<forall>b. contents l' src = Some b \<longrightarrow> unpenalised (n + fails_of src ops) b)"
proof (induction ops arbitrary: l n)
  case (Cons x ops)
  let ?k = "fails_of src [x]"
  have k: "fails_of src (x # ops) = ?k + fails_of src ops" by (cases x) auto
  have "\<exists>l'. limiter_apply x l = Some l' \<and> lru_ok l' \<and> (\<forall>s b. contents l' s = Some b \<longrightarrow> (s = src \<longrightarrow> unpenalised (n + ?k) b))"
  proof (rule limiter_apply_all [where P = "\<lambda>s b. s = src \<longrightarrow> unpenalised n b"])
    show "lru_ok l" by (rule Cons.prems(1))
    show "contents l s = Some b \<Longrightarrow> s = src \<longrightarrow> unpenalised n b" for s b using Cons.prems(2) by blast
    show "s = src \<longrightarrow> unpenalised n b \<Longrightarrow> s = src \<longrightarrow> unpenalised (n + ?k) b" for s b
      using unpenalised_mono by (meson le_add1)
    show "s = src \<longrightarrow> unpenalised n b \<Longrightarrow> s = src \<longrightarrow> unpenalised (n + ?k) (refill b (op_time x))" for s b
      using unpenalised_mono unpenalised_refill by (meson le_add1)
    show "s = src \<longrightarrow> unpenalised (n + ?k) (cleared b (op_time x))" for s b by (simp add: cleared_def unpenalised_def failureBurst_def)
    show "s = src \<longrightarrow> unpenalised (n + ?k) (debit b (op_time x))"
      if "x = LFail s (op_time x)" "(s = src \<longrightarrow> unpenalised n b) \<or> b = fresh_bucket (op_time x)" for s b
    proof
      assume s: "s = src"
      then have one: "?k = 1" using that(1) by (cases x) auto
      have "unpenalised n b" using that(2) s by (auto simp: fresh_bucket_def unpenalised_def)
      then show "unpenalised (n + ?k) (debit b (op_time x))" using unpenalised_debit Cons.prems(3) k one by simp
    qed
  qed
  then obtain l' where "limiter_apply x l = Some l'" "lru_ok l'" "\<forall>b. contents l' src = Some b \<longrightarrow> unpenalised (n + ?k) b" by blast
  then show ?case using Cons.IH [of l' "n + ?k"] Cons.prems(3) k by (auto simp: add.assoc)
qed auto

text \<open>
  Honest mistakes cost nothing. Whatever other sources do, and however the bounded cache evicts,
  a source that has failed at most ten times is still allowed to attempt an authentication.
\<close>
theorem burst_is_free:
  assumes "fails_of src ops \<le> 10" and "0 \<le> now"
  shows "\<exists>l. limiter_run ops (newFailureLimiter h) = Some l \<and> snd (limiter_Allow src now l)"
proof -
  obtain l where l: "limiter_run ops (newFailureLimiter h) = Some l" "lru_ok l"
    "\<forall>b. contents l src = Some b \<longrightarrow> unpenalised (0 + fails_of src ops) b"
    using limiter_run_unpenalised [OF newFailureLimiter_ok(1), of h src 0 ops] assms newFailureLimiter_ok(2) by auto
  then show ?thesis using assms(2) by (auto simp: Allow_step(3) [OF l(2)] unpenalised_def)
qed

theorem burst_is_free_witness:
  "\<exists>l. limiter_run [LFail ''a'' 5, LFail ''b'' 6] (newFailureLimiter example_heap) = Some l \<and> snd (limiter_Allow ''a'' 7 l)"
  by (rule burst_is_free) simp_all

end
