(* ===== verification/Verifier.thy ===== *)
theory Verifier
  imports Store_State Token Limiter
begin

text \<open>
  The credential verifier of \<open>internal/authn/verifier.go\<close>, with the bearer extraction and the scope
  list of \<open>middleware.go\<close>.

  Parameters: SHA-256 (\<open>sha\<close>), and the comparison of a stored digest with a presented secret
  (\<open>Hasher_Equal\<close> under some HMAC). What the store answers is an argument: the epoch it read, and the
  key it read, each of which may be an error. \<open>verify\<close> is cut at its second store read, because other
  requests and store mutations may run between the two: \<open>verify_begin\<close> runs up to the rate limiter,
  \<open>verify_finish\<close> from the key lookup on. Metrics, logging and the timing decoy have no effect on
  the result and are left out. A panic of a cache is \<open>None\<close>.
\<close>

subsection \<open>The code\<close>

datatype authn_error =
  ErrUnauthenticated | ErrWrongClass_authn | ErrExpired | ErrRevoked_authn | ErrRateLimited

definition ReasonUnknownKey :: string where "ReasonUnknownKey = ''unknown_key''"
definition ReasonBadSecret :: string where "ReasonBadSecret = ''bad_secret''"
definition ReasonWrongClass :: string where "ReasonWrongClass = ''wrong_class''"
definition ReasonExpired :: string where "ReasonExpired = ''expired''"
definition ReasonRevoked :: string where "ReasonRevoked = ''revoked''"
definition ReasonStoreError :: string where "ReasonStoreError = ''store_error''"

definition DefaultCacheSize :: int where "DefaultCacheSize = 10000"
definition DefaultCacheTTL :: duration where "DefaultCacheTTL = 60 * Second"
definition DefaultNegativeTTL :: duration where "DefaultNegativeTTL = 5 * Second"
definition touchConcurrency :: nat where "touchConcurrency = 32"

record cacheEntry =
  ce_principal :: Principal
  ce_keyExpiry :: gotime
  ce_cachedAt :: gotime
  ce_epoch :: "64 word"

record negEntry =
  ne_err :: authn_error
  ne_reason :: string
  ne_cachedAt :: gotime

text \<open>\<open>v_touches\<close> holds the last-use writes that are in flight.\<close>

record Verifier =
  v_cacheTTL :: duration
  v_negativeTTL :: duration
  v_pos :: "(string, cacheEntry) lruCache"
  v_neg :: "(string, negEntry) lruCache"
  v_limiter :: failureLimiter
  v_epoch :: "64 word"
  v_epochOK :: bool
  v_touches :: "(string \<times> gotime) list"

definition New_Verifier ::
    "(addr \<Rightarrow> (string, cacheEntry) lruNode) \<Rightarrow> (addr \<Rightarrow> (string, negEntry) lruNode) \<Rightarrow>
     (addr \<Rightarrow> (string, failureBucket) lruNode) \<Rightarrow> int \<Rightarrow> duration \<Rightarrow> duration \<Rightarrow> Verifier" where
  "New_Verifier h1 h2 h3 cacheSize cacheTTL negativeTTL =
     (let size = (if cacheSize \<le> 0 then DefaultCacheSize else cacheSize)
      in \<lparr>v_cacheTTL = (if cacheTTL \<le> 0 then DefaultCacheTTL else cacheTTL),
          v_negativeTTL = (if negativeTTL \<le> 0 then DefaultNegativeTTL else negativeTTL),
          v_pos = newLRU h1 size, v_neg = newLRU h2 size, v_limiter = newFailureLimiter h3,
          v_epoch = 0, v_epochOK = False, v_touches = []\<rparr>)"

definition principalFor :: "Key \<Rightarrow> Principal" where
  "principalFor k =
     (let p = \<lparr>p_KID = k_KID k, p_Name = k_Name k, p_Class = k_Class k, p_Role = '''', p_Scope = k_Scope k,
               p_Epoch = 0\<rparr>
      in if k_Class k = ClassAdmin then p\<lparr>p_Role := RoleAdmin\<rparr>
         else (case k_Scope k of Some sc \<Rightarrow> p\<lparr>p_Role := sc_Role sc\<rparr> | None \<Rightarrow> p))"

definition limiterKey :: "string \<Rightarrow> string \<Rightarrow> string" where
  "limiterKey ip kid = (if ip = '''' then '''' else ip @ [CHR 0x00] @ kid)"

definition syncEpoch :: "store_error + 64 word \<Rightarrow> Verifier \<Rightarrow> Verifier" where
  "syncEpoch rd v =
     (case rd of
        Inl _ \<Rightarrow> v
      | Inr epoch \<Rightarrow>
          (let changed = (\<not> v_epochOK v \<or> v_epoch v \<noteq> epoch);
               v = v\<lparr>v_epoch := epoch, v_epochOK := True\<rparr>
           in if changed then v\<lparr>v_pos := lru_Purge (v_pos v), v_neg := lru_Purge (v_neg v)\<rparr> else v))"

text \<open>\<open>None\<close> in the second component is \<open>decided = false\<close>.\<close>

definition from_neg ::
    "string \<Rightarrow> gotime \<Rightarrow> Verifier \<Rightarrow> Verifier \<times> (authn_error + Principal \<times> gotime) option" where
  "from_neg s now v =
     (case lru_Get s (v_neg v) of
        (neg, None) \<Rightarrow> (v\<lparr>v_neg := neg\<rparr>, None)
      | (neg, Some e) \<Rightarrow>
          if time_Sub now (ne_cachedAt e) < v_negativeTTL v then (v\<lparr>v_neg := neg\<rparr>, Some (Inl (ne_err e)))
          else (v\<lparr>v_neg := fst (lru_Remove s neg)\<rparr>, None))"

definition fromCache ::
    "string \<Rightarrow> 64 word \<Rightarrow> gotime \<Rightarrow> Verifier \<Rightarrow> Verifier \<times> (authn_error + Principal \<times> gotime) option" where
  "fromCache s epoch now v =
     (case lru_Get s (v_pos v) of
        (pos, None) \<Rightarrow> from_neg s now (v\<lparr>v_pos := pos\<rparr>)
      | (pos, Some e) \<Rightarrow>
          if ce_epoch e \<noteq> epoch \<or> time_Sub now (ce_cachedAt e) \<ge> v_cacheTTL v
          then from_neg s now (v\<lparr>v_pos := fst (lru_Remove s pos)\<rparr>)
          else if \<not> IsZero (ce_keyExpiry e) \<and> now > ce_keyExpiry e
          then (v\<lparr>v_pos := fst (lru_Remove s pos)\<rparr>, Some (Inl ErrExpired))
          else (v\<lparr>v_pos := pos\<rparr>, Some (Inr (ce_principal e, ce_keyExpiry e))))"

text \<open>A request between its two store reads.\<close>

record request =
  rq_raw :: string
  rq_sum :: string
  rq_kid :: string
  rq_secret :: string
  rq_want :: KeyClass
  rq_src :: string
  rq_now :: gotime
  rq_epoch :: "64 word"

datatype progress = Decided "authn_error + Principal \<times> gotime" | Pending request

definition verify_begin ::
    "(string \<Rightarrow> string) \<Rightarrow> string \<Rightarrow> string \<Rightarrow> KeyClass \<Rightarrow> gotime \<Rightarrow> store_error + 64 word \<Rightarrow> Verifier \<Rightarrow>
     (Verifier \<times> progress) option" where
  "verify_begin sha ip raw want now epoch_read v =
     (case Parse raw of
        Inl _ \<Rightarrow> Some (v, Decided (Inl ErrUnauthenticated))
      | Inr (class, kid, secret) \<Rightarrow>
          if class \<noteq> want then Some (v, Decided (Inl ErrWrongClass_authn))
          else
            (let s = sha raw;
                 v = syncEpoch epoch_read v;
                 (v, hit) = (case epoch_read of Inl _ \<Rightarrow> (v, None) | Inr epoch \<Rightarrow> fromCache s epoch now v)
             in case hit of
                  Some r \<Rightarrow> Some (v, Decided r)
                | None \<Rightarrow>
                    (let src = limiterKey ip kid;
                         (l, allowed) = limiter_Allow src now (v_limiter v);
                         v = v\<lparr>v_limiter := l\<rparr>
                     in if \<not> allowed then Some (v, Decided (Inl ErrRateLimited))
                        else (case epoch_read of
                                Inl _ \<Rightarrow>
                                  (case limiter_Fail src now (v_limiter v) of
                                     None \<Rightarrow> None
                                   | Some l \<Rightarrow> Some (v\<lparr>v_limiter := l\<rparr>, Decided (Inl ErrUnauthenticated)))
                              | Inr epoch \<Rightarrow>
                                  Some (v, Pending \<lparr>rq_raw = raw, rq_sum = s, rq_kid = kid, rq_secret = secret,
                                                   rq_want = want, rq_src = src, rq_now = now, rq_epoch = epoch\<rparr>)))))"

text \<open>\<open>GetKey\<close> may also return neither a key nor an error.\<close>

definition verifyAgainstStore ::
    "(string \<Rightarrow> string \<Rightarrow> bool) \<Rightarrow> store_error + Key option \<Rightarrow> string \<Rightarrow> KeyClass \<Rightarrow> gotime \<Rightarrow>
     (authn_error \<times> string) + Principal \<times> gotime" where
  "verifyAgainstStore equal rd secret want now =
     (case rd of
        Inl e \<Rightarrow> Inl (ErrUnauthenticated, if e = ErrNotFound then ReasonUnknownKey else ReasonStoreError)
      | Inr None \<Rightarrow> Inl (ErrUnauthenticated, ReasonUnknownKey)
      | Inr (Some key) \<Rightarrow>
          if \<not> equal (k_SecretHMAC key) secret then Inl (ErrUnauthenticated, ReasonBadSecret)
          else if k_Class key \<noteq> want then Inl (ErrWrongClass_authn, ReasonWrongClass)
          else if Revoked key then Inl (ErrRevoked_authn, ReasonRevoked)
          else if Expired key now then Inl (ErrExpired, ReasonExpired)
          else Inr (principalFor key, k_ExpiresAt key))"

definition fail :: "string \<Rightarrow> gotime \<Rightarrow> string \<Rightarrow> string \<Rightarrow> authn_error \<Rightarrow> Verifier \<Rightarrow> Verifier option" where
  "fail src now s reason err v =
     (case lru_Put s \<lparr>ne_err = err, ne_reason = reason, ne_cachedAt = now\<rparr> (v_neg v) of
        None \<Rightarrow> None
      | Some neg \<Rightarrow>
          (case limiter_Fail src now (v_limiter v) of
             None \<Rightarrow> None
           | Some l \<Rightarrow> Some (v\<lparr>v_neg := neg, v_limiter := l\<rparr>)))"

definition touch :: "string \<Rightarrow> gotime \<Rightarrow> Verifier \<Rightarrow> Verifier" where
  "touch kid now v =
     (if length (v_touches v) < touchConcurrency then v\<lparr>v_touches := v_touches v @ [(kid, now)]\<rparr> else v)"

definition verify_finish ::
    "(string \<Rightarrow> string \<Rightarrow> bool) \<Rightarrow> store_error + Key option \<Rightarrow> request \<Rightarrow> Verifier \<Rightarrow>
     (Verifier \<times> (authn_error + Principal \<times> gotime)) option" where
  "verify_finish equal rd rq v =
     (case verifyAgainstStore equal rd (rq_secret rq) (rq_want rq) (rq_now rq) of
        Inl (err, reason) \<Rightarrow>
          map_option (\<lambda>v. (v, Inl err)) (fail (rq_src rq) (rq_now rq) (rq_sum rq) reason err v)
      | Inr (p, expiry) \<Rightarrow>
          (let p = p\<lparr>p_Epoch := rq_epoch rq\<rparr>
           in case lru_Put (rq_sum rq)
                     \<lparr>ce_principal = p, ce_keyExpiry = expiry, ce_cachedAt = rq_now rq, ce_epoch = rq_epoch rq\<rparr> (v_pos v) of
                None \<Rightarrow> None
              | Some pos \<Rightarrow>
                  (let v = v\<lparr>v_pos := pos\<rparr>;
                       v = v\<lparr>v_neg := fst (lru_Remove (rq_sum rq) (v_neg v))\<rparr>;
                       v = v\<lparr>v_limiter := limiter_Succeed (rq_src rq) (rq_now rq) (v_limiter v)\<rparr>
                   in Some (touch (rq_kid rq) (rq_now rq) v, Inr (p, expiry)))))"

text \<open>\<open>verify\<close> with nothing in between: both reads see one document.\<close>

definition read_key :: "State \<Rightarrow> string \<Rightarrow> store_error + Key option" where
  "read_key s kid = (case GetKey s kid of Inl e \<Rightarrow> Inl e | Inr k \<Rightarrow> Inr (Some k))"

definition verify ::
    "(string \<Rightarrow> string) \<Rightarrow> (string \<Rightarrow> string \<Rightarrow> bool) \<Rightarrow> State \<Rightarrow> string \<Rightarrow> string \<Rightarrow> KeyClass \<Rightarrow> gotime \<Rightarrow> Verifier \<Rightarrow>
     (Verifier \<times> (authn_error + Principal \<times> gotime)) option" where
  "verify sha equal s ip raw want now v =
     (case verify_begin sha ip raw want now (Inr (st_Epoch s)) v of
        None \<Rightarrow> None
      | Some (v, Decided r) \<Rightarrow> Some (v, r)
      | Some (v, Pending rq) \<Rightarrow> verify_finish equal (read_key s (rq_kid rq)) rq v)"

subsection \<open>middleware.go\<close>

definition ScopeName :: "KeyClass \<Rightarrow> string" where
  "ScopeName class =
     (if class = ClassAdmin then ''admin'' else if class = ClassEnrollment then ''enroll'' else ''mcp'')"

definition ScopesOf :: "Principal option \<Rightarrow> string list" where
  "ScopesOf p =
     (case p of
        None \<Rightarrow> []
      | Some p \<Rightarrow>
          [''class:'' @ p_Class p]
          @ (if p_Role p \<noteq> '''' then [''role:'' @ p_Role p] else [])
          @ (case p_Scope p of None \<Rightarrow> [] | Some sc \<Rightarrow> map (\<lambda>t. ''tool:'' @ t) (ts_Allow (sc_Tools sc))))"

text \<open>The answer of \<open>Middleware\<close>: a status and code, or the request passed on with its principal.\<close>

datatype answer = Deny int string | Next Principal

definition Middleware_answer :: "(authn_error + Principal \<times> gotime) option \<Rightarrow> answer" where
  "Middleware_answer r =
     (case r of
        None \<Rightarrow> Deny 401 ''unauthenticated''
      | Some (Inl e) \<Rightarrow> if e = ErrRateLimited then Deny 429 ''rate_limited'' else Deny 401 ''unauthenticated''
      | Some (Inr (p, _)) \<Rightarrow> Next p)"

subsection \<open>The caches under one request\<close>

definition v_ok :: "Verifier \<Rightarrow> bool" where
  "v_ok v \<longleftrightarrow> lru_ok (v_pos v) \<and> lru_ok (v_neg v) \<and> lru_ok (v_limiter v)"

text \<open>The caches stay well-formed and nothing is added to the positive one.\<close>

definition shrinks :: "Verifier \<Rightarrow> Verifier \<Rightarrow> bool" where
  "shrinks v v' \<longleftrightarrow> v_ok v' \<and> (\<forall>s e. contents (v_pos v') s = Some e \<longrightarrow> contents (v_pos v) s = Some e)"

lemma shrinks_refl: "v_ok v \<Longrightarrow> shrinks v v"
  by (simp add: shrinks_def)

lemma shrinks_trans: "shrinks a b \<Longrightarrow> shrinks b c \<Longrightarrow> shrinks a c"
  by (auto simp: shrinks_def)

lemma v_ok_New: "v_ok (New_Verifier h1 h2 h3 n t1 t2)" "contents (v_pos (New_Verifier h1 h2 h3 n t1 t2)) s = None"
  by (simp_all add: v_ok_def New_Verifier_def Let_def newLRU_laws newFailureLimiter_ok)

lemma shrinks_sync: "v_ok v \<Longrightarrow> shrinks v (syncEpoch rd v)"
  by (auto simp: syncEpoch_def v_ok_def shrinks_def Let_def lru.purge_laws split: sum.splits)

lemma from_neg_shrinks: "v_ok v \<Longrightarrow> shrinks v (fst (from_neg s now v))"
  using lru.get_laws [of "v_neg v" s] lru.remove_laws [of "fst (lru_Get s (v_neg v))" s]
  by (cases "lru_Get s (v_neg v)") (auto simp: from_neg_def v_ok_def shrinks_def split: option.splits)

lemma from_neg_denies: "snd (from_neg s now v) \<noteq> Some (Inr r)"
  by (auto simp: from_neg_def split: prod.splits option.splits)

lemma fromCache_shrinks:
  assumes "v_ok v"
  shows "shrinks v (fst (fromCache s epoch now v))"
proof -
  obtain pos r where g: "lru_Get s (v_pos v) = (pos, r)" by (cases "lru_Get s (v_pos v)")
  have pos: "lru_ok pos" "contents pos = contents (v_pos v)" "r = contents (v_pos v) s"
    using lru.get_laws [of "v_pos v" s] assms g by (auto simp: v_ok_def)
  have rem: "lru_ok (fst (lru_Remove s pos))" "contents (fst (lru_Remove s pos)) = (contents (v_pos v))(s := None)"
    using lru.remove_laws [OF pos(1), of s] pos(2) by auto
  have a: "shrinks v (v\<lparr>v_pos := pos\<rparr>)" "shrinks v (v\<lparr>v_pos := fst (lru_Remove s pos)\<rparr>)"
    using assms pos rem by (auto simp: shrinks_def v_ok_def split: if_splits)
  have b: "shrinks v (fst (from_neg s now w))" if "shrinks v w" for w
    using that by (rule shrinks_trans) (use that in \<open>simp add: from_neg_shrinks shrinks_def [of v]\<close>)
  show ?thesis using a b [OF a(1)] b [OF a(2)] by (simp add: fromCache_def g split: option.splits)
qed

lemma fromCache_hit:
  assumes "v_ok v" and "snd (fromCache s epoch now v) = Some (Inr (p, expiry))"
  obtains e where "contents (v_pos v) s = Some e" "ce_epoch e = epoch" "p = ce_principal e" "expiry = ce_keyExpiry e"
    "IsZero expiry \<or> now \<le> expiry"
proof -
  obtain pos r where g: "lru_Get s (v_pos v) = (pos, r)" by (cases "lru_Get s (v_pos v)")
  then have "r = contents (v_pos v) s" using lru.get_laws [of "v_pos v" s] assms(1) by (auto simp: v_ok_def)
  then show ?thesis using assms(2) that g
    by (auto simp: fromCache_def from_neg_denies split: option.splits if_splits)
qed

lemma allow_shrinks: "v_ok v \<Longrightarrow> shrinks v (v\<lparr>v_limiter := fst (limiter_Allow src now (v_limiter v))\<rparr>)"
  using Allow_step(1) by (simp add: shrinks_def v_ok_def)

lemma Fail_total:
  assumes "lru_ok l"
  obtains l' where "limiter_Fail src now l = Some l'" "lru_ok l'"
  using Fail_step [OF assms] by blast

definition lookup_caches ::
    "string \<Rightarrow> gotime \<Rightarrow> store_error + 64 word \<Rightarrow> Verifier \<Rightarrow> Verifier \<times> (authn_error + Principal \<times> gotime) option" where
  "lookup_caches s now rd v = (case rd of Inl _ \<Rightarrow> (v, None) | Inr epoch \<Rightarrow> fromCache s epoch now v)"

lemma verify_begin_parsed:
  assumes "Parse raw = Inr (want, kid, secret)"
    and "lookup_caches (sha raw) now rd (syncEpoch rd v) = (v2, hit)"
    and "limiter_Allow (limiterKey ip kid) now (v_limiter v2) = (l, allowed)"
  shows "verify_begin sha ip raw want now rd v =
    (case hit of
       Some r \<Rightarrow> Some (v2, Decided r)
     | None \<Rightarrow>
         if \<not> allowed then Some (v2\<lparr>v_limiter := l\<rparr>, Decided (Inl ErrRateLimited))
         else (case rd of
                 Inl _ \<Rightarrow> map_option (\<lambda>l'. (v2\<lparr>v_limiter := l'\<rparr>, Decided (Inl ErrUnauthenticated))) (limiter_Fail (limiterKey ip kid) now l)
               | Inr epoch \<Rightarrow>
                   Some (v2\<lparr>v_limiter := l\<rparr>, Pending \<lparr>rq_raw = raw, rq_sum = sha raw, rq_kid = kid, rq_secret = secret,
                     rq_want = want, rq_src = limiterKey ip kid, rq_now = now, rq_epoch = epoch\<rparr>)))"
proof (cases rd)
  case (Inl e)
  then have "v2 = syncEpoch (Inl e) v" "hit = None" using assms(2) by (simp_all add: lookup_caches_def)
  then show ?thesis using assms(1,3) Inl
    by (simp add: verify_begin_def Let_def split: option.splits)
next
  case (Inr epoch)
  then have "fromCache (sha raw) epoch now (syncEpoch (Inr epoch) v) = (v2, hit)" using assms(2) by (simp add: lookup_caches_def)
  then show ?thesis using assms(1,3) Inr
    by (simp add: verify_begin_def Let_def split: option.splits)
qed

lemma lookup_caches_shrinks:
  assumes "v_ok v"
  shows "shrinks v (fst (lookup_caches s now rd (syncEpoch rd v)))"
proof -
  have s1: "shrinks v (syncEpoch rd v)" using assms by (rule shrinks_sync)
  then have "v_ok (syncEpoch rd v)" by (simp add: shrinks_def)
  from shrinks_trans [OF s1 fromCache_shrinks [OF this]] s1 show ?thesis
    by (cases rd) (simp_all add: lookup_caches_def)
qed

lemma lookup_caches_hit:
  assumes "v_ok v" and "snd (lookup_caches s now rd (syncEpoch rd v)) = Some (Inr (p, expiry))"
  shows "\<exists>e. rd = Inr (ce_epoch e) \<and> contents (v_pos v) s = Some e \<and> p = ce_principal e \<and> expiry = ce_keyExpiry e
    \<and> (IsZero expiry \<or> now \<le> expiry)"
proof -
  have s1: "shrinks v (syncEpoch rd v)" using assms(1) by (rule shrinks_sync)
  then have ok1: "v_ok (syncEpoch rd v)" by (simp add: shrinks_def)
  obtain epoch where rd: "rd = Inr epoch" using assms(2) by (cases rd) (auto simp: lookup_caches_def)
  have "snd (fromCache s epoch now (syncEpoch rd v)) = Some (Inr (p, expiry))"
    using assms(2) rd by (simp add: lookup_caches_def)
  then obtain e where e: "contents (v_pos (syncEpoch rd v)) s = Some e" "ce_epoch e = epoch"
    "p = ce_principal e" "expiry = ce_keyExpiry e" "IsZero expiry \<or> now \<le> expiry"
    by (rule fromCache_hit [OF ok1])
  have "contents (v_pos v) s = Some e" using e(1) s1 by (simp add: shrinks_def)
  with e(2-5) rd show ?thesis by blast
qed

text \<open>Before the second read nothing is added to the positive cache, and an acceptance is a cache hit at the epoch just read.\<close>

lemma verify_begin_effect:
  assumes "v_ok v"
  obtains v' pr where "verify_begin sha ip raw want now rd v = Some (v', pr)" "shrinks v v'"
    "\<And>p expiry. pr = Decided (Inr (p, expiry)) \<Longrightarrow>
       \<exists>kid secret e. Parse raw = Inr (want, kid, secret) \<and> rd = Inr (ce_epoch e) \<and> contents (v_pos v) (sha raw) = Some e
         \<and> p = ce_principal e \<and> expiry = ce_keyExpiry e \<and> (IsZero expiry \<or> now \<le> expiry)"
    "\<And>rq. pr = Pending rq \<Longrightarrow> Parse raw = Inr (want, rq_kid rq, rq_secret rq) \<and> rq_raw rq = raw \<and> rq_sum rq = sha raw
       \<and> rq_want rq = want \<and> rd = Inr (rq_epoch rq) \<and> rq_now rq = now"
proof (cases "\<exists>kid secret. Parse raw = Inr (want, kid, secret)")
  case False
  then have "\<exists>e. verify_begin sha ip raw want now rd v = Some (v, Decided (Inl e))"
    by (auto simp: verify_begin_def split: sum.splits)
  then show ?thesis using that shrinks_refl [OF assms] by fastforce
next
  case True
  then obtain kid secret where P: "Parse raw = Inr (want, kid, secret)" by blast
  obtain v2 hit where c: "lookup_caches (sha raw) now rd (syncEpoch rd v) = (v2, hit)"
    by (cases "lookup_caches (sha raw) now rd (syncEpoch rd v)")
  obtain l allowed where a: "limiter_Allow (limiterKey ip kid) now (v_limiter v2) = (l, allowed)"
    by (cases "limiter_Allow (limiterKey ip kid) now (v_limiter v2)")
  note eq = verify_begin_parsed [where sha = sha and ip = ip, OF P c a]
  have s2: "shrinks v v2" using lookup_caches_shrinks [OF assms, of "sha raw" now rd] c by simp
  then have ok2: "v_ok v2" by (simp add: shrinks_def)
  have "shrinks v2 (v2\<lparr>v_limiter := l\<rparr>)" using allow_shrinks [OF ok2, of "limiterKey ip kid" now] a by simp
  then have s3: "shrinks v (v2\<lparr>v_limiter := l\<rparr>)" by (rule shrinks_trans [OF s2])
  then have okl: "lru_ok l" by (simp add: shrinks_def v_ok_def)
  obtain l' where l': "limiter_Fail (limiterKey ip kid) now l = Some l'" "lru_ok l'" by (rule Fail_total [OF okl])
  have s4: "shrinks v (v2\<lparr>v_limiter := l'\<rparr>)" using s3 l'(2) by (simp add: shrinks_def v_ok_def)
  show ?thesis
  proof (cases hit)
    case (Some r)
    show ?thesis
    proof (rule that)
      show "verify_begin sha ip raw want now rd v = Some (v2, Decided r)" using eq Some by simp
      show "shrinks v v2" by (rule s2)
      show "\<exists>kid secret e. Parse raw = Inr (want, kid, secret) \<and> rd = Inr (ce_epoch e) \<and> contents (v_pos v) (sha raw) = Some e
         \<and> p = ce_principal e \<and> expiry = ce_keyExpiry e \<and> (IsZero expiry \<or> now \<le> expiry)"
        if "Decided r = Decided (Inr (p, expiry))" for p expiry
        using lookup_caches_hit [OF assms, of "sha raw" now rd p expiry] c Some that P by auto
    qed simp
  next
    case None
    show ?thesis
    proof (cases allowed)
      case False
      show ?thesis by (rule that [OF _ s3, of "Decided (Inl ErrRateLimited)"]) (use eq None False in simp_all)
    next
      case True
      show ?thesis
      proof (cases rd)
        case (Inl e)
        show ?thesis by (rule that [OF _ s4, of "Decided (Inl ErrUnauthenticated)"]) (use eq None True Inl l'(1) in simp_all)
      next
        case (Inr epoch)
        show ?thesis
          by (rule that [OF _ s3, of "Pending \<lparr>rq_raw = raw, rq_sum = sha raw, rq_kid = kid, rq_secret = secret,
                     rq_want = want, rq_src = limiterKey ip kid, rq_now = now, rq_epoch = epoch\<rparr>"])
            (use eq None True Inr P in simp_all)
      qed
    qed
  qed
qed

lemma fail_total:
  assumes "v_ok v"
  obtains v' where "fail src now s reason err v = Some v'" "shrinks v v'"
proof -
  have ok: "lru_ok (v_neg v)" "lru_ok (v_limiter v)" using assms by (simp_all add: v_ok_def)
  obtain neg where neg: "lru_Put s \<lparr>ne_err = err, ne_reason = reason, ne_cachedAt = now\<rparr> (v_neg v) = Some neg" "lru_ok neg"
    using lru.put_laws [OF ok(1)] by blast
  obtain l where l: "limiter_Fail src now (v_limiter v) = Some l" "lru_ok l" by (rule Fail_total [OF ok(2)])
  show ?thesis
    by (rule that [of "v\<lparr>v_neg := neg, v_limiter := l\<rparr>"]) (use assms neg l in \<open>simp_all add: fail_def shrinks_def v_ok_def\<close>)
qed

lemma verifyAgainstStore_Inr:
  "verifyAgainstStore equal rd secret want now = Inr (p, expiry) \<longleftrightarrow>
   (\<exists>k. rd = Inr (Some k) \<and> equal (k_SecretHMAC k) secret \<and> k_Class k = want \<and> Usable k now
      \<and> p = principalFor k \<and> expiry = k_ExpiresAt k)"
  by (auto simp: verifyAgainstStore_def Usable_def split: sum.splits option.splits)

text \<open>After the second read, an acceptance is a usable key the store just returned, and it is the only thing cached.\<close>

lemma verify_finish_effect:
  assumes "v_ok v"
  obtains (denied) v' err where "verify_finish equal rd rq v = Some (v', Inl err)" "shrinks v v'"
      "\<nexists>p expiry. verifyAgainstStore equal rd (rq_secret rq) (rq_want rq) (rq_now rq) = Inr (p, expiry)"
  | (accepted) v' k where "rd = Inr (Some k)" "equal (k_SecretHMAC k) (rq_secret rq)" "k_Class k = rq_want rq" "Usable k (rq_now rq)"
      "verify_finish equal rd rq v = Some (v', Inr ((principalFor k)\<lparr>p_Epoch := rq_epoch rq\<rparr>, k_ExpiresAt k))"
      "v_ok v'" "\<And>s e. contents (v_pos v') s = Some e \<Longrightarrow> contents (v_pos v) s = Some e \<or>
         s = rq_sum rq \<and> e = \<lparr>ce_principal = (principalFor k)\<lparr>p_Epoch := rq_epoch rq\<rparr>, ce_keyExpiry = k_ExpiresAt k,
                             ce_cachedAt = rq_now rq, ce_epoch = rq_epoch rq\<rparr>"
proof (cases "verifyAgainstStore equal rd (rq_secret rq) (rq_want rq) (rq_now rq)")
  case (Inl er)
  obtain err reason where er: "er = (err, reason)" by (cases er)
  obtain v' where "fail (rq_src rq) (rq_now rq) (rq_sum rq) reason err v = Some v'" "shrinks v v'"
    by (rule fail_total [OF assms])
  then show ?thesis using denied [of v' err] Inl er by (simp add: verify_finish_def)
next
  case (Inr pe)
  obtain p expiry where pe: "pe = (p, expiry)" by (cases pe)
  then obtain k where k: "rd = Inr (Some k)" "equal (k_SecretHMAC k) (rq_secret rq)" "k_Class k = rq_want rq" "Usable k (rq_now rq)"
    "p = principalFor k" "expiry = k_ExpiresAt k" using Inr verifyAgainstStore_Inr by metis
  define e where "e = \<lparr>ce_principal = p\<lparr>p_Epoch := rq_epoch rq\<rparr>, ce_keyExpiry = expiry, ce_cachedAt = rq_now rq, ce_epoch = rq_epoch rq\<rparr>"
  have ok: "lru_ok (v_pos v)" "lru_ok (v_neg v)" "lru_ok (v_limiter v)" using assms by (simp_all add: v_ok_def)
  obtain pos where pos: "lru_Put (rq_sum rq) e (v_pos v) = Some pos" "lru_ok pos" "contents pos (rq_sum rq) = Some e"
    "\<forall>s. s \<noteq> rq_sum rq \<longrightarrow> contents pos s = None \<or> contents pos s = contents (v_pos v) s"
    using lru.put_laws [OF ok(1)] by blast
  define v' where "v' = touch (rq_kid rq) (rq_now rq) (v\<lparr>v_pos := pos, v_neg := fst (lru_Remove (rq_sum rq) (v_neg v)),
    v_limiter := limiter_Succeed (rq_src rq) (rq_now rq) (v_limiter v)\<rparr>)"
  show ?thesis
  proof (rule accepted [OF k(1-4)])
    show "verify_finish equal rd rq v = Some (v', Inr ((principalFor k)\<lparr>p_Epoch := rq_epoch rq\<rparr>, k_ExpiresAt k))"
      using Inr pe pos(1) k(5,6) by (simp add: verify_finish_def e_def v'_def Let_def)
    show "v_ok v'" using pos(2) lru.remove_laws [OF ok(2)] Succeed_step(1) [OF ok(3)] by (simp add: v'_def v_ok_def touch_def)
    show "contents (v_pos v) s = Some e' \<or> s = rq_sum rq \<and> e' = \<lparr>ce_principal = (principalFor k)\<lparr>p_Epoch := rq_epoch rq\<rparr>,
        ce_keyExpiry = k_ExpiresAt k, ce_cachedAt = rq_now rq, ce_epoch = rq_epoch rq\<rparr>"
      if "contents (v_pos v') s = Some e'" for s e'
      using that pos(3,4) k(5,6) by (cases "s = rq_sum rq") (auto simp: v'_def touch_def e_def split: if_splits)
  qed
qed

subsection \<open>Requests interleaved with the store\<close>

text \<open>
  One hub process and the document. The process reads a copy that its store keeps for a while, so the
  copy may lag behind the document: \<open>sy_early\<close> are the mutations it contains and \<open>sy_behind\<close> those made
  since, by any replica, each with its time. A read at a time \<open>t\<close> sees a copy that lacks no mutation
  older than \<open>lag\<close>, which is the lifetime of the copy and the time its load takes. The copies a process
  reads do not go back to an older document. The steps are a mutation, the copy catching up by one
  mutation, a request up to its second read, the rest of a request, and a last-use write. The clock does
  not go back. Either read of a request may fail. \<open>sy_raws\<close> records every text presented so far, and
  \<open>sy_moves\<close> how often the epoch of the copy has moved.
\<close>

record system =
  sy_init :: State
  sy_early :: "(gotime \<times> store_op) list"
  sy_behind :: "(gotime \<times> store_op) list"
  sy_clock :: gotime
  sy_v :: Verifier
  sy_flight :: "request list"
  sy_raws :: "string list"
  sy_moves :: nat

definition sy_copy :: "system \<Rightarrow> State" where
  "sy_copy y = fst (run_ops (sy_early y) (sy_init y))"

definition recent :: "duration \<Rightarrow> gotime \<Rightarrow> (gotime \<times> store_op) list \<Rightarrow> bool" where
  "recent lag t ops \<longleftrightarrow> (\<forall>(t', op) \<in> set ops. t \<le> t' + lag)"

definition caught_up :: "gotime \<Rightarrow> store_op \<Rightarrow> (gotime \<times> store_op) list \<Rightarrow> system \<Rightarrow> system" where
  "caught_up t op rest y =
     y\<lparr>sy_early := sy_early y @ [(t, op)], sy_behind := rest,
       sy_moves := sy_moves y + (if st_Epoch (fst (apply_op t op (sy_copy y))) = st_Epoch (sy_copy y) then 0 else 1)\<rparr>"

inductive sys_step ::
    "(string \<Rightarrow> string) \<Rightarrow> (string \<Rightarrow> string \<Rightarrow> bool) \<Rightarrow> duration \<Rightarrow> system \<Rightarrow> system \<Rightarrow> bool"
  for sha equal lag where
  step_store: "sy_clock y \<le> t \<Longrightarrow> sys_step sha equal lag y (y\<lparr>sy_clock := t, sy_behind := sy_behind y @ [(t, op)]\<rparr>)"
| step_refresh: "sy_behind y = (t, op) # rest \<Longrightarrow> sys_step sha equal lag y (caught_up t op rest y)"
| step_decided: "sy_clock y \<le> t \<Longrightarrow> recent lag t (sy_behind y) \<Longrightarrow> rd = Inr (st_Epoch (sy_copy y)) \<or> isl rd \<Longrightarrow>
    verify_begin sha ip raw want t rd (sy_v y) = Some (v', Decided r) \<Longrightarrow>
    sys_step sha equal lag y (y\<lparr>sy_clock := t, sy_v := v', sy_raws := raw # sy_raws y\<rparr>)"
| step_pending: "sy_clock y \<le> t \<Longrightarrow> recent lag t (sy_behind y) \<Longrightarrow> rd = Inr (st_Epoch (sy_copy y)) \<or> isl rd \<Longrightarrow>
    verify_begin sha ip raw want t rd (sy_v y) = Some (v', Pending rq) \<Longrightarrow>
    sys_step sha equal lag y (y\<lparr>sy_clock := t, sy_v := v', sy_flight := rq # sy_flight y, sy_raws := raw # sy_raws y\<rparr>)"
| step_finish: "sy_clock y \<le> t \<Longrightarrow> recent lag t (sy_behind y) \<Longrightarrow> rq \<in> set (sy_flight y) \<Longrightarrow> rd = read_key (sy_copy y) (rq_kid rq) \<or> isl rd \<Longrightarrow>
    verify_finish equal rd rq (sy_v y) = Some (v', r) \<Longrightarrow>
    sys_step sha equal lag y (y\<lparr>sy_clock := t, sy_v := v', sy_flight := remove1 rq (sy_flight y)\<rparr>)"
| step_touch: "sy_clock y \<le> t \<Longrightarrow> (kid, tm) \<in> set (v_touches (sy_v y)) \<Longrightarrow>
    sys_step sha equal lag y (y\<lparr>sy_clock := t, sy_behind := sy_behind y @ [(t, OpTouchKey kid tm)],
      sy_v := (sy_v y)\<lparr>v_touches := remove1 (kid, tm) (v_touches (sy_v y))\<rparr>\<rparr>)"

definition sys_init :: "system \<Rightarrow> bool" where
  "sys_init y \<longleftrightarrow>
     wf_state (sy_init y) \<and> sy_early y = [] \<and> sy_behind y = [] \<and> (\<exists>h1 h2 h3 n t1 t2. sy_v y = New_Verifier h1 h2 h3 n t1 t2)
     \<and> sy_flight y = [] \<and> sy_raws y = [] \<and> sy_moves y = 0"

inductive sys_reach ::
    "(string \<Rightarrow> string) \<Rightarrow> (string \<Rightarrow> string \<Rightarrow> bool) \<Rightarrow> duration \<Rightarrow> system \<Rightarrow> bool"
  for sha equal lag where
  reach_init: "sys_init y \<Longrightarrow> sys_reach sha equal lag y"
| reach_step: "sys_reach sha equal lag y \<Longrightarrow> sys_step sha equal lag y z \<Longrightarrow> sys_reach sha equal lag z"

subsection \<open>A cached verification follows the copy\<close>

definition seen :: "system \<Rightarrow> 64 word \<Rightarrow> bool" where
  "seen y w \<longleftrightarrow> (\<exists>n \<le> sy_moves y. w = st_Epoch (sy_init y) + of_nat n)"

text \<open>
  A cached credential was verified against a key \<open>k\<close>, and while the document's epoch is the one it
  was cached at, \<open>k\<close> is still what the document grants.
\<close>

definition verified_as :: "string set \<Rightarrow> (string \<Rightarrow> string) \<Rightarrow> (string \<Rightarrow> string \<Rightarrow> bool) \<Rightarrow> string \<Rightarrow> cacheEntry \<Rightarrow> string \<Rightarrow> Key \<Rightarrow> bool" where
  "verified_as R sha equal dig e kid k \<longleftrightarrow>
     (\<exists>raw \<in> R. \<exists>secret. sha raw = dig \<and> Parse raw = Inr (k_Class k, kid, secret) \<and> equal (k_SecretHMAC k) secret
        \<and> ce_principal e = (principalFor k)\<lparr>p_Epoch := ce_epoch e\<rparr> \<and> ce_keyExpiry e = k_ExpiresAt k \<and> \<not> Revoked k)"

definition still_grants :: "State \<Rightarrow> gotime \<Rightarrow> string \<Rightarrow> Key \<Rightarrow> bool" where
  "still_grants s clock kid k \<longleftrightarrow>
     (\<forall>t \<ge> clock. auth_view s kid t = (if Usable k t then Some (k\<lparr>k_LastUsed := None\<rparr>) else None))"

definition vouches :: "string set \<Rightarrow> (string \<Rightarrow> string) \<Rightarrow> (string \<Rightarrow> string \<Rightarrow> bool) \<Rightarrow> State \<Rightarrow> gotime \<Rightarrow> string \<Rightarrow> cacheEntry \<Rightarrow> bool" where
  "vouches R sha equal s clock dig e \<longleftrightarrow>
     (\<exists>kid k. verified_as R sha equal dig e kid k \<and> (ce_epoch e = st_Epoch s \<longrightarrow> still_grants s clock kid k))"

definition sys_inv :: "(string \<Rightarrow> string) \<Rightarrow> (string \<Rightarrow> string \<Rightarrow> bool) \<Rightarrow> system \<Rightarrow> bool" where
  "sys_inv sha equal y \<longleftrightarrow>
     wf_state (sy_copy y) \<and> v_ok (sy_v y) \<and> st_Epoch (sy_copy y) = st_Epoch (sy_init y) + of_nat (sy_moves y)
     \<and> (\<forall>(t, op) \<in> set (sy_behind y). t \<le> sy_clock y)
     \<and> (\<forall>dig e. contents (v_pos (sy_v y)) dig = Some e \<longrightarrow>
          seen y (ce_epoch e) \<and> vouches (set (sy_raws y)) sha equal (sy_copy y) (sy_clock y) dig e)
     \<and> (\<forall>rq \<in> set (sy_flight y). rq_raw rq \<in> set (sy_raws y) \<and> seen y (rq_epoch rq) \<and> rq_sum rq = sha (rq_raw rq)
          \<and> Parse (rq_raw rq) = Inr (rq_want rq, rq_kid rq, rq_secret rq))"

lemma seen_mono: "seen y w \<Longrightarrow> sy_init z = sy_init y \<Longrightarrow> sy_moves y \<le> sy_moves z \<Longrightarrow> seen z w"
  by (auto simp: seen_def intro: order.trans)

lemma of_nat_word64_inj: "(of_nat m :: 64 word) = of_nat n \<Longrightarrow> m < 2 ^ 64 \<Longrightarrow> n < 2 ^ 64 \<Longrightarrow> m = n"
  by (simp add: word_of_nat_eq_iff take_bit_nat_eq_self)

lemma fresh_epoch_unseen:
  assumes "seen y w" and "Suc (sy_moves y) < 2 ^ 64"
  shows "w \<noteq> st_Epoch (sy_init y) + of_nat (Suc (sy_moves y))"
proof
  assume eq: "w = st_Epoch (sy_init y) + of_nat (Suc (sy_moves y))"
  obtain n where n: "n \<le> sy_moves y" "w = st_Epoch (sy_init y) + of_nat n" using assms(1) by (auto simp: seen_def)
  then have "(of_nat n :: 64 word) = of_nat (Suc (sy_moves y))" using eq by simp
  then have "n = Suc (sy_moves y)" by (rule of_nat_word64_inj) (use n assms(2) in simp_all)
  then show False using n by simp
qed

lemma vouches_later: "vouches R sha equal s c dig e \<Longrightarrow> c \<le> c' \<Longrightarrow> vouches R sha equal s c' dig e"
  unfolding vouches_def still_grants_def using order.trans by blast

lemma caught_up_simps [simp]:
  "sy_raws (caught_up t op rest y) = sy_raws y" "sy_clock (caught_up t op rest y) = sy_clock y" "sy_v (caught_up t op rest y) = sy_v y"
  "sy_flight (caught_up t op rest y) = sy_flight y" "sy_init (caught_up t op rest y) = sy_init y" "sy_behind (caught_up t op rest y) = rest"
  "sy_copy (caught_up t op rest y) = fst (apply_op t op (sy_copy y))"
  "sy_moves (caught_up t op rest y) = sy_moves y + (if st_Epoch (fst (apply_op t op (sy_copy y))) = st_Epoch (sy_copy y) then 0 else 1)"
  by (simp_all add: caught_up_def sy_copy_def run_ops_append)

lemma sy_copy_update [simp]:
  "sy_copy (y\<lparr>sy_behind := b\<rparr>) = sy_copy y" "sy_copy (y\<lparr>sy_clock := t\<rparr>) = sy_copy y" "sy_copy (y\<lparr>sy_v := v\<rparr>) = sy_copy y"
  "sy_copy (y\<lparr>sy_flight := fl\<rparr>) = sy_copy y" "sy_copy (y\<lparr>sy_raws := raws\<rparr>) = sy_copy y"
  by (simp_all add: sy_copy_def)

lemma seen_update [simp]:
  "seen (y\<lparr>sy_behind := b\<rparr>) = seen y" "seen (y\<lparr>sy_clock := t\<rparr>) = seen y" "seen (y\<lparr>sy_v := v\<rparr>) = seen y"
  "seen (y\<lparr>sy_flight := fl\<rparr>) = seen y" "seen (y\<lparr>sy_raws := raws\<rparr>) = seen y"
  by (simp_all add: seen_def fun_eq_iff)

lemma vouches_caught_up:
  assumes "vouches R sha equal s c dig e" and "wf_state s" and "t \<le> c"
    and "st_Epoch (fst (apply_op t op s)) \<noteq> st_Epoch s \<Longrightarrow> ce_epoch e \<noteq> st_Epoch (fst (apply_op t op s))"
  shows "vouches R sha equal (fst (apply_op t op s)) c dig e"
proof (cases "st_Epoch (fst (apply_op t op s)) = st_Epoch s")
  case True
  then have "still_grants s c kid k \<Longrightarrow> still_grants (fst (apply_op t op s)) c kid k" for kid k
    using store_op.guard [OF assms(2) True] assms(3) by (simp add: still_grants_def)
  then show ?thesis using assms(1) True unfolding vouches_def by auto
next
  case False
  then show ?thesis using assms(1,4) unfolding vouches_def by auto
qed

lemma sys_inv_caught_up:
  assumes "sys_inv sha equal y" and "sy_behind y = (t, op) # rest" and "sy_moves (caught_up t op rest y) < 2 ^ 64"
  shows "sys_inv sha equal (caught_up t op rest y)"
proof -
  let ?z = "caught_up t op rest y" and ?s = "fst (apply_op t op (sy_copy y))"
  have wf: "wf_state (sy_copy y)" and ep: "st_Epoch (sy_copy y) = st_Epoch (sy_init y) + of_nat (sy_moves y)" and t: "t \<le> sy_clock y"
    using assms(1,2) by (simp_all add: sys_inv_def)
  have wf': "wf_state ?s" using wf by (rule store_op.keeps_wf)
  have ep': "st_Epoch ?s = st_Epoch (sy_init ?z) + of_nat (sy_moves ?z)"
    using store_op.epoch_step [of t op "sy_copy y"] ep by auto
  have mono: "seen y w \<Longrightarrow> seen ?z w" for w by (erule seen_mono) auto
  have "vouches (set (sy_raws y)) sha equal ?s (sy_clock y) dig e" if "contents (v_pos (sy_v y)) dig = Some e" for dig e
  proof (rule vouches_caught_up [OF _ wf t])
    show "vouches (set (sy_raws y)) sha equal (sy_copy y) (sy_clock y) dig e" using assms(1) that by (simp add: sys_inv_def)
    assume moved: "st_Epoch ?s \<noteq> st_Epoch (sy_copy y)"
    then have "sy_moves ?z = Suc (sy_moves y)" by simp
    then have moves: "Suc (sy_moves y) < 2 ^ 64" "st_Epoch ?s = st_Epoch (sy_init y) + of_nat (Suc (sy_moves y))"
      using assms(3) ep' by (simp_all only: caught_up_simps(5))
    have "seen y (ce_epoch e)" using assms(1) that by (simp add: sys_inv_def)
    then show "ce_epoch e \<noteq> st_Epoch ?s" unfolding moves(2) using moves(1) by (rule fresh_epoch_unseen)
  qed
  then show ?thesis using assms(1,2) wf' ep' mono by (simp add: sys_inv_def del: caught_up_simps(8))
qed

lemma vouches_subset: "vouches R sha equal s c dig e \<Longrightarrow> R \<subseteq> R' \<Longrightarrow> vouches R' sha equal s c dig e"
  unfolding vouches_def verified_as_def by blast

lemma sys_inv_shrinks:
  assumes "sys_inv sha equal y" and "shrinks (sy_v y) v'" and "sy_clock y \<le> t" and "set (sy_raws y) \<subseteq> set raws"
    and "\<And>rq. rq \<in> set fl \<Longrightarrow> rq_raw rq \<in> set raws \<and> seen y (rq_epoch rq) \<and> rq_sum rq = sha (rq_raw rq)
          \<and> Parse (rq_raw rq) = Inr (rq_want rq, rq_kid rq, rq_secret rq)"
  shows "sys_inv sha equal (y\<lparr>sy_clock := t, sy_v := v', sy_flight := fl, sy_raws := raws\<rparr>)"
proof -
  have seen: "seen (y\<lparr>sy_clock := t, sy_v := v', sy_flight := fl, sy_raws := raws\<rparr>) = seen y"
    by (simp add: seen_def fun_eq_iff)
  have "vouches (set raws) sha equal (sy_copy y) t dig e" if "vouches (set (sy_raws y)) sha equal (sy_copy y) (sy_clock y) dig e" for dig e
    using vouches_subset [OF vouches_later [OF that assms(3)] assms(4)] .
  moreover have "\<forall>(t', op) \<in> set (sy_behind y). t' \<le> t" using assms(1,3) unfolding sys_inv_def by fastforce
  ultimately show ?thesis using assms unfolding sys_inv_def seen shrinks_def by simp blast
qed

lemma sys_inv_store:
  assumes "sys_inv sha equal y" and "sy_clock y \<le> t"
  shows "sys_inv sha equal (y\<lparr>sy_clock := t, sy_behind := sy_behind y @ [(t, op)]\<rparr>)"
proof -
  have "seen (y\<lparr>sy_clock := t, sy_behind := sy_behind y @ [(t, op)]\<rparr>) = seen y" by (simp add: seen_def fun_eq_iff)
  moreover have "\<forall>(t', op) \<in> set (sy_behind y). t' \<le> t" using assms unfolding sys_inv_def by fastforce
  ultimately show ?thesis using assms vouches_later unfolding sys_inv_def by simp blast
qed

lemma sys_inv_finish:
  assumes "sys_inv sha equal y" and "rq \<in> set (sy_flight y)" and "rd = read_key (sy_copy y) (rq_kid rq) \<or> isl rd"
    and "verify_finish equal rd rq (sy_v y) = Some (v', r)"
  shows "sys_inv sha equal (y\<lparr>sy_v := v', sy_flight := remove1 rq (sy_flight y)\<rparr>)"
proof -
  have ok: "v_ok (sy_v y)" using assms(1) by (simp add: sys_inv_def)
  have rq: "seen y (rq_epoch rq)" "rq_raw rq \<in> set (sy_raws y)" "rq_sum rq = sha (rq_raw rq)" "Parse (rq_raw rq) = Inr (rq_want rq, rq_kid rq, rq_secret rq)"
    using assms(1,2) by (auto simp: sys_inv_def)
  show ?thesis
  proof (cases rule: verify_finish_effect [OF ok, of equal rd rq, case_names denied accepted])
    case (denied w err)
    then have "shrinks (sy_v y) v'" using assms(4) by simp
    moreover have "q \<in> set (sy_flight y)" if "q \<in> set (remove1 rq (sy_flight y))" for q
      using that set_remove1_subset by fastforce
    ultimately have "sys_inv sha equal (y\<lparr>sy_clock := sy_clock y, sy_v := v', sy_flight := remove1 rq (sy_flight y), sy_raws := sy_raws y\<rparr>)"
      using assms(1) by (intro sys_inv_shrinks) (auto simp: sys_inv_def)
    then show ?thesis by simp
  next
    case (accepted w k)
    then have w: "w = v'" using assms(4) by simp
    have "GetKey (sy_copy y) (rq_kid rq) = Inr k"
      using assms(3) accepted(1) by (auto simp: read_key_def split: sum.splits)
    then have grants: "still_grants (sy_copy y) c (rq_kid rq) k" for c by (simp add: still_grants_def auth_view_def)
    let ?e = "\<lparr>ce_principal = (principalFor k)\<lparr>p_Epoch := rq_epoch rq\<rparr>, ce_keyExpiry = k_ExpiresAt k,
               ce_cachedAt = rq_now rq, ce_epoch = rq_epoch rq\<rparr>"
    have "verified_as (set (sy_raws y)) sha equal (rq_sum rq) ?e (rq_kid rq) k"
      using rq accepted(2-4) by (auto simp: verified_as_def Usable_def)
    then have new: "vouches (set (sy_raws y)) sha equal (sy_copy y) (sy_clock y) (rq_sum rq) ?e" using grants by (auto simp: vouches_def)
    have all: "seen y (ce_epoch e) \<and> vouches (set (sy_raws y)) sha equal (sy_copy y) (sy_clock y) dig e" if "contents (v_pos v') dig = Some e" for dig e
      using accepted(7) [unfolded w, OF that] assms(1) new rq(1) by (auto simp: sys_inv_def)
    have seen: "seen (y\<lparr>sy_v := v', sy_flight := remove1 rq (sy_flight y)\<rparr>) = seen y" by (simp add: seen_def fun_eq_iff)
    show ?thesis using assms(1) accepted(6) all unfolding sys_inv_def seen w
      by (auto dest: notin_set_remove1)
  qed
qed

lemma sys_inv_step:
  assumes "sys_step sha equal lag y z" and "sys_inv sha equal y" and "sy_moves z < 2 ^ 64"
  shows "sys_inv sha equal z"
  using assms
proof cases
  case (step_store t op)
  then show ?thesis using sys_inv_store assms(2) by blast
next
  case (step_refresh t op rest)
  then show ?thesis using sys_inv_caught_up assms(2,3) by blast
next
  case (step_decided t rd ip raw want v' r)
  have "v_ok (sy_v y)" using assms(2) by (simp add: sys_inv_def)
  then obtain w pr where "verify_begin sha ip raw want t rd (sy_v y) = Some (w, pr)" "shrinks (sy_v y) w"
    by (rule verify_begin_effect)
  then have "shrinks (sy_v y) v'" using step_decided by simp
  from sys_inv_shrinks [OF assms(2) this, of t "raw # sy_raws y" "sy_flight y"] step_decided assms(2) show ?thesis
    by (auto simp: sys_inv_def)
next
  case (step_pending t rd ip raw want v' rq)
  have "v_ok (sy_v y)" using assms(2) by (simp add: sys_inv_def)
  then obtain w pr where w: "verify_begin sha ip raw want t rd (sy_v y) = Some (w, pr)" "shrinks (sy_v y) w"
    "\<And>rq. pr = Pending rq \<Longrightarrow> Parse raw = Inr (want, rq_kid rq, rq_secret rq) \<and> rq_raw rq = raw \<and> rq_sum rq = sha raw
       \<and> rq_want rq = want \<and> rd = Inr (rq_epoch rq) \<and> rq_now rq = t"
    by (rule verify_begin_effect [where sha = sha and ip = ip and raw = raw and want = want and now = t and rd = rd]) blast
  then have s: "shrinks (sy_v y) v'" using step_pending by simp
  have rq: "rq_raw rq = raw" "Parse (rq_raw rq) = Inr (rq_want rq, rq_kid rq, rq_secret rq)" "rq_sum rq = sha (rq_raw rq)" "seen y (rq_epoch rq)"
    using w(1,3) step_pending assms(2) by (auto simp: sys_inv_def seen_def)
  show ?thesis using sys_inv_shrinks [OF assms(2) s, of t "raw # sy_raws y" "rq # sy_flight y"] step_pending rq assms(2) 
    by (auto simp: sys_inv_def)
next
  case (step_finish t rq rd v' r)
  have "sys_inv sha equal (y\<lparr>sy_clock := t\<rparr>)"
    using sys_inv_shrinks [OF assms(2), of "sy_v y" t "sy_raws y" "sy_flight y"] step_finish(2) shrinks_refl assms(2) by (auto simp: sys_inv_def)
  from sys_inv_finish [OF this, of rq rd v' r] step_finish show ?thesis by simp
next
  case (step_touch t kid tm)
  have "sys_inv sha equal (y\<lparr>sy_clock := t, sy_behind := sy_behind y @ [(t, OpTouchKey kid tm)]\<rparr>)"
    using sys_inv_store [OF assms(2)] step_touch by blast
  then show ?thesis unfolding step_touch(1) by (simp add: sys_inv_def seen_def v_ok_def)
qed

lemma sys_step_moves: "sys_step sha equal lag y z \<Longrightarrow> sy_moves y \<le> sy_moves z"
  by (cases rule: sys_step.cases) auto

lemma sys_reach_inv: "sys_reach sha equal lag y \<Longrightarrow> sy_moves y < 2 ^ 64 \<Longrightarrow> sys_inv sha equal y"
proof (induction rule: sys_reach.induct)
  case (reach_init y)
  then show ?case using v_ok_New by (auto simp: sys_init_def sys_inv_def sy_copy_def)
next
  case (reach_step y z)
  then show ?case using sys_inv_step sys_step_moves by (meson le_less_trans)
qed

subsection \<open>Properties of the verifier\<close>

lemma auth_view_Some:
  "auth_view s kid t = Some k' \<longleftrightarrow> (\<exists>k. GetKey s kid = Inr k \<and> Usable k t \<and> k' = k\<lparr>k_LastUsed := None\<rparr>)"
  by (auto simp: auth_view_def split: sum.splits)

lemma LastUsed_irrelevant:
  assumes "k\<lparr>k_LastUsed := None\<rparr> = k'\<lparr>k_LastUsed := None\<rparr>"
  shows "k_SecretHMAC k = k_SecretHMAC k'" "k_Class k = k_Class k'" "principalFor k = principalFor k'" "k_ExpiresAt k = k_ExpiresAt k'"
proof -
  have "f (k\<lparr>k_LastUsed := None\<rparr>) = f (k'\<lparr>k_LastUsed := None\<rparr>)" for f :: "Key \<Rightarrow> 'b" using assms by simp
  from this [of k_SecretHMAC] this [of k_Class] this [of k_ExpiresAt] show
    "k_SecretHMAC k = k_SecretHMAC k'" "k_Class k = k_Class k'" "k_ExpiresAt k = k_ExpiresAt k'" by simp_all
  have "principalFor (x\<lparr>k_LastUsed := None\<rparr>) = principalFor x" for x by (simp add: principalFor_def Let_def)
  then show "principalFor k = principalFor k'" using assms by metis
qed

text \<open>
  C5. A cached acceptance is as current as the store. However requests, last-use writes and mutations
  of the document by any replica have interleaved, a request answered from the verifier's cache is
  answered for a key that the document held, at a moment whose only later mutations are at most \<open>lag\<close>
  old, under the identifier in the token, of the required class, with the presented secret and the
  scope it had then, and that is neither revoked nor expired: caching adds nothing to the delay with
  which the store's copy shows a revocation or a scope change. SHA-256 is assumed not to collide on the
  texts presented so far, the epoch to have moved fewer than \<open>2^64\<close> times, and the copies that a process
  reads not to go back.
\<close>
theorem cached_acceptance_is_current:
  assumes "sys_reach sha equal lag y" and "sy_moves y < 2 ^ 64" and "inj_on sha (insert raw (set (sy_raws y)))"
    and "sy_clock y \<le> t" and "recent lag t (sy_behind y)" and "rd = Inr (st_Epoch (sy_copy y)) \<or> isl rd"
    and "verify_begin sha ip raw want t rd (sy_v y) = Some (v', Decided (Inr (p, expiry)))"
  shows "\<exists>early late kid secret k. sy_early y @ sy_behind y = early @ late \<and> (\<forall>(t', op) \<in> set late. t \<le> t' + lag)
    \<and> Parse raw = Inr (want, kid, secret) \<and> GetKey (fst (run_ops early (sy_init y))) kid = Inr k
    \<and> equal (k_SecretHMAC k) secret \<and> k_Class k = want \<and> Usable k t
    \<and> p = (principalFor k)\<lparr>p_Epoch := st_Epoch (fst (run_ops early (sy_init y)))\<rparr> \<and> expiry = k_ExpiresAt k"
proof -
  have inv: "sys_inv sha equal y" using assms(1,2) by (rule sys_reach_inv)
  then have "v_ok (sy_v y)" by (simp add: sys_inv_def)
  then obtain kid secret e where hit: "Parse raw = Inr (want, kid, secret)" "rd = Inr (ce_epoch e)"
    "contents (v_pos (sy_v y)) (sha raw) = Some e" "p = ce_principal e" "expiry = ce_keyExpiry e" "IsZero expiry \<or> t \<le> expiry"
    using assms(7) by (rule_tac verify_begin_effect [of "sy_v y" sha ip raw want t rd]) auto
  have epoch: "ce_epoch e = st_Epoch (sy_copy y)" using hit(2) assms(6) by auto
  have vouch: "vouches (set (sy_raws y)) sha equal (sy_copy y) (sy_clock y) (sha raw) e" using inv hit(3) by (simp add: sys_inv_def)
  obtain kid' k where ver: "verified_as (set (sy_raws y)) sha equal (sha raw) e kid' k" and grants: "still_grants (sy_copy y) (sy_clock y) kid' k"
    using epoch vouch unfolding vouches_def by blast
  obtain raw' secret' where raw': "raw' \<in> set (sy_raws y)" "sha raw' = sha raw" "Parse raw' = Inr (k_Class k, kid', secret')"
    "equal (k_SecretHMAC k) secret'" "ce_principal e = (principalFor k)\<lparr>p_Epoch := ce_epoch e\<rparr>" "ce_keyExpiry e = k_ExpiresAt k" "\<not> Revoked k"
    using ver by (auto simp: verified_as_def)
  have "raw' = raw" using raw'(1,2) by (rule_tac inj_onD [OF assms(3)]) simp_all
  then have same: "k_Class k = want" "kid' = kid" "secret' = secret" using raw'(3) hit(1) by simp_all
  have "Usable k t" using raw'(6,7) hit(5,6) by (auto simp: Usable_def Expired_def)
  then have "auth_view (sy_copy y) kid t = Some (k\<lparr>k_LastUsed := None\<rparr>)"
    using grants assms(4) same(2) by (simp add: still_grants_def)
  then obtain k2 where k2: "GetKey (sy_copy y) kid = Inr k2" "Usable k2 t" "k\<lparr>k_LastUsed := None\<rparr> = k2\<lparr>k_LastUsed := None\<rparr>"
    by (auto simp: auth_view_Some)
  note eq = LastUsed_irrelevant [OF k2(3)]
  show ?thesis using hit(1,4,5) k2(1,2) raw'(4-6) same epoch eq assms(5)
    by (intro exI [of _ "sy_early y"] exI [of _ "sy_behind y"] exI [of _ kid] exI [of _ secret] exI [of _ k2]) (simp add: sy_copy_def recent_def)
qed

text \<open>
  C6. Everything else is decided by the document. A request that reaches its second store read is
  accepted exactly when that read returns a key of the required class with the presented secret,
  neither revoked nor expired; any failed read, of the epoch or of the key, is a refusal.
\<close>
theorem uncached_verdict_is_the_store:
  assumes "v_ok v"
  shows "(\<exists>v1 e. verify_begin sha ip raw want now (Inl err) v = Some (v1, Decided (Inl e)))
    \<and> (\<exists>v2 r. verify_finish equal rd rq v = Some (v2, r) \<and> v_ok v2
      \<and> (isl r \<longleftrightarrow> \<not> (\<exists>k. rd = Inr (Some k) \<and> equal (k_SecretHMAC k) (rq_secret rq) \<and> k_Class k = rq_want rq \<and> Usable k (rq_now rq))))"
proof
  obtain v1 pr where begun: "verify_begin sha ip raw want now (Inl err) v = Some (v1, pr)"
    "\<And>p expiry. pr \<noteq> Decided (Inr (p, expiry))" "\<And>rq. pr \<noteq> Pending rq"
    using assms by (rule_tac verify_begin_effect [of v sha ip raw want now "Inl err"]) blast+
  then have "\<exists>e. pr = Decided (Inl e)" by (metis progress.exhaust sum.exhaust surj_pair)
  then show "\<exists>v1 e. verify_begin sha ip raw want now (Inl err) v = Some (v1, Decided (Inl e))" using begun(1) by blast
  show "\<exists>v2 r. verify_finish equal rd rq v = Some (v2, r) \<and> v_ok v2
      \<and> (isl r \<longleftrightarrow> \<not> (\<exists>k. rd = Inr (Some k) \<and> equal (k_SecretHMAC k) (rq_secret rq) \<and> k_Class k = rq_want rq \<and> Usable k (rq_now rq)))"
  proof (cases rule: verify_finish_effect [OF assms, of equal rd rq, case_names denied accepted])
    case (denied v' e)
    then show ?thesis by (auto simp: verifyAgainstStore_Inr shrinks_def)
  next
    case (accepted v' k)
    then show ?thesis by auto
  qed
qed

lemma lookup_empty:
  assumes "v_ok v" and "contents (v_pos v) s = None" and "contents (v_neg v) s = None"
  shows "snd (lookup_caches s now rd (syncEpoch rd v)) = None"
    and "v_limiter (fst (lookup_caches s now rd (syncEpoch rd v))) = v_limiter v"
proof -
  have sync: "v_ok (syncEpoch rd v)" "contents (v_pos (syncEpoch rd v)) s = None" "contents (v_neg (syncEpoch rd v)) s = None"
    "v_limiter (syncEpoch rd v) = v_limiter v"
    using assms by (auto simp: syncEpoch_def v_ok_def Let_def lru.purge_laws split: sum.splits)
  then show "snd (lookup_caches s now rd (syncEpoch rd v)) = None"
    "v_limiter (fst (lookup_caches s now rd (syncEpoch rd v))) = v_limiter v"
    using lru.get_laws [of "v_pos (syncEpoch rd v)" s] lru.get_laws [of "v_neg (syncEpoch rd v)" s]
    by (auto simp: lookup_caches_def fromCache_def from_neg_def v_ok_def split: sum.splits prod.splits option.splits)
qed


subsection \<open>A run of the verifier\<close>

lemma fields_kept [simp]:
  "v_epoch (fst (from_neg s now v)) = v_epoch v" "v_epochOK (fst (from_neg s now v)) = v_epochOK v"
  "v_cacheTTL (fst (from_neg s now v)) = v_cacheTTL v"
  "v_epoch (fst (fromCache s epoch now v)) = v_epoch v" "v_epochOK (fst (fromCache s epoch now v)) = v_epochOK v"
  "v_cacheTTL (fst (fromCache s epoch now v)) = v_cacheTTL v"
  by (auto simp: from_neg_def fromCache_def split: prod.splits option.splits)

lemma synced_fields:
  "v_epoch (fst (lookup_caches s now (Inr epoch) (syncEpoch (Inr epoch) v))) = epoch"
  "v_epochOK (fst (lookup_caches s now (Inr epoch) (syncEpoch (Inr epoch) v)))"
  "v_cacheTTL (fst (lookup_caches s now (Inr epoch) (syncEpoch (Inr epoch) v))) = v_cacheTTL v"
  by (simp_all add: lookup_caches_def) (simp_all add: syncEpoch_def Let_def)

lemma cache_hit:
  assumes "v_ok v" and "v_epochOK v" and "Parse raw = Inr (want, kid, secret)" and "contents (v_pos v) (sha raw) = Some e"
    and "ce_epoch e = v_epoch v" and "time_Sub now (ce_cachedAt e) < v_cacheTTL v" and "IsZero (ce_keyExpiry e) \<or> now \<le> ce_keyExpiry e"
  shows "\<exists>v'. verify_begin sha ip raw want now (Inr (v_epoch v)) v = Some (v', Decided (Inr (ce_principal e, ce_keyExpiry e)))"
proof -
  have "syncEpoch (Inr (v_epoch v)) v = v" using assms(2) by (simp add: syncEpoch_def)
  moreover obtain pos where "lru_Get (sha raw) (v_pos v) = (pos, Some e)"
    using lru.get_laws [of "v_pos v" "sha raw"] assms(1,4) by (cases "lru_Get (sha raw) (v_pos v)") (auto simp: v_ok_def)
  ultimately have c: "lookup_caches (sha raw) now (Inr (v_epoch v)) (syncEpoch (Inr (v_epoch v)) v)
      = (v\<lparr>v_pos := pos\<rparr>, Some (Inr (ce_principal e, ce_keyExpiry e)))"
    using assms(5-7) by (auto simp: lookup_caches_def fromCache_def)
  obtain l allowed where a: "limiter_Allow (limiterKey ip kid) now (v_limiter (v\<lparr>v_pos := pos\<rparr>)) = (l, allowed)"
    by (cases "limiter_Allow (limiterKey ip kid) now (v_limiter (v\<lparr>v_pos := pos\<rparr>))")
  show ?thesis using verify_begin_parsed [where sha = sha and ip = ip, OF assms(3) c a] by simp
qed

lemma finish_caches:
  assumes "v_ok v" and "verifyAgainstStore equal rd (rq_secret rq) (rq_want rq) (rq_now rq) = Inr (p, expiry)"
  shows "\<exists>v'. verify_finish equal rd rq v = Some (v', Inr (p\<lparr>p_Epoch := rq_epoch rq\<rparr>, expiry)) \<and> v_ok v'
    \<and> v_epoch v' = v_epoch v \<and> v_epochOK v' = v_epochOK v \<and> v_cacheTTL v' = v_cacheTTL v
    \<and> contents (v_pos v') (rq_sum rq) = Some \<lparr>ce_principal = p\<lparr>p_Epoch := rq_epoch rq\<rparr>, ce_keyExpiry = expiry,
         ce_cachedAt = rq_now rq, ce_epoch = rq_epoch rq\<rparr>"
proof -
  let ?e = "\<lparr>ce_principal = p\<lparr>p_Epoch := rq_epoch rq\<rparr>, ce_keyExpiry = expiry, ce_cachedAt = rq_now rq, ce_epoch = rq_epoch rq\<rparr>"
  have ok: "lru_ok (v_pos v)" "lru_ok (v_neg v)" "lru_ok (v_limiter v)" using assms(1) by (simp_all add: v_ok_def)
  obtain pos where "lru_Put (rq_sum rq) ?e (v_pos v) = Some pos" "lru_ok pos" "contents pos (rq_sum rq) = Some ?e"
    using lru.put_laws [OF ok(1)] by blast
  then show ?thesis using assms(2) lru.remove_laws [OF ok(2)] Succeed_step(1) [OF ok(3)]
    by (simp add: verify_finish_def Let_def touch_def v_ok_def)
qed

lemma miss_pending:
  assumes "v_ok v" and "Parse raw = Inr (want, kid, secret)"
    and "contents (v_pos v) (sha raw) = None" and "contents (v_neg v) (sha raw) = None"
    and "snd (limiter_Allow (limiterKey ip kid) now (v_limiter v))"
  shows "\<exists>v1. verify_begin sha ip raw want now (Inr epoch) v
      = Some (v1, Pending \<lparr>rq_raw = raw, rq_sum = sha raw, rq_kid = kid, rq_secret = secret, rq_want = want,
          rq_src = limiterKey ip kid, rq_now = now, rq_epoch = epoch\<rparr>)
    \<and> v_ok v1 \<and> v_epoch v1 = epoch \<and> v_epochOK v1 \<and> v_cacheTTL v1 = v_cacheTTL v"
proof -
  let ?rd = "Inr epoch :: store_error + 64 word"
  obtain v2 hit where c: "lookup_caches (sha raw) now ?rd (syncEpoch ?rd v) = (v2, hit)"
    by (cases "lookup_caches (sha raw) now ?rd (syncEpoch ?rd v)")
  have hit: "hit = None" "v_limiter v2 = v_limiter v" using lookup_empty [OF assms(1,3,4), of now ?rd] c by simp_all
  obtain l allowed where a: "limiter_Allow (limiterKey ip kid) now (v_limiter v2) = (l, allowed)"
    by (cases "limiter_Allow (limiterKey ip kid) now (v_limiter v2)")
  have "shrinks v v2" using lookup_caches_shrinks [OF assms(1), of "sha raw" now ?rd] c by simp
  then have "v_ok (v2\<lparr>v_limiter := l\<rparr>)"
    using Allow_step(1) [of "v_limiter v2" "limiterKey ip kid" now] a by (simp add: shrinks_def v_ok_def)
  then show ?thesis
    using verify_begin_parsed [where sha = sha and ip = ip, OF assms(2) c a] hit assms(5) a c
      synced_fields [of "sha raw" now epoch v] by simp
qed

lemma GetKey_grants:
  assumes "GetKey s kid = Inr k" and "equal (k_SecretHMAC k) secret" and "Usable k now"
  shows "verifyAgainstStore equal (read_key s kid) secret (k_Class k) now = Inr (principalFor k, k_ExpiresAt k)"
  using assms by (simp add: read_key_def verifyAgainstStore_def Usable_def)

lemma miss_accepts:
  assumes "v_ok v" and "Parse raw = Inr (want, kid, secret)" and "contents (v_pos v) (sha raw) = None" and "contents (v_neg v) (sha raw) = None"
    and "snd (limiter_Allow (limiterKey ip kid) now (v_limiter v))"
    and "verifyAgainstStore equal (read_key s kid) secret want now = Inr (p, expires)"
  shows "\<exists>v'. verify sha equal s ip raw want now v = Some (v', Inr (p\<lparr>p_Epoch := st_Epoch s\<rparr>, expires))"
proof -
  let ?rq = "\<lparr>rq_raw = raw, rq_sum = sha raw, rq_kid = kid, rq_secret = secret, rq_want = want,
    rq_src = limiterKey ip kid, rq_now = now, rq_epoch = st_Epoch s\<rparr>"
  obtain v1 where begun: "verify_begin sha ip raw want now (Inr (st_Epoch s)) v = Some (v1, Pending ?rq)" "v_ok v1"
    using miss_pending [where sha = sha and ip = ip, OF assms(1-5)] by blast
  show ?thesis
    using finish_caches [OF begun(2), of equal "read_key s kid" ?rq] assms(6) begun(1) by (auto simp: verify_def)
qed

text \<open>
  C7. A good credential is accepted. If the document holds a usable key for a well-formed text, the
  text is in neither cache and its source is not in backoff, the request is accepted with the key's
  own identity, role and scope.
\<close>
theorem good_credential_accepted:
  assumes "v_ok v" and "Parse raw = Inr (want, kid, secret)" and "GetKey s kid = Inr k"
    and "equal (k_SecretHMAC k) secret" and "k_Class k = want" and "Usable k now"
    and "contents (v_pos v) (sha raw) = None" and "contents (v_neg v) (sha raw) = None"
    and "snd (limiter_Allow (limiterKey ip kid) now (v_limiter v))"
  shows "\<exists>v'. verify sha equal s ip raw want now v
    = Some (v', Inr ((principalFor k)\<lparr>p_Epoch := st_Epoch s\<rparr>, k_ExpiresAt k))"
  using GetKey_grants [where equal = equal, OF assms(3,4,6)] assms(5)
  by (intro miss_accepts [where sha = sha and ip = ip, OF assms(1,2,7-9)]) simp

text \<open>
  Copies that go back: if the epoch comes from a newer document than the key, an acceptance is cached
  under the newer epoch although the newer document may have revoked the key, and is given again
  whenever the epoch is read as that of the newer document.
\<close>

lemma older_key_read_is_cached:
  assumes "v_ok v" and "Parse raw = Inr (k_Class k, kid, secret)" and "GetKey older kid = Inr k" and "equal (k_SecretHMAC k) secret"
    and "Usable k now" and "contents (v_pos v) (sha raw) = None" and "contents (v_neg v) (sha raw) = None"
    and "snd (limiter_Allow (limiterKey ip kid) now (v_limiter v))"
    and "time_Sub later now < v_cacheTTL v" and "IsZero (k_ExpiresAt k) \<or> later \<le> k_ExpiresAt k"
  shows "\<exists>rq v1 v2 v3 r. verify_begin sha ip raw (k_Class k) now (Inr (st_Epoch newer)) v = Some (v1, Pending rq)
    \<and> verify_finish equal (read_key older kid) rq v1 = Some (v2, Inr r)
    \<and> verify_begin sha ip raw (k_Class k) later (Inr (st_Epoch newer)) v2 = Some (v3, Decided (Inr r))"
proof -
  let ?rq = "\<lparr>rq_raw = raw, rq_sum = sha raw, rq_kid = kid, rq_secret = secret, rq_want = k_Class k, rq_src = limiterKey ip kid, rq_now = now, rq_epoch = st_Epoch newer\<rparr>"
  obtain v1 where begun: "verify_begin sha ip raw (k_Class k) now (Inr (st_Epoch newer)) v = Some (v1, Pending ?rq)" "v_ok v1"
    "v_epoch v1 = st_Epoch newer" "v_epochOK v1" "v_cacheTTL v1 = v_cacheTTL v"
    using miss_pending [where sha = sha and ip = ip and now = now and epoch = "st_Epoch newer", OF assms(1,2,6-8)] by blast
  from finish_caches [OF begun(2), of equal "read_key older kid" ?rq] GetKey_grants [of older kid k equal secret now] assms(3-5) obtain v2 where fin:
    "verify_finish equal (read_key older kid) ?rq v1 = Some (v2, Inr ((principalFor k)\<lparr>p_Epoch := st_Epoch newer\<rparr>, k_ExpiresAt k))" "v_ok v2"
    "v_epoch v2 = st_Epoch newer" "v_epochOK v2" "v_cacheTTL v2 = v_cacheTTL v"
    "contents (v_pos v2) (sha raw) = Some \<lparr>ce_principal = (principalFor k)\<lparr>p_Epoch := st_Epoch newer\<rparr>, ce_keyExpiry = k_ExpiresAt k, ce_cachedAt = now, ce_epoch = st_Epoch newer\<rparr>"
    using begun(3-5) by auto
  then obtain v3 where "verify_begin sha ip raw (k_Class k) later (Inr (st_Epoch newer)) v2 = Some (v3, Decided (Inr ((principalFor k)\<lparr>p_Epoch := st_Epoch newer\<rparr>, k_ExpiresAt k)))"
    using cache_hit [where sha = sha and now = later and ip = ip, OF fin(2,4) assms(2) fin(6)] assms(9,10) by auto
  then show ?thesis using begun(1) fin(1) by blast
qed

definition example_raw :: string where
  "example_raw = token_text ClassAgent ''0123456789'' (replicate 32 CHR ''a'')"

definition example_agent :: Key where
  "example_agent = example_key ''0123456789'' ClassAgent 5 None"

definition example_doc :: State where
  "example_doc = fst (PutKey (Some example_agent) NewState)"

definition example_equal :: "string \<Rightarrow> string \<Rightarrow> bool" where
  "example_equal stored secret \<longleftrightarrow> stored = ''digest'' \<and> secret = replicate 32 CHR ''a''"

definition example_verifier :: Verifier where
  "example_verifier = New_Verifier
     (\<lambda>_. \<lparr>n_key = '''', n_val = \<lparr>ce_principal = principalFor example_agent, ce_keyExpiry = 0, ce_cachedAt = 0, ce_epoch = 0\<rparr>,
           n_prev = None, n_next = None\<rparr>)
     (\<lambda>_. \<lparr>n_key = '''', n_val = \<lparr>ne_err = ErrExpired, ne_reason = '''', ne_cachedAt = 0\<rparr>, n_prev = None, n_next = None\<rparr>)
     example_heap 0 0 0"

lemma example_facts:
  "Parse example_raw = Inr (ClassAgent, ''0123456789'', replicate 32 CHR ''a'')"
  "wf_state example_doc" "GetKey example_doc ''0123456789'' = Inr example_agent"
  "example_equal (k_SecretHMAC example_agent) (replicate 32 CHR ''a'')" "k_Class example_agent = ClassAgent"
  "k_ExpiresAt example_agent = 100" "t \<le> 100 \<Longrightarrow> Usable example_agent t"
  "v_ok example_verifier" "contents (v_pos example_verifier) d = None" "contents (v_neg example_verifier) d = None"
  "snd (limiter_Allow src now (v_limiter example_verifier))"
proof -
  have put: "PutKey (Some example_agent) NewState = (example_doc, Inr True)"
    by (simp add: example_doc_def PutKey_def example_agent_def example_state_defs validateKey_def)
  show "wf_state example_doc" using wf_PutKey [OF wf_NewState, of "Some example_agent"] by (simp add: example_doc_def)
  show "GetKey example_doc ''0123456789'' = Inr example_agent"
    using GetKey_PutKey [OF put, of "''0123456789''"] by (simp add: example_agent_def example_key_def)
  show "Parse example_raw = Inr (ClassAgent, ''0123456789'', replicate 32 CHR ''a'')"
    unfolding example_raw_def by (rule example_token) (simp add: KeyClass_Valid_def)
  show ok: "v_ok example_verifier" by (simp add: example_verifier_def v_ok_New)
  show "contents (v_pos example_verifier) d = None" "contents (v_neg example_verifier) d = None"
    by (simp_all add: example_verifier_def New_Verifier_def Let_def newLRU_laws)
  have "contents (v_limiter example_verifier) s = None" for s
    by (simp add: example_verifier_def New_Verifier_def Let_def newFailureLimiter_ok)
  then show "snd (limiter_Allow src now (v_limiter example_verifier))"
    using ok by (simp add: v_ok_def Allow_step(3))
qed (simp_all add: example_agent_def example_key_def example_equal_def Usable_def Revoked_def Expired_def)

theorem good_credential_accepted_witness:
  "\<exists>v'. verify (\<lambda>t. t) example_equal example_doc ''10.0.0.1'' example_raw ClassAgent 7 example_verifier
    = Some (v', Inr ((principalFor example_agent)\<lparr>p_Epoch := st_Epoch example_doc\<rparr>, 100))"
  using good_credential_accepted [where sha = "\<lambda>t. t" and ip = "''10.0.0.1''" and now = 7 and equal = example_equal, OF example_facts(8,1,3,4,5)] example_facts
  by simp

theorem uncached_verdict_is_the_store_witness:
  "(\<exists>v1 e. verify_begin (\<lambda>t. t) [] example_raw ClassAgent 7 (Inl ErrClosed) example_verifier = Some (v1, Decided (Inl e)))"
  using uncached_verdict_is_the_store [OF example_facts(8), of "\<lambda>t. t" "[]" example_raw ClassAgent 7 ErrClosed] by blast

lemma example_run:
  "\<exists>y v'. sys_reach (\<lambda>t. t) example_equal 1 y \<and> sy_behind y = [(8, OpRevokeKey ''0123456789'' ''lost'' 8)] \<and> sy_init y = example_doc \<and> sy_early y = []
    \<and> sy_clock y = 8 \<and> sy_moves y = 0
    \<and> verify_begin (\<lambda>t. t) [] example_raw ClassAgent 8 (Inr (st_Epoch example_doc)) (sy_v y)
        = Some (v', Decided (Inr ((principalFor example_agent)\<lparr>p_Epoch := st_Epoch example_doc\<rparr>, 100)))"
proof -
  let ?sha = "\<lambda>t. t :: string"
  let ?y0 = "\<lparr>sy_init = example_doc, sy_early = [], sy_behind = [], sy_clock = 0, sy_v = example_verifier, sy_flight = [], sy_raws = [], sy_moves = 0\<rparr>"
  let ?rq = "\<lparr>rq_raw = example_raw, rq_sum = example_raw, rq_kid = ''0123456789'', rq_secret = replicate 32 CHR ''a'',
    rq_want = ClassAgent, rq_src = limiterKey [] ''0123456789'', rq_now = 7, rq_epoch = st_Epoch example_doc\<rparr>"
  have r0: "sys_reach ?sha example_equal 1 ?y0"
    by (rule reach_init) (simp add: sys_init_def example_facts(2), simp add: example_verifier_def, blast)
  obtain v1 where begun: "verify_begin ?sha [] example_raw ClassAgent 7 (Inr (st_Epoch example_doc)) example_verifier = Some (v1, Pending ?rq)"
    "v_ok v1" "v_epoch v1 = st_Epoch example_doc" "v_epochOK v1" "v_cacheTTL v1 = v_cacheTTL example_verifier"
    using miss_pending [where sha = ?sha and ip = "[]" and now = 7 and epoch = "st_Epoch example_doc", OF example_facts(8,1,9,10,11)] by blast
  let ?y1 = "?y0\<lparr>sy_clock := 7, sy_v := v1, sy_flight := [?rq], sy_raws := [example_raw]\<rparr>"
  have r1: "sys_reach ?sha example_equal 1 ?y1"
    using reach_step [OF r0 step_pending [where y = ?y0 and t = 7 and rd = "Inr (st_Epoch example_doc)" and v' = v1 and rq = ?rq and sha = ?sha and ip = "[]" and raw = example_raw and want = ClassAgent]]
      begun(1) by (simp add: sy_copy_def recent_def)
  have "verifyAgainstStore example_equal (read_key example_doc (rq_kid ?rq)) (rq_secret ?rq) (rq_want ?rq) (rq_now ?rq) = Inr (principalFor example_agent, 100)"
    using GetKey_grants [of example_doc "''0123456789''" example_agent example_equal "replicate 32 CHR ''a''" 7] example_facts by simp
  from finish_caches [OF begun(2) this] obtain v2 where fin:
    "verify_finish example_equal (read_key example_doc (rq_kid ?rq)) ?rq v1 = Some (v2, Inr ((principalFor example_agent)\<lparr>p_Epoch := st_Epoch example_doc\<rparr>, 100))"
    "v_ok v2" "v_epoch v2 = v_epoch v1" "v_epochOK v2" "v_cacheTTL v2 = v_cacheTTL v1"
    "contents (v_pos v2) example_raw = Some \<lparr>ce_principal = (principalFor example_agent)\<lparr>p_Epoch := st_Epoch example_doc\<rparr>,
       ce_keyExpiry = 100, ce_cachedAt = 7, ce_epoch = st_Epoch example_doc\<rparr>"
    using begun(4) by auto
  let ?y2 = "?y1\<lparr>sy_v := v2, sy_flight := []\<rparr>"
  have r2: "sys_reach ?sha example_equal 1 ?y2"
    using reach_step [OF r1 step_finish [where y = ?y1 and t = 7 and rq = ?rq and rd = "read_key example_doc (rq_kid ?rq)" and v' = v2 and equal = example_equal]] fin(1) by (simp add: sy_copy_def recent_def)
  have ttl: "v_cacheTTL v2 = 60000000000" using begun(5) fin(5) by (simp add: example_verifier_def New_Verifier_def Let_def DefaultCacheTTL_def Second_def)
  have "\<exists>v'. verify_begin ?sha [] example_raw ClassAgent 8 (Inr (v_epoch v2)) v2
      = Some (v', Decided (Inr ((principalFor example_agent)\<lparr>p_Epoch := st_Epoch example_doc\<rparr>, 100)))"
    using cache_hit [where sha = ?sha and now = 8 and ip = "[]", OF fin(2,4) example_facts(1) fin(6)] fin(3) begun(3) ttl by (simp add: time_Sub_def minInt64_def maxInt64_def)
  then show ?thesis using reach_step [OF r2 step_store [of ?y2 8]] fin(3) begun(3)
    by (intro exI [of _ "?y2\<lparr>sy_clock := 8, sy_behind := [(8, OpRevokeKey ''0123456789'' ''lost'' 8)]\<rparr>"]) simp
qed

text \<open>A revocation made at this very moment is not yet in the copy, and one older than the lag would be.\<close>

theorem cached_acceptance_is_current_witness:
  "\<exists>y. sys_reach (\<lambda>t. t) example_equal 1 y \<and> sy_behind y = [(8, OpRevokeKey ''0123456789'' ''lost'' 8)] \<and>
     (\<exists>early late kid secret k. sy_early y @ sy_behind y = early @ late \<and> (\<forall>(t', op) \<in> set late. 8 \<le> t' + 1)
        \<and> Parse example_raw = Inr (ClassAgent, kid, secret) \<and> GetKey (fst (run_ops early (sy_init y))) kid = Inr k
        \<and> example_equal (k_SecretHMAC k) secret \<and> Usable k 8)"
proof -
  obtain y v' where y: "sys_reach (\<lambda>t. t) example_equal 1 y" "sy_behind y = [(8, OpRevokeKey ''0123456789'' ''lost'' 8)]" "sy_init y = example_doc" "sy_early y = []"
    "sy_clock y = 8" "sy_moves y = 0"
    "verify_begin (\<lambda>t. t) [] example_raw ClassAgent 8 (Inr (st_Epoch example_doc)) (sy_v y)
      = Some (v', Decided (Inr ((principalFor example_agent)\<lparr>p_Epoch := st_Epoch example_doc\<rparr>, 100)))"
    using example_run by blast
  have "recent 1 8 (sy_behind y)" "sy_copy y = example_doc" using y(2-4) by (simp_all add: recent_def sy_copy_def)
  then show ?thesis
    using cached_acceptance_is_current [OF y(1) _ _ _ _ _ y(7)] y(1,2,5,6) by (intro exI [of _ y] conjI) (fastforce simp: inj_on_def)+
qed

end
