(* ===== verification/Go_Strings.thy ===== *)
theory Go_Strings
  imports Fleet_Prelude
begin

text \<open>
  What the components use of Go's \<open>unicode/utf8\<close>, \<open>strings\<close>, \<open>strconv\<close> and \<open>net/url\<close>. A rune is a
  \<open>nat\<close>; a \<open>range\<close> loop over a string and a conversion to \<open>[]rune\<close> decode UTF-8, one replacement rune
  (\<open>U+FFFD\<close>) for every byte that starts no valid sequence.
\<close>

subsection \<open>UTF-8\<close>

definition byte :: "char \<Rightarrow> nat" where
  "byte c = of_char c"

definition RuneError :: nat where
  "RuneError = 0xFFFD"

definition cont :: "char \<Rightarrow> bool" where
  "cont c \<longleftrightarrow> 0x80 \<le> byte c \<and> byte c \<le> 0xBF"

text \<open>\<open>utf8.DecodeRuneInString\<close>: the first rune of a string and its width; the empty string gives width 0.\<close>

definition decode2 :: "nat \<Rightarrow> char \<Rightarrow> nat \<times> nat" where
  "decode2 b0 c1 =
     (if cont c1 then ((b0 - 0xC0) * 64 + (byte c1 - 0x80), 2) else (RuneError, 1))"

definition decode3 :: "nat \<Rightarrow> char \<Rightarrow> char \<Rightarrow> nat \<times> nat" where
  "decode3 b0 c1 c2 =
     (let lo = (if b0 = 0xE0 then 0xA0 else 0x80); hi = (if b0 = 0xED then 0x9F else 0xBF)
      in if lo \<le> byte c1 \<and> byte c1 \<le> hi \<and> cont c2
         then ((b0 - 0xE0) * 4096 + (byte c1 - 0x80) * 64 + (byte c2 - 0x80), 3) else (RuneError, 1))"

definition decode4 :: "nat \<Rightarrow> char \<Rightarrow> char \<Rightarrow> char \<Rightarrow> nat \<times> nat" where
  "decode4 b0 c1 c2 c3 =
     (let lo = (if b0 = 0xF0 then 0x90 else 0x80); hi = (if b0 = 0xF4 then 0x8F else 0xBF)
      in if lo \<le> byte c1 \<and> byte c1 \<le> hi \<and> cont c2 \<and> cont c3
         then ((b0 - 0xF0) * 262144 + (byte c1 - 0x80) * 4096 + (byte c2 - 0x80) * 64 + (byte c3 - 0x80), 4)
         else (RuneError, 1))"

definition decode_rune :: "string \<Rightarrow> nat \<times> nat" where
  "decode_rune s =
     (case s of
        [] \<Rightarrow> (RuneError, 0)
      | c # rest \<Rightarrow>
          (let b = byte c
           in if b < 0x80 then (b, 1)
              else if 0xC2 \<le> b \<and> b \<le> 0xDF then (case rest of c1 # _ \<Rightarrow> decode2 b c1 | _ \<Rightarrow> (RuneError, 1))
              else if 0xE0 \<le> b \<and> b \<le> 0xEF then (case rest of c1 # c2 # _ \<Rightarrow> decode3 b c1 c2 | _ \<Rightarrow> (RuneError, 1))
              else if 0xF0 \<le> b \<and> b \<le> 0xF4 then
                (case rest of c1 # c2 # c3 # _ \<Rightarrow> decode4 b c1 c2 c3 | _ \<Rightarrow> (RuneError, 1))
              else (RuneError, 1)))"

lemma decode_rune_width: "s \<noteq> [] \<Longrightarrow> 1 \<le> snd (decode_rune s)"
  by (auto simp: decode_rune_def decode2_def decode3_def decode4_def Let_def split: list.splits)

lemma decode_rune_le: "snd (decode_rune s) \<le> length s"
  by (auto simp: decode_rune_def decode2_def decode3_def decode4_def Let_def split: list.splits)

text \<open>\<open>[]rune(s)\<close>, and the runes with the bytes each came from.\<close>

function rune_spans :: "string \<Rightarrow> (nat \<times> string) list" where
  "rune_spans s =
     (if s = [] then [] else (let (r, w) = decode_rune s in (r, take w s) # rune_spans (drop w s)))"
  by pat_completeness auto
termination
proof (relation "measure length")
  fix s :: string and x r w assume "s \<noteq> []" "x = decode_rune s" "(r, w) = x"
  moreover from this have "1 \<le> w" using decode_rune_width [of s] by (metis snd_conv)
  ultimately show "(drop w s, s) \<in> measure length" by (cases s) auto
qed simp

declare rune_spans.simps [simp del]

definition runes :: "string \<Rightarrow> nat list" where
  "runes s = map fst (rune_spans s)"

lemma rune_spans_Nil [simp]: "rune_spans [] = []"
  by (simp add: rune_spans.simps)

lemma rune_spans_concat: "concat (map snd (rune_spans s)) = s"
proof (induction s rule: rune_spans.induct)
  case (1 s)
  show ?case
  proof (cases "s = []")
    case False
    have "concat (map snd (rune_spans (drop (snd (decode_rune s)) s))) = drop (snd (decode_rune s)) s"
      using 1 [OF False refl prod.collapse] .
    then show ?thesis using False by (subst rune_spans.simps) (simp add: split_def Let_def)
  qed simp
qed

lemma rune_spans_ascii: "byte c < 0x80 \<Longrightarrow> rune_spans (c # s) = (byte c, [c]) # rune_spans s"
  by (subst rune_spans.simps) (simp add: decode_rune_def Let_def)

lemma runes_ascii: "list_all (\<lambda>c. byte c < 0x80) s \<Longrightarrow> runes s = map byte s"
  by (induction s) (auto simp: runes_def rune_spans_ascii)

lemma byte_inj [simp]: "byte c = byte d \<longleftrightarrow> c = d"
  by (simp add: byte_def)

subsection \<open>Spaces, folding and numbers\<close>

text \<open>\<open>unicode.IsSpace\<close>.\<close>

definition IsSpace :: "nat \<Rightarrow> bool" where
  "IsSpace r \<longleftrightarrow> (0x09 \<le> r \<and> r \<le> 0x0D) \<or> r = 0x20 \<or> r = 0x85 \<or> r = 0xA0 \<or> r = 0x1680
     \<or> (0x2000 \<le> r \<and> r \<le> 0x200A) \<or> r = 0x2028 \<or> r = 0x2029 \<or> r = 0x202F \<or> r = 0x205F \<or> r = 0x3000"

text \<open>\<open>strings.TrimSpace\<close>.\<close>

definition TrimSpace :: "string \<Rightarrow> string" where
  "TrimSpace s =
     concat (map snd (rev (dropWhile (IsSpace \<circ> fst) (rev (dropWhile (IsSpace \<circ> fst) (rune_spans s))))))"

text \<open>
  \<open>strings.EqualFold(s, t)\<close> where \<open>s\<close> is ASCII: letters fold to their other case, and two ASCII letters
  also fold to a letter outside ASCII (the long s and the Kelvin sign).
\<close>

definition lower_ascii :: "nat \<Rightarrow> nat" where
  "lower_ascii r = (if 65 \<le> r \<and> r \<le> 90 then r + 32 else r)"

definition fold_rune :: "nat \<Rightarrow> nat" where
  "fold_rune r = (if r = 0x17F then 115 else if r = 0x212A then 107 else lower_ascii r)"

definition EqualFold :: "string \<Rightarrow> string \<Rightarrow> bool" where
  "EqualFold s t \<longleftrightarrow> map fold_rune (runes s) = map fold_rune (runes t)"

definition is_digit :: "char \<Rightarrow> bool" where
  "is_digit c \<longleftrightarrow> 48 \<le> byte c \<and> byte c \<le> 57"

definition is_letter :: "char \<Rightarrow> bool" where
  "is_letter c \<longleftrightarrow> (65 \<le> byte c \<and> byte c \<le> 90) \<or> (97 \<le> byte c \<and> byte c \<le> 122)"

definition digits_value :: "string \<Rightarrow> nat" where
  "digits_value s = foldl (\<lambda>n c. n * 10 + (byte c - 48)) 0 s"

text \<open>\<open>strconv.ParseInt(s, 10, 64)\<close>; \<open>None\<close> is a syntax or range error.\<close>

definition ParseInt :: "string \<Rightarrow> int option" where
  "ParseInt s =
     (let (neg, ds) = (case s of
            c # rest \<Rightarrow> if c = CHR ''-'' then (True, rest) else if c = CHR ''+'' then (False, rest) else (False, s)
          | [] \<Rightarrow> (False, s))
      in if ds = [] \<or> \<not> list_all is_digit ds then None
         else (let n = int (digits_value ds); v = (if neg then - n else n)
               in if in_int64 v then Some v else None))"

text \<open>\<open>fmt.Sprintf("%d", n)\<close> and \<open>strconv.Itoa\<close> on non-negative numbers.\<close>

fun decimal :: "nat \<Rightarrow> string" where
  "decimal n = (if n < 10 then [char_of (48 + n)] else decimal (n div 10) @ [char_of (48 + n mod 10)])"

declare decimal.simps [simp del]

lemma byte_char_of [simp]: "n < 256 \<Longrightarrow> byte (char_of n) = n"
  by (simp add: byte_def)

lemma digits_value_snoc [simp]: "digits_value (s @ [c]) = digits_value s * 10 + (byte c - 48)"
  by (simp add: digits_value_def)

lemma decimal_digits: "list_all is_digit (decimal n) \<and> decimal n \<noteq> []"
proof (induction n rule: decimal.induct)
  case (1 n)
  have "is_digit (char_of (48 + n mod 10))" for n :: nat by (simp add: is_digit_def byte_def)
  from this [of n] show ?case using 1 by (subst (1 2) decimal.simps) auto
qed

lemma digits_value_decimal [simp]: "digits_value (decimal n) = n"
proof (induction n rule: decimal.induct)
  case (1 n)
  show ?case
  proof (cases "n < 10")
    case True
    then show ?thesis by (subst decimal.simps) (simp add: digits_value_def)
  next
    case False
    then show ?thesis using 1 by (subst decimal.simps) simp
  qed
qed

lemma decimal_inj [simp]: "decimal m = decimal n \<longleftrightarrow> m = n"
  by (metis digits_value_decimal)

lemma ParseInt_decimal: "int n \<le> maxInt64 \<Longrightarrow> ParseInt (decimal n) = Some (int n)"
proof -
  assume n: "int n \<le> maxInt64"
  obtain c s where s: "decimal n = c # s" "is_digit c" using decimal_digits [of n] by (cases "decimal n") auto
  then have "c \<noteq> CHR ''-''" "c \<noteq> CHR ''+''" by (auto simp: is_digit_def byte_def)
  then show ?thesis using n s decimal_digits [of n] digits_value_decimal [of n] by (simp add: ParseInt_def in_int64_def minInt64_def)
qed

subsection \<open>Splitting and escaping\<close>

text \<open>\<open>strings.Cut\<close>: the text before and after the first occurrence of a separator.\<close>

fun Cut :: "string \<Rightarrow> string \<Rightarrow> (string \<times> string) option" where
  "Cut [] p = (if p = [] then Some ([], []) else None)"
| "Cut (c # s) p =
     (if HasPrefix (c # s) p then Some ([], drop (length p) (c # s))
      else map_option (\<lambda>(a, b). (c # a, b)) (Cut s p))"

lemma Cut_Some: "Cut s p = Some (a, b) \<Longrightarrow> s = a @ p @ b"
  by (induction s p arbitrary: a rule: Cut.induct) (auto simp: HasPrefix_iff split: if_splits)

lemma Cut_None: "Cut s p = None \<longleftrightarrow> \<not> Contains s p"
  by (induction s p rule: Cut.induct) auto

text \<open>\<open>strings.Replace(s, old, new, 1)\<close>.\<close>

definition Replace1 :: "string \<Rightarrow> string \<Rightarrow> string \<Rightarrow> string" where
  "Replace1 s old new = (case Cut s old of None \<Rightarrow> s | Some (a, b) \<Rightarrow> a @ new @ b)"

text \<open>\<open>url.PathEscape\<close>.\<close>

definition hex_digit :: "nat \<Rightarrow> char" where
  "hex_digit n = (if n < 10 then char_of (48 + n) else char_of (55 + n))"

definition path_safe :: "char \<Rightarrow> bool" where
  "path_safe c \<longleftrightarrow> is_letter c \<or> is_digit c \<or> c \<in> set ''-_.~$&+:=@''"

definition PathEscape :: "string \<Rightarrow> string" where
  "PathEscape s =
     concat (map (\<lambda>c. if path_safe c then [c] else [CHR ''%'', hex_digit (byte c div 16), hex_digit (byte c mod 16)]) s)"

lemma PathEscape_safe: "list_all path_safe s \<Longrightarrow> PathEscape s = s"
  by (induction s) (auto simp: PathEscape_def)

end
