(* ===== verification/Registry.thy ===== *)
theory Registry
  imports Store_State Go_Strings
begin

text \<open>
  The hub's in-memory view of the fleet, \<open>internal/registry/registry.go\<close>: a pool of tunnel sessions
  per cluster, one slot per spoke pod.

  The code compares slots by pointer, so slots live in an explicit heap \<open>r_heap\<close> and a pool maps
  slot keys to addresses; \<open>r_fresh\<close> is the next unused address. A tunnel session is outside this
  package: it is a number, and what it answers (its certificate identity, its \<open>Describe\<close> reply, its
  generation, whether its \<open>Done\<close> channel is closed) is an argument of the operation that asks.
  Calls of \<open>Session.Close\<close> and of \<open>Metrics.IdentityMismatch\<close> are recorded in \<open>r_closures\<close> and
  \<open>r_mismatches\<close>; logging and the gauges are not modelled. An operation that takes the lock more
  than once is one definition per critical section. \<open>copyCluster\<close> prevents aliasing of maps and
  slices, which values of the model do not have.
\<close>

subsection \<open>The tunnel contract\<close>

record Identity =
  id_ClusterID :: string
  id_CertSerial :: string
  id_CertNotAfter :: gotime
  id_RemoteAddr :: string
  id_InstanceID :: string

record Facts =
  f_Fingerprint :: string
  f_Changed :: bool
  f_Cluster :: Cluster
  f_Generation :: int

text \<open>An error is the list of the sentinels it wraps: \<open>errors.Is\<close> is membership.\<close>

datatype sentinel =
    ErrUnknownCluster | ErrRejectedSession | ErrStaleGeneration | ErrRegistryClosed
  | ErrNotConnected | ErrSessionClosed | ErrResponseTooLarge | ErrOther string

type_synonym reg_error = "sentinel list"

subsection \<open>Registry state\<close>

record slot =
  sl_session :: nat
  sl_generation :: int
  sl_fingerprint :: string
  sl_certSerial :: string
  sl_cancelled :: bool
  sl_facts :: Cluster
  sl_spokeLabels :: labels

record entry =
  e_slots :: "(string, nat) gomap"
  e_rr :: "64 word"
  e_lastCluster :: Cluster

record Registry =
  r_pollInterval :: duration
  r_pollTimeout :: duration
  r_grace :: duration
  r_sweepInterval :: duration
  r_entries :: "(string, entry) gomap"
  r_closed :: bool
  r_anonSeq :: "64 word"
  r_heap :: "nat \<Rightarrow> slot"
  r_fresh :: nat
  r_closures :: "(nat \<times> string \<times> string) list"
  r_mismatches :: "string list"

definition DefaultFactsPollInterval :: duration where "DefaultFactsPollInterval = 60 * Second"
definition DefaultFactsPollTimeout :: duration where "DefaultFactsPollTimeout = 10 * Second"
definition DefaultDisconnectGrace :: duration where "DefaultDisconnectGrace = 5 * Minute"
definition ReplacedReason :: string where "ReplacedReason = ''replaced-by-newer-session''"
definition RevokedReason :: string where "RevokedReason = ''certificate-revoked''"

definition zero_Cluster :: Cluster where
  "zero_Cluster = \<lparr>c_ID = '''', c_DisplayName = '''', c_Description = '''', c_Labels = [], c_State = StateUnset,
     c_LastSeen = 0, c_ConnectedSince = 0, c_AgentVersion = '''', c_ProtocolVersion = '''', c_CertNotAfter = 0,
     c_Kubernetes = \<lparr>ki_Available = False, ki_UnavailableReason = '''', ki_Version = '''', ki_ClusterUID = '''', ki_NodeCount = 0\<rparr>,
     c_Prometheus = \<lparr>pi_Reachable = False, pi_UnreachableReason = '''', pi_Flavor = '''', pi_Version = '''',
       pi_Retention = '''', pi_ScrapeInterval = '''', pi_LookbackDelta = '''', pi_ExternalLabels = [], pi_ActiveSeries = 0,
       pi_MetricNames = 0, pi_Jobs = [], pi_Namespaces = [], pi_MetricPrefixes = [], pi_RuleGroups = 0,
       pi_AlertingRules = 0, pi_FiringAlerts = 0, pi_HasAlertmanager = False\<rparr>\<rparr>"

definition New_Registry :: "(nat \<Rightarrow> slot) \<Rightarrow> duration \<Rightarrow> duration \<Rightarrow> duration \<Rightarrow> duration \<Rightarrow> reg_error + Registry" where
  "New_Registry heap poll timeout grace swp =
     (if poll < 0 then Inl [ErrOther ''facts poll interval is negative'']
      else if timeout < 0 then Inl [ErrOther ''facts poll timeout is negative'']
      else if swp < 0 then Inl [ErrOther ''sweep interval is negative'']
      else
        (let g = (if grace = 0 then DefaultDisconnectGrace else grace);
             g = (if g < 0 then 0 else g)
         in Inr \<lparr>r_pollInterval = (if poll = 0 then DefaultFactsPollInterval else poll),
                 r_pollTimeout = (if timeout = 0 then DefaultFactsPollTimeout else timeout),
                 r_grace = g,
                 r_sweepInterval = (if swp = 0 then min (max (go_div g 4) Second) Minute else swp),
                 r_entries = [], r_closed = False, r_anonSeq = 0,
                 r_heap = heap, r_fresh = 0, r_closures = [], r_mismatches = []\<rparr>))"

subsection \<open>Labels and facts\<close>

text \<open>\<open>authoritativeLabels\<close>: \<open>None\<close> is a nil callback, otherwise its answer for a cluster.\<close>

type_synonym label_source = "(string \<Rightarrow> reg_error + labels) option"

definition mergeLabels :: "label_source \<Rightarrow> string \<Rightarrow> labels \<Rightarrow> reg_error + labels" where
  "mergeLabels auth clusterID reported =
     (case auth of
        None \<Rightarrow> Inr reported
      | Some f \<Rightarrow>
          (case f clusterID of
             Inl err \<Rightarrow> Inl err
           | Inr owned \<Rightarrow>
               if owned = [] then Inr reported
               else Inr (maps_Copy (maps_Copy [] reported) owned)))"

definition noteReportedID :: "string \<Rightarrow> string \<Rightarrow> Registry \<Rightarrow> Registry" where
  "noteReportedID clusterID reported r =
     (if reported = '''' \<or> reported = clusterID then r
      else r\<lparr>r_mismatches := r_mismatches r @ [clusterID]\<rparr>)"

definition connectedState :: "Cluster \<Rightarrow> ClusterState" where
  "connectedState c = (if pi_Reachable (c_Prometheus c) then StateConnected else StateDegraded)"

definition clusterFrom ::
    "label_source \<Rightarrow> gotime \<Rightarrow> string \<Rightarrow> Identity \<Rightarrow> Cluster \<Rightarrow> Registry \<Rightarrow> Registry \<times> (reg_error + Cluster)" where
  "clusterFrom auth now cid ident reported r =
     (noteReportedID cid (c_ID reported) r,
      (case mergeLabels auth cid (c_Labels reported) of
         Inl err \<Rightarrow> Inl err
       | Inr lbls \<Rightarrow>
           (let c = reported\<lparr>c_ID := cid, c_CertNotAfter := id_CertNotAfter ident, c_Labels := lbls,
                             c_LastSeen := now, c_ConnectedSince := now\<rparr>
            in Inr (c\<lparr>c_State := connectedState c\<rparr>))))"

definition slotKey :: "Identity \<Rightarrow> Registry \<Rightarrow> Registry \<times> string" where
  "slotKey ident r =
     (if id_InstanceID ident \<noteq> '''' then (r, ''instance:'' @ id_InstanceID ident)
      else if id_CertSerial ident \<noteq> '''' then (r, ''cert:'' @ id_CertSerial ident)
      else (let n = r_anonSeq r + 1 in (r\<lparr>r_anonSeq := n\<rparr>, ''anon:'' @ decimal (unat n))))"

subsection \<open>Admission\<close>

text \<open>
  \<open>OnSession\<close> up to the write lock. \<open>desc\<close> is the reply to the first \<open>Describe\<close> and \<open>gen0\<close> what
  \<open>Generation\<close> reports after it; the result is the cluster, the slot key and the slot to publish.
\<close>

definition OnSession_begin ::
    "label_source \<Rightarrow> gotime \<Rightarrow> (nat \<times> Identity) option \<Rightarrow> reg_error + Facts \<Rightarrow> int \<Rightarrow> Registry \<Rightarrow>
     Registry \<times> (reg_error + string \<times> string \<times> slot)" where
  "OnSession_begin auth now s desc gen0 r =
     (case s of
        None \<Rightarrow> (r, Inl [ErrRejectedSession])
      | Some (sess, ident) \<Rightarrow>
          if id_ClusterID ident = '''' then (r, Inl [ErrRejectedSession])
          else if r_closed r then (r, Inl [ErrRejectedSession, ErrRegistryClosed])
          else (case desc of
                  Inl err \<Rightarrow> (r, Inl (ErrRejectedSession # err))
                | Inr facts \<Rightarrow>
                    (let cid = id_ClusterID ident;
                         gen = (if gen0 = 0 then f_Generation facts else gen0);
                         (r, key) = slotKey ident r;
                         (r, res) = clusterFrom auth now cid ident (f_Cluster facts) r
                     in case res of
                          Inl err \<Rightarrow> (r, Inl (ErrRejectedSession # err))
                        | Inr cluster \<Rightarrow>
                            (r, Inr (cid, key,
                               \<lparr>sl_session = sess, sl_generation = gen, sl_fingerprint = f_Fingerprint facts,
                                sl_certSerial = id_CertSerial ident, sl_cancelled = False, sl_facts = cluster,
                                sl_spokeLabels = c_Labels (f_Cluster facts)\<rparr>)))))"

definition cancel :: "nat \<Rightarrow> Registry \<Rightarrow> Registry" where
  "cancel p r = r\<lparr>r_heap := (r_heap r)(p := (r_heap r p)\<lparr>sl_cancelled := True\<rparr>)\<rparr>"

definition closeSession :: "nat \<Rightarrow> string \<Rightarrow> string \<Rightarrow> Registry \<Rightarrow> Registry" where
  "closeSession sess cid reason r = r\<lparr>r_closures := r_closures r @ [(sess, cid, reason)]\<rparr>"

definition set_entry :: "string \<Rightarrow> entry \<Rightarrow> Registry \<Rightarrow> Registry" where
  "set_entry cid e r = r\<lparr>r_entries := AList.update cid e (r_entries r)\<rparr>"

text \<open>The critical section that publishes the slot, and the teardown of the session it displaces.\<close>

definition entry_of :: "Registry \<Rightarrow> string \<Rightarrow> entry" where
  "entry_of r cid =
     (case map_of (r_entries r) cid of
        Some e \<Rightarrow> e
      | None \<Rightarrow> \<lparr>e_slots = [], e_rr = 0, e_lastCluster = zero_Cluster\<rparr>)"

definition displace :: "string \<Rightarrow> nat option \<Rightarrow> Registry \<Rightarrow> Registry" where
  "displace cid prev r =
     (case prev of
        None \<Rightarrow> r
      | Some q \<Rightarrow> closeSession (sl_session (r_heap r q)) cid ReplacedReason (cancel q r))"

definition OnSession_publish :: "string \<Rightarrow> string \<Rightarrow> slot \<Rightarrow> Registry \<Rightarrow> Registry \<times> (reg_error + nat)" where
  "OnSession_publish cid key sl r =
     (if r_closed r then (r, Inl [ErrRejectedSession, ErrRegistryClosed])
      else
        (let e = entry_of r cid;
             r = set_entry cid e r;
             prev = map_of (e_slots e) key
         in if (case prev of None \<Rightarrow> False | Some q \<Rightarrow> sl_generation sl < sl_generation (r_heap r q))
            then (r, Inl [ErrStaleGeneration, ErrRejectedSession])
            else
              (let p = r_fresh r;
                   r = r\<lparr>r_heap := (r_heap r)(p := sl), r_fresh := p + 1\<rparr>;
                   r = set_entry cid (e\<lparr>e_slots := AList.update key p (e_slots e)\<rparr>) r
               in (displace cid prev r, Inr p))))"

subsection \<open>Facts refresh\<close>

text \<open>
  \<open>applyFacts\<close> up to the write lock: the labels the spoke reported, merged with the operator's.
  \<open>None\<close> is the early return after a failed lookup.
\<close>

definition applyFacts_begin :: "label_source \<Rightarrow> string \<Rightarrow> nat \<Rightarrow> Facts \<Rightarrow> Registry \<Rightarrow> Registry \<times> (labels \<times> labels) option" where
  "applyFacts_begin auth cid p facts r =
     (let r' = (if f_Changed facts then noteReportedID cid (c_ID (f_Cluster facts)) r else r);
          reported = (if f_Changed facts then c_Labels (f_Cluster facts) else sl_spokeLabels (r_heap r' p))
      in (r', (case mergeLabels auth cid reported of Inl _ \<Rightarrow> None | Inr merged \<Rightarrow> Some (reported, merged))))"

definition holds_slot :: "Registry \<Rightarrow> string \<Rightarrow> string \<Rightarrow> nat \<Rightarrow> bool" where
  "holds_slot r cid key p =
     (case map_of (r_entries r) cid of None \<Rightarrow> False | Some e \<Rightarrow> map_of (e_slots e) key = Some p)"

definition refreshed :: "gotime \<Rightarrow> string \<Rightarrow> Facts \<Rightarrow> labels \<Rightarrow> labels \<Rightarrow> slot \<Rightarrow> slot" where
  "refreshed now cid facts reported merged sl =
     (if \<not> f_Changed facts then sl\<lparr>sl_facts := (sl_facts sl)\<lparr>c_LastSeen := now, c_Labels := merged\<rparr>\<rparr>
      else (let c = (f_Cluster facts)\<lparr>c_ID := cid, c_Labels := merged, c_CertNotAfter := c_CertNotAfter (sl_facts sl),
                                       c_ConnectedSince := c_ConnectedSince (sl_facts sl), c_LastSeen := now\<rparr>
            in sl\<lparr>sl_facts := c\<lparr>c_State := connectedState c\<rparr>, sl_spokeLabels := reported,
                  sl_fingerprint := f_Fingerprint facts\<rparr>))"

definition applyFacts_commit :: "gotime \<Rightarrow> string \<Rightarrow> string \<Rightarrow> nat \<Rightarrow> Facts \<Rightarrow> labels \<Rightarrow> labels \<Rightarrow> Registry \<Rightarrow> Registry" where
  "applyFacts_commit now cid key p facts reported merged r =
     (if \<not> holds_slot r cid key p then r
      else r\<lparr>r_heap := (r_heap r)(p := refreshed now cid facts reported merged (r_heap r p))\<rparr>)"

text \<open>One tick of \<open>pollFacts\<close>, the refresh running without interference.\<close>

definition pollFacts_tick ::
    "label_source \<Rightarrow> gotime \<Rightarrow> (string \<Rightarrow> reg_error + Facts) \<Rightarrow> string \<Rightarrow> string \<Rightarrow> nat \<Rightarrow> Registry \<Rightarrow> Registry" where
  "pollFacts_tick auth now describe cid key p r =
     (case describe (sl_fingerprint (r_heap r p)) of
        Inl _ \<Rightarrow> r
      | Inr facts \<Rightarrow>
          (case applyFacts_begin auth cid p facts r of
             (r', None) \<Rightarrow> r'
           | (r', Some (reported, merged)) \<Rightarrow> applyFacts_commit now cid key p facts reported merged r'))"

subsection \<open>Release and revocation\<close>

definition detachLocked :: "string \<Rightarrow> entry \<Rightarrow> string \<Rightarrow> nat \<Rightarrow> gotime \<Rightarrow> Registry \<Rightarrow> Registry" where
  "detachLocked cid e key p now r =
     (let e = e\<lparr>e_slots := AList.delete key (e_slots e)\<rparr>
      in if e_slots e \<noteq> [] then set_entry cid e r
         else
           (let last = (sl_facts (r_heap r p))\<lparr>c_State := StateDisconnected, c_LastSeen := now, c_ConnectedSince := 0\<rparr>;
                r = set_entry cid (e\<lparr>e_lastCluster := last\<rparr>) r
            in if r_grace r = 0 then r\<lparr>r_entries := AList.delete cid (r_entries r)\<rparr> else r))"

definition release :: "gotime \<Rightarrow> string \<Rightarrow> string \<Rightarrow> nat \<Rightarrow> Registry \<Rightarrow> Registry" where
  "release now cid key p r =
     (let r = cancel p r
      in case map_of (r_entries r) cid of
           None \<Rightarrow> r
         | Some e \<Rightarrow> if map_of (e_slots e) key \<noteq> Some p then r else detachLocked cid e key p now r)"

record victim =
  vi_id :: string
  vi_key :: string
  vi_slot :: nat

text \<open>The three parts of \<open>CloseRevokedBy\<close>: snapshot, judgement with its memo, teardown.\<close>

definition candidates :: "Registry \<Rightarrow> victim list" where
  "candidates r =
     concat (map (\<lambda>(cid, e).
       map (\<lambda>(key, p). \<lparr>vi_id = cid, vi_key = key, vi_slot = p\<rparr>)
         (filter (\<lambda>(key, p). sl_certSerial (r_heap r p) \<noteq> '''') (e_slots e))) (r_entries r))"

fun judge ::
    "('s \<Rightarrow> string \<Rightarrow> 's \<times> bool) \<Rightarrow> (nat \<Rightarrow> slot) \<Rightarrow> victim list \<Rightarrow> (string, bool) gomap \<Rightarrow> 's \<Rightarrow> 's \<times> victim list" where
  "judge isRevoked heap [] verdict s = (s, [])"
| "judge isRevoked heap (c # cs) verdict s =
     (let serial = sl_certSerial (heap (vi_slot c));
          (s, revoked, verdict) =
            (case map_of verdict serial of
               Some b \<Rightarrow> (s, b, verdict)
             | None \<Rightarrow> (let (s, b) = isRevoked s serial in (s, b, AList.update serial b verdict)));
          (s, vs) = judge isRevoked heap cs verdict s
      in (s, if revoked then c # vs else vs))"

fun detach_all :: "gotime \<Rightarrow> victim list \<Rightarrow> Registry \<Rightarrow> Registry \<times> victim list" where
  "detach_all now [] r = (r, [])"
| "detach_all now (v # vs) r =
     (case map_of (r_entries r) (vi_id v) of
        None \<Rightarrow> detach_all now vs r
      | Some e \<Rightarrow>
          if map_of (e_slots e) (vi_key v) \<noteq> Some (vi_slot v) then detach_all now vs r
          else (let (r, cs) = detach_all now vs (detachLocked (vi_id v) e (vi_key v) (vi_slot v) now r) in (r, v # cs)))"

definition close_revoked :: "victim \<Rightarrow> Registry \<Rightarrow> Registry" where
  "close_revoked v r = closeSession (sl_session (r_heap r (vi_slot v))) (vi_id v) RevokedReason (cancel (vi_slot v) r)"

definition closeVictims :: "gotime \<Rightarrow> victim list \<Rightarrow> Registry \<Rightarrow> Registry \<times> string list" where
  "closeVictims now victims r =
     (let (r, closures) = detach_all now victims r in (fold close_revoked closures r, sort (map vi_id closures)))"

definition CloseRevokedBy ::
    "gotime \<Rightarrow> ('s \<Rightarrow> string \<Rightarrow> 's \<times> bool) option \<Rightarrow> 's \<Rightarrow> Registry \<Rightarrow> 's \<times> Registry \<times> string list" where
  "CloseRevokedBy now isRevoked s r =
     (case isRevoked of
        None \<Rightarrow> (s, r, [])
      | Some f \<Rightarrow> (let (s, vs) = judge f (r_heap r) (candidates r) [] s in (s, closeVictims now vs r)))"

definition CloseRevoked :: "gotime \<Rightarrow> string list \<Rightarrow> Registry \<Rightarrow> Registry \<times> string list" where
  "CloseRevoked now serials r =
     (if serials = [] then (r, [])
      else snd (CloseRevokedBy now (Some (\<lambda>u serial. (u, serial \<in> set serials))) () r))"

subsection \<open>Reads\<close>

definition presentLocked :: "entry \<Rightarrow> gotime \<Rightarrow> Registry \<Rightarrow> bool" where
  "presentLocked e now r \<longleftrightarrow> e_slots e \<noteq> [] \<or> time_Sub now (c_LastSeen (e_lastCluster e)) \<le> r_grace r"

text \<open>The keys \<open>pickLocked\<close> chooses among, in its visiting order.\<close>

definition pick_keys :: "(nat \<Rightarrow> bool) \<Rightarrow> (nat \<Rightarrow> slot) \<Rightarrow> entry \<Rightarrow> string list" where
  "pick_keys ended heap e =
     (let live = filter (\<lambda>(k, p). \<not> ended (sl_session (heap p))) (e_slots e);
          healthy = filter (\<lambda>(k, p). pi_Reachable (c_Prometheus (sl_facts (heap p)))) live
      in sort (map fst (if healthy \<noteq> [] then healthy else live)))"

definition pickLocked :: "(nat \<Rightarrow> bool) \<Rightarrow> (nat \<Rightarrow> slot) \<Rightarrow> entry \<Rightarrow> entry \<times> nat option" where
  "pickLocked ended heap e =
     (let keys = pick_keys ended heap e
      in if keys = [] then (e, None)
         else
           (let rr = e_rr e + 1;
                start = unat (and (rr - 1) (mask 31));
                key = keys ! (start mod length keys)
            in (e\<lparr>e_rr := rr\<rparr>, map_option (\<lambda>p. sl_session (heap p)) (map_of (e_slots e) key))))"

definition Session :: "(nat \<Rightarrow> bool) \<Rightarrow> gotime \<Rightarrow> string \<Rightarrow> Registry \<Rightarrow> Registry \<times> (reg_error + nat)" where
  "Session ended now cid r =
     (case map_of (r_entries r) cid of
        None \<Rightarrow> (r, Inl [ErrUnknownCluster, ErrNotConnected])
      | Some e \<Rightarrow>
          if \<not> presentLocked e now r then (r, Inl [ErrUnknownCluster, ErrNotConnected])
          else (case pickLocked ended (r_heap r) e of
                  (e', None) \<Rightarrow> (r, Inl [ErrNotConnected])
                | (e', Some s) \<Rightarrow> (set_entry cid e' r, Inr s)))"

fun merge_loop :: "slot list \<Rightarrow> slot option \<Rightarrow> gotime \<Rightarrow> gotime \<Rightarrow> bool \<Rightarrow> slot option \<times> gotime \<times> gotime \<times> bool" where
  "merge_loop [] freshest lastSeen since reach = (freshest, lastSeen, since, reach)"
| "merge_loop (sl # sls) freshest lastSeen since reach =
     (let c = sl_facts sl
      in merge_loop sls
           (case freshest of None \<Rightarrow> Some sl | Some f \<Rightarrow> if c_LastSeen c > c_LastSeen (sl_facts f) then Some sl else freshest)
           (if c_LastSeen c > lastSeen then c_LastSeen c else lastSeen)
           (if IsZero since \<or> c_ConnectedSince c < since then c_ConnectedSince c else since)
           (reach \<or> pi_Reachable (c_Prometheus c)))"

definition mergedLocked :: "string \<Rightarrow> entry \<Rightarrow> (nat \<Rightarrow> slot) \<Rightarrow> Cluster" where
  "mergedLocked cid e heap =
     (case merge_loop (map (\<lambda>(k, p). heap p) (e_slots e)) None 0 0 False of
        (None, _) \<Rightarrow> e_lastCluster e
      | (Some f, lastSeen, since, reach) \<Rightarrow>
          (sl_facts f)\<lparr>c_ID := cid, c_LastSeen := lastSeen, c_ConnectedSince := since,
                       c_State := (if reach then StateConnected else StateDegraded)\<rparr>)"

definition Cluster_view :: "gotime \<Rightarrow> string \<Rightarrow> Registry \<Rightarrow> Cluster option" where
  "Cluster_view now cid r =
     (case map_of (r_entries r) cid of
        None \<Rightarrow> None
      | Some e \<Rightarrow> if presentLocked e now r then Some (mergedLocked cid e (r_heap r)) else None)"

definition filter_clusters :: "gotime \<Rightarrow> (Cluster \<Rightarrow> bool) option \<Rightarrow> Registry \<Rightarrow> Cluster list" where
  "filter_clusters now keep r =
     sort_key c_ID (filter (\<lambda>c. case keep of None \<Rightarrow> True | Some f \<Rightarrow> f c)
       (map (\<lambda>(cid, e). mergedLocked cid e (r_heap r)) (filter (\<lambda>(cid, e). presentLocked e now r) (r_entries r))))"

definition List_clusters :: "gotime \<Rightarrow> Registry \<Rightarrow> Cluster list" where
  "List_clusters now r = filter_clusters now None r"

definition Visible :: "gotime \<Rightarrow> Principal option \<Rightarrow> Registry \<Rightarrow> Cluster list" where
  "Visible now p r =
     (case p of
        None \<Rightarrow> []
      | Some p \<Rightarrow>
          (case p_Scope p of
             None \<Rightarrow> []
           | Some sc \<Rightarrow> filter_clusters now (Some (\<lambda>c. AllowsCluster (Some sc) (c_ID c) (c_Labels c))) r))"

definition LiveCertSerials :: "Registry \<Rightarrow> string list" where
  "LiveCertSerials r =
     remdups (filter (\<lambda>s. s \<noteq> '''') (concat (map (\<lambda>(cid, e). map (\<lambda>(k, p). sl_certSerial (r_heap r p)) (e_slots e)) (r_entries r))))"

definition connectedLocked :: "Registry \<Rightarrow> nat" where
  "connectedLocked r = length (filter (\<lambda>(cid, e). e_slots e \<noteq> []) (r_entries r))"

definition ConnectedCount :: "Registry \<Rightarrow> nat" where
  "ConnectedCount r = connectedLocked r"

subsection \<open>Eviction and shutdown\<close>

definition sweep :: "gotime \<Rightarrow> Registry \<Rightarrow> Registry \<times> nat" where
  "sweep now r =
     (let kept = filter (\<lambda>(cid, e). presentLocked e now r) (r_entries r)
      in (r\<lparr>r_entries := kept\<rparr>, length (r_entries r) - length kept))"

definition close_slot :: "string \<Rightarrow> string \<times> nat \<Rightarrow> Registry \<Rightarrow> Registry" where
  "close_slot reason = (\<lambda>(cid, p) r. closeSession (sl_session (r_heap r p)) cid reason (cancel p r))"

definition Close :: "string \<Rightarrow> Registry \<Rightarrow> Registry" where
  "Close reason r =
     (if r_closed r then r
      else
        (let targets = concat (map (\<lambda>(cid, e). map (\<lambda>(k, p). (cid, p)) (e_slots e)) (r_entries r))
         in fold (close_slot reason) targets (r\<lparr>r_closed := True, r_entries := []\<rparr>)))"

subsection \<open>Which session holds which slot\<close>

definition slot_at :: "Registry \<Rightarrow> string \<Rightarrow> string \<Rightarrow> nat option" where
  "slot_at r cid key = (case map_of (r_entries r) cid of None \<Rightarrow> None | Some e \<Rightarrow> map_of (e_slots e) key)"

lemma holds_slot_iff: "holds_slot r cid key p \<longleftrightarrow> slot_at r cid key = Some p"
  by (simp add: holds_slot_def slot_at_def split: option.splits)

lemma slot_at_entry: "map_of (r_entries r) cid = Some e \<Longrightarrow> slot_at r cid key = map_of (e_slots e) key"
  by (simp add: slot_at_def)

lemma slot_at_cong: "r_entries r' = r_entries r \<Longrightarrow> slot_at r' = slot_at r"
  by (simp add: slot_at_def fun_eq_iff)

lemma inert_fields [simp]:
  "r_entries (cancel p r) = r_entries r" "r_entries (closeSession s c why r) = r_entries r"
  "r_entries (noteReportedID a b r) = r_entries r" "r_heap (noteReportedID a b r) = r_heap r"
  "r_fresh (noteReportedID a b r) = r_fresh r" "r_fresh (cancel p r) = r_fresh r" "r_fresh (closeSession s c why r) = r_fresh r"
  "r_heap (closeSession s c why r) = r_heap r" "r_heap (set_entry c e r) = r_heap r" "r_fresh (set_entry c e r) = r_fresh r"
  "r_grace (set_entry c e r) = r_grace r" "r_grace (cancel p r) = r_grace r" "r_grace (closeSession s c why r) = r_grace r"
  "r_entries (set_entry c e r) = AList.update c e (r_entries r)" "sl_facts (r_heap (cancel p r) q) = sl_facts (r_heap r q)"
  "r_closed (set_entry c e r) = r_closed r" "r_closed (cancel p r) = r_closed r" "r_closed (closeSession s c why r) = r_closed r"
  "sl_certSerial (r_heap (cancel p r) q) = sl_certSerial (r_heap r q)" "sl_session (r_heap (cancel p r) q) = sl_session (r_heap r q)"
  "sl_generation (r_heap (cancel p r) q) = sl_generation (r_heap r q)"
  by (simp_all add: cancel_def closeSession_def noteReportedID_def set_entry_def)

lemma slot_at_inert [simp]:
  "slot_at (cancel p r) = slot_at r" "slot_at (closeSession s c why r) = slot_at r" "slot_at (noteReportedID a b r) = slot_at r"
  by (rule slot_at_cong, simp)+

lemma slot_at_set_entry: "slot_at (set_entry cid e r) c k = (if c = cid then map_of (e_slots e) k else slot_at r c k)"
  by (simp add: slot_at_def)

lemma detach_slot_at:
  assumes "map_of (r_entries r) cid = Some e"
  shows "slot_at (detachLocked cid e key p now r) c k = (if c = cid \<and> k = key then None else slot_at r c k)"
proof (cases "AList.delete key (e_slots e) = []")
  case True
  then have "map_of (e_slots e) k = None" if "k \<noteq> key" using that map_of_adelete [of key "e_slots e" k] by simp
  then show ?thesis using assms True by (auto simp: detachLocked_def Let_def slot_at_def set_entry_def)
next
  case False
  then show ?thesis using assms by (auto simp: detachLocked_def Let_def slot_at_set_entry slot_at_entry)
qed

lemma detach_fields [simp]:
  "r_heap (detachLocked cid e key p now r) = r_heap r" "r_fresh (detachLocked cid e key p now r) = r_fresh r"
  "r_closed (detachLocked cid e key p now r) = r_closed r" "r_grace (detachLocked cid e key p now r) = r_grace r"
  "r_closures (detachLocked cid e key p now r) = r_closures r"
  by (simp_all add: detachLocked_def Let_def set_entry_def)

lemma detach_entry:
  assumes "map_of (r_entries (detachLocked cid e key p now r)) c = Some e'"
  shows "(c \<noteq> cid \<and> map_of (r_entries r) c = Some e') \<or>
    (c = cid \<and> e_slots e' = AList.delete key (e_slots e) \<and>
      (e_slots e' \<noteq> [] \<or> e_lastCluster e' = (sl_facts (r_heap r p))\<lparr>c_State := StateDisconnected, c_LastSeen := now, c_ConnectedSince := 0\<rparr>))"
  using assms by (auto simp: detachLocked_def Let_def set_entry_def split: if_splits)

lemma wf_detach: "wf_map (r_entries r) \<Longrightarrow> wf_map (r_entries (detachLocked cid e key p now r))"
  by (simp add: detachLocked_def Let_def)

lemma release_slot_at:
  "slot_at (release now cid key p r) c k = (if c = cid \<and> k = key \<and> slot_at r cid key = Some p then None else slot_at r c k)"
proof (cases "slot_at r cid key = Some p")
  case True
  then obtain e where e: "map_of (r_entries r) cid = Some e" "map_of (e_slots e) key = Some p"
    by (auto simp: slot_at_def split: option.splits)
  then show ?thesis using True detach_slot_at [of "cancel p r" cid e] by (simp add: release_def Let_def)
next
  case False
  then show ?thesis by (auto simp: release_def Let_def slot_at_def split: option.splits)
qed

lemma displace_fields [simp]:
  "r_entries (displace cid prev r) = r_entries r" "r_fresh (displace cid prev r) = r_fresh r" "r_grace (displace cid prev r) = r_grace r"
  "r_closed (displace cid prev r) = r_closed r" "sl_facts (r_heap (displace cid prev r) q) = sl_facts (r_heap r q)"
  "sl_certSerial (r_heap (displace cid prev r) q) = sl_certSerial (r_heap r q)"
  "sl_generation (r_heap (displace cid prev r) q) = sl_generation (r_heap r q)"
  "sl_session (r_heap (displace cid prev r) q) = sl_session (r_heap r q)"
  by (simp_all add: displace_def split: option.splits)

lemma entry_of_slots: "map_of (e_slots (entry_of r cid)) key = slot_at r cid key"
  by (simp add: entry_of_def slot_at_def split: option.splits)

definition admits :: "Registry \<Rightarrow> string \<Rightarrow> string \<Rightarrow> slot \<Rightarrow> bool" where
  "admits r cid key sl \<longleftrightarrow>
     \<not> r_closed r \<and> (case slot_at r cid key of None \<Rightarrow> True | Some q \<Rightarrow> sl_generation (r_heap r q) \<le> sl_generation sl)"

lemma publish_admits:
  assumes "admits r cid key sl"
  shows "OnSession_publish cid key sl r =
    (displace cid (slot_at r cid key)
       (set_entry cid ((entry_of r cid)\<lparr>e_slots := AList.update key (r_fresh r) (e_slots (entry_of r cid))\<rparr>)
         ((set_entry cid (entry_of r cid) r)\<lparr>r_heap := (r_heap r)(r_fresh r := sl), r_fresh := r_fresh r + 1\<rparr>)),
     Inr (r_fresh r))"
  using assms by (simp add: OnSession_publish_def Let_def admits_def entry_of_slots split: option.splits)

lemma set_entry_of: "slot_at r cid key \<noteq> None \<Longrightarrow> set_entry cid (entry_of r cid) r = r"
  by (auto simp: set_entry_def entry_of_def slot_at_def update_triv split: option.splits)

lemma publish_refuses:
  assumes "\<not> admits r cid key sl"
  shows "fst (OnSession_publish cid key sl r) = r"
    and "snd (OnSession_publish cid key sl r) =
      Inl (if r_closed r then [ErrRejectedSession, ErrRegistryClosed] else [ErrStaleGeneration, ErrRejectedSession])"
  using assms set_entry_of [of r cid key]
  by (auto simp: OnSession_publish_def Let_def admits_def entry_of_slots split: option.splits)

lemma publish_slot_at:
  "slot_at (fst (OnSession_publish cid key sl r)) c k =
    (if admits r cid key sl \<and> c = cid \<and> k = key then Some (r_fresh r) else slot_at r c k)"
proof (cases "admits r cid key sl")
  case True
  then show ?thesis
    by (simp add: publish_admits slot_at_cong [OF displace_fields(1)] slot_at_set_entry entry_of_slots)
      (simp add: slot_at_def)
next
  case False
  then show ?thesis by (simp add: publish_refuses)
qed

subsection \<open>The registry as a system of critical sections\<close>

text \<open>
  Every step is one critical section. What a goroutine computed before taking the lock may be of any
  age: a slot is published that was prepared against any earlier registry, a refresh commits labels
  merged at any time, a release or a teardown names any slot. \<open>pol\<close> is the set of answers the
  operator's label source may give.
\<close>

inductive reg_step :: "label_source set \<Rightarrow> Registry \<Rightarrow> Registry \<Rightarrow> bool" for pol where
  step_prepare: "OnSession_begin auth now s desc gen0 r = (r', res) \<Longrightarrow> reg_step pol r r'"
| step_publish: "auth \<in> pol \<Longrightarrow> OnSession_begin auth now s desc gen0 r0 = (r1, Inr (cid, key, sl)) \<Longrightarrow>
    reg_step pol r (fst (OnSession_publish cid key sl r))"
| step_describe: "applyFacts_begin auth cid p facts r = (r', res) \<Longrightarrow> reg_step pol r r'"
| step_refresh: "auth \<in> pol \<Longrightarrow> mergeLabels auth cid reported = Inr merged \<Longrightarrow>
    reg_step pol r (applyFacts_commit now cid key p facts reported merged r)"
| step_release: "reg_step pol r (release now cid key p r)"
| step_victims: "reg_step pol r (fst (closeVictims now vs r))"
| step_session: "reg_step pol r (fst (Session ended now cid r))"
| step_sweep: "reg_step pol r (fst (sweep now r))"
| step_close: "reg_step pol r (Close reason r)"

abbreviation reg_steps :: "label_source set \<Rightarrow> Registry \<Rightarrow> Registry \<Rightarrow> bool" where
  "reg_steps pol \<equiv> (reg_step pol)\<^sup>*\<^sup>*"

definition entry_good :: "(string \<Rightarrow> labels \<Rightarrow> bool) \<Rightarrow> string \<Rightarrow> entry \<Rightarrow> bool" where
  "entry_good G cid e \<longleftrightarrow>
     wf_map (e_slots e)
     \<and> (e_slots e = [] \<longrightarrow> c_ID (e_lastCluster e) = cid \<and> G cid (c_Labels (e_lastCluster e))
          \<and> c_State (e_lastCluster e) = StateDisconnected)"

definition slot_good :: "(string \<Rightarrow> labels \<Rightarrow> bool) \<Rightarrow> string \<Rightarrow> slot \<Rightarrow> bool" where
  "slot_good G cid sl \<longleftrightarrow> c_ID (sl_facts sl) = cid \<and> G cid (c_Labels (sl_facts sl))"

definition reg_inv :: "(string \<Rightarrow> labels \<Rightarrow> bool) \<Rightarrow> Registry \<Rightarrow> bool" where
  "reg_inv G r \<longleftrightarrow>
     wf_map (r_entries r)
     \<and> (\<forall>cid e. map_of (r_entries r) cid = Some e \<longrightarrow> entry_good G cid e)
     \<and> (\<forall>cid key p. slot_at r cid key = Some p \<longrightarrow> p < r_fresh r \<and> slot_good G cid (r_heap r p))
     \<and> (\<forall>cid key cid' key' p. slot_at r cid key = Some p \<longrightarrow> slot_at r cid' key' = Some p \<longrightarrow> cid = cid' \<and> key = key')"

lemma reg_invD:
  assumes "reg_inv G r"
  shows "wf_map (r_entries r)" and "map_of (r_entries r) cid = Some e \<Longrightarrow> entry_good G cid e"
    and "slot_at r cid key = Some p \<Longrightarrow> p < r_fresh r" and "slot_at r cid key = Some p \<Longrightarrow> slot_good G cid (r_heap r p)"
    and "slot_at r cid key = Some p \<Longrightarrow> slot_at r cid' key' = Some p \<Longrightarrow> cid = cid' \<and> key = key'"
  using assms unfolding reg_inv_def by blast+

text \<open>A step that only moves or removes slots keeps the invariant.\<close>

lemma reg_inv_sub:
  assumes "reg_inv G r" and "wf_map (r_entries r')" and "\<And>cid e. map_of (r_entries r') cid = Some e \<Longrightarrow> entry_good G cid e"
    and "\<And>cid key p. slot_at r' cid key = Some p \<Longrightarrow> slot_at r cid key = Some p"
    and "r_fresh r' = r_fresh r" and "\<And>p. sl_facts (r_heap r' p) = sl_facts (r_heap r p)"
  shows "reg_inv G r'"
  unfolding reg_inv_def
proof (intro conjI allI impI assms(2,3))
  fix cid key p assume "slot_at r' cid key = Some p"
  then have "slot_at r cid key = Some p" by (rule assms(4))
  then show "p < r_fresh r'" "slot_good G cid (r_heap r' p)"
    using reg_invD(3,4) [OF assms(1)] assms(5,6) by (simp_all add: slot_good_def)
next
  fix cid key cid' key' p assume "slot_at r' cid key = Some p" "slot_at r' cid' key' = Some p"
  then have "slot_at r cid key = Some p" "slot_at r cid' key' = Some p" by (auto intro: assms(4))
  then show "cid = cid'" "key = key'" using reg_invD(5) [OF assms(1)] by blast+
qed

lemma detach_inv:
  assumes "reg_inv G r" and "map_of (r_entries r) cid = Some e" and "map_of (e_slots e) key = Some p"
  shows "reg_inv G (detachLocked cid e key p now r)"
proof (rule reg_inv_sub [OF assms(1)])
  show "wf_map (r_entries (detachLocked cid e key p now r))" using reg_invD(1) [OF assms(1)] by (rule wf_detach)
  have good: "entry_good G cid e" using reg_invD(2) [OF assms(1,2)] .
  have slot: "slot_good G cid (r_heap r p)" using reg_invD(4) [OF assms(1)] slot_at_entry [OF assms(2)] assms(3) by simp
  fix c e' assume "map_of (r_entries (detachLocked cid e key p now r)) c = Some e'"
  then show "entry_good G c e'"
    using good slot reg_invD(2) [OF assms(1)] by (auto dest!: detach_entry simp: entry_good_def slot_good_def)
next
  fix c k q assume "slot_at (detachLocked cid e key p now r) c k = Some q"
  then show "slot_at r c k = Some q" by (simp add: detach_slot_at [OF assms(2)] split: if_splits)
qed simp_all

lemma reg_inv_heap:
  assumes "reg_inv G r" and "r_entries r' = r_entries r" and "r_fresh r' = r_fresh r" and "\<And>p. sl_facts (r_heap r' p) = sl_facts (r_heap r p)"
  shows "reg_inv G r'"
proof (rule reg_inv_sub [OF assms(1)])
  show "wf_map (r_entries r')" using reg_invD(1) [OF assms(1)] assms(2) by simp
  show "entry_good G cid e" if "map_of (r_entries r') cid = Some e" for cid e using reg_invD(2) [OF assms(1)] assms(2) that by simp
  show "slot_at r cid key = Some p" if "slot_at r' cid key = Some p" for cid key p using that slot_at_cong [OF assms(2)] by simp
qed (use assms(3,4) in simp_all)

lemma release_inv:
  assumes "reg_inv G r"
  shows "reg_inv G (release now cid key p r)"
proof -
  have inv: "reg_inv G (cancel p r)" using assms by (rule reg_inv_heap) simp_all
  then show ?thesis using detach_inv [OF inv] by (auto simp: release_def Let_def split: option.splits)
qed

lemma detach_all_inv: "reg_inv G r \<Longrightarrow> reg_inv G (fst (detach_all now vs r))"
  by (induction now vs r rule: detach_all.induct) (auto simp: split_def Let_def detach_inv split: option.splits)

lemma close_revoked_fields [simp]:
  "r_entries (close_revoked v r) = r_entries r" "r_fresh (close_revoked v r) = r_fresh r"
  "sl_facts (r_heap (close_revoked v r) p) = sl_facts (r_heap r p)" "sl_session (r_heap (close_revoked v r) p) = sl_session (r_heap r p)"
  "sl_certSerial (r_heap (close_revoked v r) p) = sl_certSerial (r_heap r p)"
  "r_closures (close_revoked v r) = r_closures r @ [(sl_session (r_heap r (vi_slot v)), vi_id v, RevokedReason)]"
  by (simp_all add: close_revoked_def) (simp add: closeSession_def cancel_def)

lemma fold_close_fields:
  "r_entries (fold close_revoked cs r) = r_entries r" "r_fresh (fold close_revoked cs r) = r_fresh r"
  "sl_facts (r_heap (fold close_revoked cs r) p) = sl_facts (r_heap r p)"
  "sl_certSerial (r_heap (fold close_revoked cs r) p) = sl_certSerial (r_heap r p)"
  by (induction cs arbitrary: r) simp_all

lemma fold_close_closures:
  "r_closures (fold close_revoked cs r) = r_closures r @ map (\<lambda>v. (sl_session (r_heap r (vi_slot v)), vi_id v, RevokedReason)) cs"
  by (induction cs arbitrary: r) simp_all

lemma closeVictims_inv:
  assumes "reg_inv G r"
  shows "reg_inv G (fst (closeVictims now vs r))"
proof -
  have "fst (closeVictims now vs r) = fold close_revoked (snd (detach_all now vs r)) (fst (detach_all now vs r))"
    by (simp add: closeVictims_def split_def Let_def)
  then show ?thesis using reg_inv_heap [OF detach_all_inv [OF assms]] fold_close_fields by simp
qed

lemma sweep_inv:
  assumes "reg_inv G r"
  shows "reg_inv G (fst (sweep now r))"
proof -
  have wf: "wf_map (r_entries r)" using reg_invD(1) [OF assms] .
  show ?thesis
  proof (rule reg_inv_sub [OF assms])
    show "wf_map (r_entries (fst (sweep now r)))" using wf by (simp add: sweep_def Let_def)
    show "entry_good G cid e" if "map_of (r_entries (fst (sweep now r))) cid = Some e" for cid e
      using that reg_invD(2) [OF assms] by (simp add: sweep_def Let_def map_of_filter_wf [OF wf] split: option.splits if_splits)
    show "slot_at r cid key = Some p" if "slot_at (fst (sweep now r)) cid key = Some p" for cid key p
      using that by (simp add: sweep_def Let_def slot_at_def map_of_filter_wf [OF wf] split: option.splits if_splits)
  qed (simp_all add: sweep_def Let_def)
qed

lemma Session_inv:
  assumes "reg_inv G r"
  shows "reg_inv G (fst (Session ended now cid r))"
proof (cases "\<exists>e e' s. map_of (r_entries r) cid = Some e \<and> presentLocked e now r \<and> pickLocked ended (r_heap r) e = (e', Some s)")
  case True
  then obtain e e' s where e: "map_of (r_entries r) cid = Some e" "presentLocked e now r" "pickLocked ended (r_heap r) e = (e', Some s)" by blast
  then have e': "e_slots e' = e_slots e" "e_lastCluster e' = e_lastCluster e"
    by (auto simp: pickLocked_def Let_def split: if_splits)
  have "fst (Session ended now cid r) = set_entry cid e' r" using e by (simp add: Session_def)
  moreover have "reg_inv G (set_entry cid e' r)"
  proof (rule reg_inv_sub [OF assms])
    show "wf_map (r_entries (set_entry cid e' r))" using reg_invD(1) [OF assms] by simp
    show "entry_good G c x" if "map_of (r_entries (set_entry cid e' r)) c = Some x" for c x
      using that reg_invD(2) [OF assms] e(1) e' by (auto simp: entry_good_def split: if_splits)
    show "slot_at r c k = Some p" if "slot_at (set_entry cid e' r) c k = Some p" for c k p
      using that e(1) e' by (simp add: slot_at_set_entry slot_at_entry split: if_splits)
  qed simp_all
  ultimately show ?thesis by simp
next
  case False
  then have "fst (Session ended now cid r) = r" by (auto simp: Session_def split: option.splits prod.splits)
  then show ?thesis using assms by simp
qed

lemma fold_close_slot:
  "r_entries (fold (close_slot reason) ts r) = r_entries r" "r_fresh (fold (close_slot reason) ts r) = r_fresh r"
  "r_closed (fold (close_slot reason) ts r) = r_closed r"
  by (induction ts arbitrary: r) (simp_all add: close_slot_def split_def)

lemma Close_inv: "reg_inv G r \<Longrightarrow> reg_inv G (Close reason r)"
  by (auto simp: Close_def Let_def reg_inv_def slot_at_def fold_close_slot)

lemma publish_inv:
  assumes "reg_inv G r" and "slot_good G cid sl"
  shows "reg_inv G (fst (OnSession_publish cid key sl r))"
proof (cases "admits r cid key sl")
  case True
  let ?r = "fst (OnSession_publish cid key sl r)"
  have fresh: "r_fresh ?r = r_fresh r + 1" and ent: "r_entries ?r = AList.update cid ((entry_of r cid)\<lparr>e_slots := AList.update key (r_fresh r) (e_slots (entry_of r cid))\<rparr>) (r_entries r)"
    and heap: "sl_facts (r_heap ?r p) = sl_facts (if p = r_fresh r then sl else r_heap r p)" for p
    using True by (simp_all add: publish_admits)
  have at: "slot_at ?r c k = (if c = cid \<and> k = key then Some (r_fresh r) else slot_at r c k)" for c k
    using True by (simp add: publish_slot_at)
  have old: "slot_at r c k \<noteq> Some (r_fresh r)" for c k using reg_invD(3) [OF assms(1)] by blast
  have "wf_map (e_slots (entry_of r cid))"
    using reg_invD(2) [OF assms(1)] by (auto simp: entry_of_def entry_good_def split: option.splits)
  moreover have "AList.update key (r_fresh r) m \<noteq> []" for m by (cases m) auto
  ultimately have entries: "entry_good G c e" if "map_of (r_entries ?r) c = Some e" for c e
    using that reg_invD(2) [OF assms(1)] by (auto simp: ent entry_good_def split: if_splits)
  show ?thesis unfolding reg_inv_def
  proof (intro conjI allI impI entries)
    show "wf_map (r_entries ?r)" using reg_invD(1) [OF assms(1)] by (simp add: ent)
    show "p < r_fresh ?r" if "slot_at ?r c k = Some p" for c k p
      using that reg_invD(3) [OF assms(1)] by (auto simp: at fresh less_Suc_eq split: if_splits)
    show "slot_good G c (r_heap ?r p)" if "slot_at ?r c k = Some p" for c k p
      using that assms(2) old reg_invD(4) [OF assms(1)] by (auto simp: at slot_good_def heap split: if_splits)
    show "c = c'" "k = k'" if "slot_at ?r c k = Some p" "slot_at ?r c' k' = Some p" for c k c' k' p
      using that old reg_invD(5) [OF assms(1)] by (auto simp: at split: if_splits)
  qed
next
  case False
  then show ?thesis using assms(1) by (simp add: publish_refuses)
qed

lemma refresh_inv:
  assumes "reg_inv G r" and "G cid merged"
  shows "reg_inv G (applyFacts_commit now cid key p facts reported merged r)"
proof (cases "slot_at r cid key = Some p")
  case True
  let ?r = "applyFacts_commit now cid key p facts reported merged r"
  have r: "r_entries ?r = r_entries r" "r_fresh ?r = r_fresh r"
    "r_heap ?r = (r_heap r)(p := refreshed now cid facts reported merged (r_heap r p))"
    using True by (simp_all add: applyFacts_commit_def holds_slot_iff)
  have new: "slot_good G cid (refreshed now cid facts reported merged (r_heap r p))"
    using reg_invD(4) [OF assms(1) True] assms(2) by (simp add: slot_good_def refreshed_def Let_def)
  have "slot_good G c (r_heap ?r q)" if "slot_at r c k = Some q" for c k q
    using that new reg_invD(4) [OF assms(1) that] reg_invD(5) [OF assms(1) True, of c k] unfolding r(3) by (cases "q = p") simp_all
  then show ?thesis using assms(1) unfolding reg_inv_def by (simp add: r(1,2) slot_at_cong [OF r(1)])
next
  case False
  then show ?thesis using assms(1) by (simp add: applyFacts_commit_def holds_slot_iff)
qed

lemma begin_fields:
  assumes "OnSession_begin auth now s desc gen0 r = (r', res)"
  shows "r_entries r' = r_entries r \<and> r_fresh r' = r_fresh r \<and> r_heap r' = r_heap r"
  using assms
  by (auto simp: OnSession_begin_def Let_def slotKey_def clusterFrom_def split_def split: option.splits sum.splits if_splits)

lemma begin_prepares:
  assumes "OnSession_begin auth now s desc gen0 r = (r', Inr (cid, key, sl))"
  obtains sess ident facts lbls where "s = Some (sess, ident)" "cid = id_ClusterID ident" "desc = Inr facts"
    "mergeLabels auth cid (c_Labels (f_Cluster facts)) = Inr lbls" "c_ID (sl_facts sl) = cid" "c_Labels (sl_facts sl) = lbls"
    "sl_session sl = sess" "sl_certSerial sl = id_CertSerial ident" "c_CertNotAfter (sl_facts sl) = id_CertNotAfter ident"
    "sl_spokeLabels sl = c_Labels (f_Cluster facts)"
  using assms
  by (auto simp: OnSession_begin_def Let_def clusterFrom_def split_def split: option.splits sum.splits if_splits)

subsection \<open>Labels decide who may see a cluster\<close>

text \<open>
  The contract of the operator's label source: whatever a spoke reports, the labels merged from it
  satisfy \<open>G\<close>. Every view of the cluster then does, however sessions come and go.
\<close>

locale label_policy =
  fixes pol :: "label_source set" and G :: "string \<Rightarrow> labels \<Rightarrow> bool"
  assumes merged_good: "auth \<in> pol \<Longrightarrow> mergeLabels auth cid reported = Inr merged \<Longrightarrow> G cid merged"
begin

lemma step_keeps:
  assumes "reg_step pol r r'" and "reg_inv G r"
  shows "reg_inv G r'"
  using assms(1)
proof cases
  case (step_publish auth now s desc gen0 r0 r1 cid key sl)
  then have "slot_good G cid sl" by (auto elim!: begin_prepares simp: slot_good_def dest: merged_good)
  then show ?thesis using step_publish(1) publish_inv [OF assms(2)] by simp
next
  case (step_refresh auth cid reported merged now key p facts)
  then show ?thesis using refresh_inv [OF assms(2)] merged_good by simp
next
  case (step_prepare auth now s desc gen0 res)
  then show ?thesis using begin_fields reg_inv_heap [OF assms(2)] by simp
next
  case (step_describe auth cid p facts res)
  then have "r_entries r' = r_entries r" "r_fresh r' = r_fresh r" "r_heap r' = r_heap r"
    by (auto simp: applyFacts_begin_def Let_def split: if_splits)
  then show ?thesis using reg_inv_heap [OF assms(2)] by simp
qed (simp_all add: assms(2) release_inv closeVictims_inv Session_inv sweep_inv Close_inv)

lemma steps_keep: "reg_steps pol r r' \<Longrightarrow> reg_inv G r \<Longrightarrow> reg_inv G r'"
  by (induction rule: rtranclp_induct) (auto intro: step_keeps)

end

subsection \<open>The merged view\<close>

definition seen_at :: "slot \<Rightarrow> gotime" where "seen_at sl = c_LastSeen (sl_facts sl)"
definition since_at :: "slot \<Rightarrow> gotime" where "since_at sl = c_ConnectedSince (sl_facts sl)"
definition reaches :: "slot \<Rightarrow> bool" where "reaches sl = pi_Reachable (c_Prometheus (sl_facts sl))"

lemma merge_loop_freshest:
  "merge_loop sls (Some f) l s b = (f', l', s', b') \<Longrightarrow>
   \<exists>x \<in> insert f (set sls). f' = Some x \<and> (\<forall>y \<in> insert f (set sls). seen_at y \<le> seen_at x)"
proof (induction sls arbitrary: f l s b)
  case (Cons a sls)
  let ?f = "if seen_at a > seen_at f then a else f"
  have "\<exists>l1 s1 b1. merge_loop sls (Some ?f) l1 s1 b1 = (f', l', s', b')"
    using Cons.prems by (cases "seen_at a > seen_at f") (simp_all add: Let_def seen_at_def, blast+)
  then obtain x where "x \<in> insert ?f (set sls)" "f' = Some x" "\<forall>y \<in> insert ?f (set sls). seen_at y \<le> seen_at x"
    using Cons.IH [of ?f] by blast
  then show ?case by (intro bexI [of _ x]) (auto split: if_splits)
qed simp

lemma merge_loop_folds:
  "snd (merge_loop sls f l s b) =
    (fold (\<lambda>x. max (seen_at x)) sls l,
     fold (\<lambda>x t. if IsZero t then since_at x else min (since_at x) t) sls s, b \<or> (\<exists>x \<in> set sls. reaches x))"
proof (induction sls arbitrary: f l s b)
  case (Cons a sls)
  have "(if c_LastSeen (sl_facts a) > l then c_LastSeen (sl_facts a) else l) = max (seen_at a) l"
    "(if IsZero s \<or> c_ConnectedSince (sl_facts a) < s then c_ConnectedSince (sl_facts a) else s) = (if IsZero s then since_at a else min (since_at a) s)"
    by (simp_all add: seen_at_def since_at_def max_def min_def)
  then show ?case using Cons.IH by (simp add: Let_def reaches_def disj_ac)
qed simp

lemma fold_since:
  assumes "\<forall>x \<in> set sls. 0 < since_at x" and "0 < s"
  shows "fold (\<lambda>x t. if IsZero t then since_at x else min (since_at x) t) sls s = Min (insert s (since_at ` set sls))"
  using assms
proof (induction sls arbitrary: s)
  case (Cons a sls)
  have "insert (min (since_at a) s) (since_at ` set sls) \<noteq> {}" by simp
  have "Min (insert (min (since_at a) s) (since_at ` set sls)) = Min (insert s (insert (since_at a) (since_at ` set sls)))"
    by (cases "sls = []") (simp_all add: min.commute min.left_commute)
  then show ?case using Cons by simp
qed simp

lemma fold_seen:
  "0 \<le> l \<Longrightarrow> fold (\<lambda>x. max (seen_at x)) sls l = Max (insert l (seen_at ` set sls))"
proof (induction sls arbitrary: l)
  case (Cons a sls)
  have "Max (insert (max (seen_at a) l) (seen_at ` set sls)) = Max (insert l (insert (seen_at a) (seen_at ` set sls)))"
    by (cases "sls = []") (simp_all add: max.commute max.left_commute)
  then show ?case using Cons by simp
qed simp

lemma mergedLocked_pool:
  assumes "e_slots e \<noteq> []"
  obtains k p where "(k, p) \<in> set (e_slots e)" "\<forall>(k', p') \<in> set (e_slots e). seen_at (heap p') \<le> seen_at (heap p)"
    "mergedLocked cid e heap = (sl_facts (heap p))\<lparr>c_ID := cid,
       c_LastSeen := fold (\<lambda>x. max (seen_at x)) (map (\<lambda>(k, p). heap p) (e_slots e)) 0,
       c_ConnectedSince := fold (\<lambda>x t. if IsZero t then since_at x else min (since_at x) t) (map (\<lambda>(k, p). heap p) (e_slots e)) 0,
       c_State := (if \<exists>(k, p) \<in> set (e_slots e). reaches (heap p) then StateConnected else StateDegraded)\<rparr>"
proof -
  let ?sls = "map (\<lambda>(k, p). heap p) (e_slots e)"
  obtain a sls where sls: "?sls = a # sls" using assms by (cases ?sls) auto
  obtain f' l' s' b' where m: "merge_loop ?sls None 0 0 False = (f', l', s', b')" by (metis prod_cases4)
  obtain l s b where "merge_loop ?sls None 0 0 False = merge_loop sls (Some a) l s b" by (simp add: sls Let_def)
  then obtain x where x: "x \<in> set ?sls" "f' = Some x" "\<forall>y \<in> set ?sls. seen_at y \<le> seen_at x"
    using merge_loop_freshest [of sls a l s b] m by (auto simp: sls)
  then obtain k p where kp: "(k, p) \<in> set (e_slots e)" "x = heap p" by auto
  have "(\<exists>y \<in> set ?sls. reaches y) \<longleftrightarrow> (\<exists>(k, p) \<in> set (e_slots e). reaches (heap p))" by force
  then have "mergedLocked cid e heap = (sl_facts (heap p))\<lparr>c_ID := cid, c_LastSeen := fold (\<lambda>x. max (seen_at x)) ?sls 0,
       c_ConnectedSince := fold (\<lambda>x t. if IsZero t then since_at x else min (since_at x) t) ?sls 0,
       c_State := (if \<exists>(k, p) \<in> set (e_slots e). reaches (heap p) then StateConnected else StateDegraded)\<rparr>"
    using merge_loop_folds [of ?sls None 0 0 False] m x(2) kp(2) by (auto simp: mergedLocked_def)
  then show thesis using that kp x(3) by fastforce
qed

lemma mergedLocked_empty: "e_slots e = [] \<Longrightarrow> mergedLocked cid e heap = e_lastCluster e"
  by (simp add: mergedLocked_def)

lemma Cluster_view_good:
  assumes "reg_inv G r" and "Cluster_view now cid r = Some c"
  shows "c_ID c = cid \<and> G cid (c_Labels c)"
proof -
  obtain e where e: "map_of (r_entries r) cid = Some e" "c = mergedLocked cid e (r_heap r)"
    using assms(2) by (auto simp: Cluster_view_def split: option.splits if_splits)
  show ?thesis
  proof (cases "e_slots e = []")
    case True
    then show ?thesis using e reg_invD(2) [OF assms(1) e(1)] by (simp add: mergedLocked_empty entry_good_def)
  next
    case False
    obtain k p where kp: "(k, p) \<in> set (e_slots e)" "c_ID c = cid" "c_Labels c = c_Labels (sl_facts (r_heap r p))"
      by (rule mergedLocked_pool [OF False, of "r_heap r" cid]) (simp add: e(2))
    then have "slot_at r cid k = Some p"
      using reg_invD(2) [OF assms(1) e(1)] by (simp add: slot_at_entry [OF e(1)] entry_good_def mem_map_of)
    then show ?thesis using reg_invD(4) [OF assms(1)] kp by (auto simp: slot_good_def)
  qed
qed

subsection \<open>Properties of the registry\<close>

text \<open>The label source the hub installs: a failed read of the store is an error, never a default.\<close>

definition hub_labels :: "store_error + State \<Rightarrow> label_source" where
  "hub_labels read =
     Some (\<lambda>cid. case enrollmentLabels (Some read) cid of Inl e \<Rightarrow> Inl [ErrOther ''read enrollment labels''] | Inr l \<Rightarrow> Inr l)"

text \<open>Reads of the store during which the operator's label \<open>k\<close> of cluster \<open>cid\<close> is \<open>v\<close>, or that fail.\<close>

definition labelled :: "string \<Rightarrow> string \<Rightarrow> string \<Rightarrow> label_source set" where
  "labelled cid k v =
     {hub_labels read |read. \<forall>lbls. enrollmentLabels (Some read) cid = Inr lbls \<longrightarrow> wf_map lbls \<and> map_of lbls k = Some v}"

lemma mergeLabels_owned:
  assumes "mergeLabels (hub_labels read) cid reported = Inr merged"
    and "enrollmentLabels (Some read) cid = Inr lbls" and "wf_map lbls" and "map_of lbls k = Some v"
  shows "map_of merged k = Some v"
  using assms by (auto simp: mergeLabels_def hub_labels_def map_of_maps_Copy split: if_splits)

interpretation enrolled: label_policy "labelled cid k v" "\<lambda>c m. c = cid \<longrightarrow> map_of m k = Some v" for cid k v
proof
  fix auth c reported merged
  assume "auth \<in> labelled cid k v" "mergeLabels auth c reported = Inr merged"
  moreover from this obtain read where "auth = hub_labels read"
    "\<forall>lbls. enrollmentLabels (Some read) cid = Inr lbls \<longrightarrow> wf_map lbls \<and> map_of lbls k = Some v" by (auto simp: labelled_def)
  ultimately show "c = cid \<longrightarrow> map_of merged k = Some v"
    using mergeLabels_owned [of read c reported merged _ k v]
    by (cases "enrollmentLabels (Some read) c") (auto simp: mergeLabels_def hub_labels_def)
qed

interpretation structural: label_policy pol "\<lambda>c m. True" for pol
  by unfold_locales simp

lemma reg_inv_New: "New_Registry heap poll timeout grace swp = Inr r \<Longrightarrow> reg_inv G r"
  by (auto simp: New_Registry_def Let_def reg_inv_def slot_at_def split: if_splits)

text \<open>
  C15. A spoke cannot label itself into an agent's scope. While the operator's enrollment record
  gives cluster \<open>cid\<close> the label \<open>k = v\<close> (reads of it may fail), every view any reader is given of the
  cluster carries \<open>k = v\<close> and the cluster identifier of the certificate, whatever spokes report on
  connecting and on every refresh, and in whatever order sessions connect, refresh, drop, are
  displaced or swept; a scope that demands another value of \<open>k\<close> does not admit the cluster.
\<close>
theorem operator_labels_win:
  assumes "New_Registry heap poll timeout grace swp = Inr r0" and "reg_steps (labelled cid k v) r0 r"
    and "Cluster_view now cid r = Some c"
  shows "c_ID c = cid \<and> map_of (c_Labels c) k = Some v
    \<and> (\<forall>sc w. (k, w) \<in> set (cs_MatchLabels (sc_Clusters sc)) \<longrightarrow> AllowsCluster (Some sc) cid (c_Labels c) \<longrightarrow> w = v)"
proof -
  have "reg_inv (\<lambda>c m. c = cid \<longrightarrow> map_of m k = Some v) r"
    using enrolled.steps_keep [OF assms(2)] reg_inv_New [OF assms(1)] by blast
  then have view: "c_ID c = cid" "map_of (c_Labels c) k = Some v" using Cluster_view_good assms(3) by blast+
  then have "map_str (c_Labels c) k = v" by (simp add: map_str_def)
  then show ?thesis using view by (auto simp: AllowsCluster_iff)
qed

lemma closeVictims_fst:
  "fst (closeVictims now vs r) = fold close_revoked (snd (detach_all now vs r)) (fst (detach_all now vs r))"
  by (simp add: closeVictims_def split_def Let_def)

lemma detach_all_slot_at:
  "slot_at (fst (detach_all now vs r)) c k =
    (if \<exists>v \<in> set vs. vi_id v = c \<and> vi_key v = k \<and> slot_at r c k = Some (vi_slot v) then None else slot_at r c k)"
proof (induction vs arbitrary: r)
  case (Cons v vs)
  show ?case
  proof (cases "slot_at r (vi_id v) (vi_key v) = Some (vi_slot v)")
    case True
    then obtain e where e: "map_of (r_entries r) (vi_id v) = Some e" "map_of (e_slots e) (vi_key v) = Some (vi_slot v)"
      by (auto simp: slot_at_def split: option.splits)
    then have "fst (detach_all now (v # vs) r) = fst (detach_all now vs (detachLocked (vi_id v) e (vi_key v) (vi_slot v) now r))"
      by (simp add: split_def Let_def)
    then show ?thesis using True Cons.IH by (auto simp: detach_slot_at [OF e(1)])
  next
    case False
    then have "detach_all now (v # vs) r = detach_all now vs r" by (auto simp: slot_at_def split: option.splits)
    then show ?thesis using False Cons.IH by auto
  qed
qed simp

lemma detach_all_fields [simp]:
  "r_fresh (fst (detach_all now vs r)) = r_fresh r" "r_heap (fst (detach_all now vs r)) = r_heap r"
  "r_closures (fst (detach_all now vs r)) = r_closures r"
  by (induction now vs r rule: detach_all.induct) (auto simp: split_def Let_def split: option.splits)

lemma closeVictims_slot_at:
  "slot_at (fst (closeVictims now vs r)) c k =
    (if \<exists>v \<in> set vs. vi_id v = c \<and> vi_key v = k \<and> slot_at r c k = Some (vi_slot v) then None else slot_at r c k)"
  by (simp add: closeVictims_fst slot_at_cong [OF fold_close_fields(1)] detach_all_slot_at)

lemma sweep_slot_at:
  assumes "wf_map (r_entries r)"
  shows "slot_at (fst (sweep now r)) c k = slot_at r c k"
  by (auto simp: sweep_def Let_def slot_at_def map_of_filter_wf [OF assms] presentLocked_def split: option.splits)

lemma Session_fields:
  "slot_at (fst (Session ended now cid r)) = slot_at r" "r_fresh (fst (Session ended now cid r)) = r_fresh r"
  by (auto simp: Session_def fun_eq_iff slot_at_set_entry slot_at_entry pickLocked_def Let_def split: option.splits prod.splits if_splits)

lemma Close_slot_at: "slot_at (Close reason r) c k = Some p \<Longrightarrow> slot_at r c k = Some p" "r_fresh (Close reason r) = r_fresh r"
  by (auto simp: Close_def Let_def slot_at_def fold_close_slot split: if_splits)

text \<open>A step attaches no address but a fresh one.\<close>

lemma step_attaches_fresh:
  assumes "reg_step pol r r'" and "wf_map (r_entries r)"
  shows "r_fresh r \<le> r_fresh r' \<and> (\<forall>c k p. slot_at r' c k = Some p \<longrightarrow> slot_at r c k = Some p \<or> r_fresh r \<le> p)"
  using assms(1)
proof cases
  case (step_publish auth now s desc gen0 r0 r1 cid key sl)
  have "r_fresh r \<le> r_fresh (fst (OnSession_publish cid key sl r))"
    by (cases "admits r cid key sl") (simp_all add: publish_refuses publish_admits)
  then show ?thesis using step_publish(1) by (auto simp: publish_slot_at split: if_splits)
next
  case (step_prepare auth now s desc gen0 res)
  then show ?thesis using begin_fields slot_at_cong [of r' r] by auto
next
  case (step_describe auth cid p facts res)
  then show ?thesis using slot_at_cong [of r' r] by (auto simp: applyFacts_begin_def Let_def split: if_splits)
next
  case (step_refresh auth cid reported merged now key p facts)
  then show ?thesis using slot_at_cong [of r' r] by (auto simp: applyFacts_commit_def)
next
  case (step_release now cid key p)
  have "r_fresh (release now cid key p r) = r_fresh r" by (simp add: release_def Let_def split: option.splits)
  then show ?thesis using step_release by (auto simp: release_slot_at split: if_splits)
next
  case (step_victims now vs)
  have "r_fresh (fst (closeVictims now vs r)) = r_fresh r" by (simp add: closeVictims_fst fold_close_fields)
  then show ?thesis using step_victims by (auto simp: closeVictims_slot_at split: if_splits)
next
  case (step_sweep now)
  have "r_fresh (fst (sweep now r)) = r_fresh r" by (simp add: sweep_def Let_def)
  then show ?thesis using step_sweep by (simp add: sweep_slot_at [OF assms(2)])
next
  case (step_close reason)
  then show ?thesis by (auto simp: Close_slot_at(2) dest: Close_slot_at(1))
next
  case (step_session ended now cid)
  then show ?thesis by (simp add: Session_fields)
qed

lemma detached_stays_detached:
  assumes "reg_steps pol r r'" and "reg_inv (\<lambda>c m. True) r" and "p < r_fresh r" and "\<forall>c k. slot_at r c k \<noteq> Some p"
  shows "p < r_fresh r' \<and> (\<forall>c k. slot_at r' c k \<noteq> Some p)"
  using assms(1)
proof (induction rule: rtranclp_induct)
  case (step y z)
  have "reg_inv (\<lambda>c m. True) y" using structural.steps_keep [OF step.hyps(1) assms(2)] .
  then have "r_fresh y \<le> r_fresh z" "\<forall>c k p. slot_at z c k = Some p \<longrightarrow> slot_at y c k = Some p \<or> r_fresh y \<le> p"
    using step_attaches_fresh [OF step.hyps(2)] reg_invD(1) by blast+
  then show ?case using step.IH by (meson leD order_less_le_trans)
qed (use assms in auto)

text \<open>
  C16. The reconnect race is decided once. A session is refused exactly when the registry is closed
  or its slot is held by a newer generation, and then nothing changes; otherwise it takes the slot,
  no other pod's slot moves, and the session it displaced is closed. The displaced pod's late
  release and late facts refresh have no effect on any slot from then on, whatever happens between.
\<close>
theorem reconnect_race_decided_once:
  assumes "reg_inv (\<lambda>c m. True) r" and "OnSession_begin auth t s desc gen0 r0 = (r0', Inr (cid, key, sl))"
    and "OnSession_publish cid key sl r = (r1, res)"
  shows "(isl res \<longleftrightarrow> r_closed r \<or> (\<exists>q. slot_at r cid key = Some q \<and> sl_generation sl < sl_generation (r_heap r q)))
    \<and> (isl res \<longrightarrow> r1 = r)
    \<and> (\<not> isl res \<longrightarrow> (\<exists>p. slot_at r1 cid key = Some p \<and> r_heap r1 p = sl)
         \<and> (\<forall>c k. (c, k) \<noteq> (cid, key) \<longrightarrow> slot_at r1 c k = slot_at r c k)
         \<and> (\<forall>q. slot_at r cid key = Some q \<longrightarrow>
              (sl_session (r_heap r q), cid, ReplacedReason) \<in> set (r_closures r1)
              \<and> (\<forall>r2 now facts rep merged. reg_steps pol r1 r2 \<longrightarrow>
                   slot_at (release now cid key q r2) = slot_at r2
                   \<and> applyFacts_commit now cid key q facts rep merged r2 = r2)))"
proof (cases "admits r cid key sl")
  case False
  then show ?thesis using publish_refuses [OF False] assms(3) by (auto simp: admits_def split: option.splits)
next
  case True
  have r1: "r1 = fst (OnSession_publish cid key sl r)" and res: "res = Inr (r_fresh r)"
    using assms(3) publish_admits [OF True] by simp_all
  have at: "slot_at r1 c k = (if c = cid \<and> k = key then Some (r_fresh r) else slot_at r c k)" for c k
    using True by (simp add: r1 publish_slot_at)
  have inv: "reg_inv (\<lambda>c m. True) r1"
    unfolding r1 using structural.step_keeps [OF step_publish [OF UNIV_I assms(2)]] assms(1) by blast
  have old: "q < r_fresh r" if "slot_at r c k = Some q" for c k q using reg_invD(3) [OF assms(1)] that .
  have heap: "r_heap r1 (r_fresh r) = sl"
    using old by (auto simp: r1 publish_admits [OF True] displace_def cancel_def closeSession_def split: option.splits)
  have closed: "(sl_session (r_heap r q), cid, ReplacedReason) \<in> set (r_closures r1)" if "slot_at r cid key = Some q" for q
    using old that by (auto simp: r1 publish_admits [OF True] displace_def cancel_def closeSession_def)
  have gone: "slot_at r2 cid key \<noteq> Some q" if "slot_at r cid key = Some q" "reg_steps pol r1 r2" for q r2
  proof -
    have "slot_at r1 c k \<noteq> Some q" for c k
    proof
      assume "slot_at r1 c k = Some q"
      then have "slot_at r c k = Some q" "(c, k) \<noteq> (cid, key)" using old [OF that(1)] by (simp_all add: at split: if_splits)
      then show False using reg_invD(5) [OF assms(1) that(1)] by blast
    qed
    moreover have "q < r_fresh r1" using old [OF that(1)] by (simp add: r1 publish_admits [OF True])
    ultimately show ?thesis using detached_stays_detached [OF that(2) inv] by blast
  qed
  have "slot_at (release now cid key q r2) = slot_at r2" "applyFacts_commit now cid key q facts rep merged r2 = r2"
    if "slot_at r cid key = Some q" "reg_steps pol r1 r2" for q r2 now facts rep merged
    using gone [OF that] by (auto simp: fun_eq_iff release_slot_at applyFacts_commit_def holds_slot_iff)
  moreover have "\<not> (r_closed r \<or> (\<exists>q. slot_at r cid key = Some q \<and> sl_generation sl < sl_generation (r_heap r q)))"
    using True by (auto simp: admits_def)
  ultimately show ?thesis using res at heap closed by simp
qed

lemma judge_spec:
  assumes "\<forall>(s, b) \<in> set verdict. b = P s" and "distinct asked" and "wf_map verdict" and "set (map fst verdict) = set asked"
  shows "snd (judge (\<lambda>asked s. (asked @ [s], P s)) heap cs verdict asked) = filter (\<lambda>c. P (sl_certSerial (heap (vi_slot c)))) cs
    \<and> distinct (fst (judge (\<lambda>asked s. (asked @ [s], P s)) heap cs verdict asked))"
  using assms
proof (induction cs arbitrary: verdict asked)
  case (Cons c cs)
  let ?s = "sl_certSerial (heap (vi_slot c))"
  show ?case
  proof (cases "map_of verdict ?s")
    case None
    then have new: "?s \<notin> set asked" using Cons.prems(4) by (metis map_of_eq_None_iff list.set_map)
    have upd: "AList.update ?s b verdict = verdict @ [(?s, b)]" for b
      using None by (induction verdict) (auto split: if_splits)
    show ?thesis using None new Cons.prems Cons.IH [of "AList.update ?s (P ?s) verdict" "asked @ [?s]"]
      by (cases "P ?s") (simp_all add: split_def Let_def upd)
  next
    case (Some b)
    then have "b = P ?s" using Cons.prems(1) by (auto dest: map_of_SomeD)
    then show ?thesis using Some Cons.prems Cons.IH [of verdict asked] by (simp add: split_def Let_def)
  qed
qed simp

lemma candidates_iff:
  assumes "reg_inv G r"
  shows "v \<in> set (candidates r) \<longleftrightarrow> slot_at r (vi_id v) (vi_key v) = Some (vi_slot v) \<and> sl_certSerial (r_heap r (vi_slot v)) \<noteq> ''''"
proof -
  have "v \<in> set (candidates r) \<longleftrightarrow> (\<exists>e. (vi_id v, e) \<in> set (r_entries r) \<and> (vi_key v, vi_slot v) \<in> set (e_slots e)
      \<and> sl_certSerial (r_heap r (vi_slot v)) \<noteq> '''')"
    by (cases v) (auto simp: candidates_def, force)
  also have "\<dots> \<longleftrightarrow> (\<exists>e. map_of (r_entries r) (vi_id v) = Some e \<and> map_of (e_slots e) (vi_key v) = Some (vi_slot v)
      \<and> sl_certSerial (r_heap r (vi_slot v)) \<noteq> '''')"
    using reg_invD(1,2) [OF assms] by (auto simp: mem_map_of entry_good_def)
  finally show ?thesis by (auto simp: slot_at_def split: option.splits)
qed

lemma distinct_candidates:
  assumes "reg_inv G r"
  shows "distinct (map (\<lambda>v. (vi_id v, vi_key v)) (candidates r))"
proof -
  have pool: "distinct (map (\<lambda>v. (vi_id v, vi_key v)) (map (\<lambda>(key, p). \<lparr>vi_id = c, vi_key = key, vi_slot = p\<rparr>) ps))"
    if "wf_map ps" for c and ps :: "(string, nat) gomap" using that by (induction ps) force+
  define F :: "string \<times> entry \<Rightarrow> victim list" where "F = (\<lambda>(cid, e). map (\<lambda>(key, p). \<lparr>vi_id = cid, vi_key = key, vi_slot = p\<rparr>)
    (filter (\<lambda>(key, p). sl_certSerial (r_heap r p) \<noteq> '''') (e_slots e)))"
  have ids: "vi_id v = fst x" if "v \<in> set (F x)" for x v using that by (auto simp: F_def split_def)
  have own: "distinct (map (\<lambda>v. (vi_id v, vi_key v)) (F x))" if "wf_map (e_slots (snd x))" for x
    using pool [of "filter (\<lambda>(key, p). sl_certSerial (r_heap r p) \<noteq> '''') (e_slots (snd x))" "fst x"] that
    by (simp add: F_def split_def)
  have "distinct (map (\<lambda>v. (vi_id v, vi_key v)) (concat (map F es)))"
    if "wf_map es" "\<forall>x \<in> set es. wf_map (e_slots (snd x))" for es
    using that
  proof (induction es)
    case (Cons x es)
    have "vi_id v \<noteq> vi_id w" if v: "v \<in> set (F x)" and w: "w \<in> set (concat (map F es))" for v w
    proof -
      obtain y where "y \<in> set es" "vi_id w = fst y" using w ids by auto
      then show ?thesis using ids [OF v] Cons.prems(1) by auto
    qed
    then show ?case using Cons own [of x] by auto
  qed simp
  moreover have "\<forall>x \<in> set (r_entries r). wf_map (e_slots (snd x))"
    using reg_invD(1,2) [OF assms] by (auto simp: entry_good_def mem_map_of)
  ultimately show ?thesis using reg_invD(1) [OF assms] unfolding candidates_def F_def [symmetric] by blast
qed

lemma detach_all_closures:
  assumes "distinct (map (\<lambda>v. (vi_id v, vi_key v)) vs)"
  shows "snd (detach_all now vs r) = filter (\<lambda>v. slot_at r (vi_id v) (vi_key v) = Some (vi_slot v)) vs"
  using assms
proof (induction vs arbitrary: r)
  case (Cons v vs)
  show ?case
  proof (cases "slot_at r (vi_id v) (vi_key v) = Some (vi_slot v)")
    case True
    then obtain e where e: "map_of (r_entries r) (vi_id v) = Some e" "map_of (e_slots e) (vi_key v) = Some (vi_slot v)"
      by (auto simp: slot_at_def split: option.splits)
    let ?r = "detachLocked (vi_id v) e (vi_key v) (vi_slot v) now r"
    have "filter (\<lambda>w. slot_at ?r (vi_id w) (vi_key w) = Some (vi_slot w)) vs = filter (\<lambda>w. slot_at r (vi_id w) (vi_key w) = Some (vi_slot w)) vs"
    proof (intro filter_cong refl)
      fix w assume "w \<in> set vs"
      then have "(vi_id w, vi_key w) \<in> set (map (\<lambda>v. (vi_id v, vi_key v)) vs)" by auto
      then have "(vi_id w, vi_key w) \<noteq> (vi_id v, vi_key v)" using Cons.prems by (metis distinct.simps(2) list.simps(9))
      then show "slot_at ?r (vi_id w) (vi_key w) = Some (vi_slot w) \<longleftrightarrow> slot_at r (vi_id w) (vi_key w) = Some (vi_slot w)"
        by (auto simp: detach_slot_at [OF e(1)])
    qed
    then show ?thesis using True e Cons by (simp add: split_def Let_def)
  next
    case False
    then have "detach_all now (v # vs) r = detach_all now vs r" by (auto simp: slot_at_def split: option.splits)
    then show ?thesis using False Cons by simp
  qed
qed simp

text \<open>
  C17. A revocation sweep closes the revoked sessions and no others. The sessions are picked from a
  snapshot \<open>r0\<close> and torn down later, when the registry has become \<open>r\<close>: exactly the slots that still
  hold a session of the snapshot whose certificate is revoked lose it, each such session is closed
  with the fixed reason, the result names one cluster per session closed, in order, and the
  revocation list is consulted at most once per serial.
\<close>
theorem revoked_sessions_closed:
  assumes "reg_inv (\<lambda>c m. True) r0"
    and "judge (\<lambda>asked s. (asked @ [s], P s)) (r_heap r0) (candidates r0) [] [] = (asked, vs)"
    and "closeVictims now vs r = (r', out)"
  shows "(\<forall>c k. slot_at r' c k =
        (if \<exists>p. slot_at r c k = Some p \<and> slot_at r0 c k = Some p \<and> sl_certSerial (r_heap r0 p) \<noteq> '''' \<and> P (sl_certSerial (r_heap r0 p))
         then None else slot_at r c k))
    \<and> (\<exists>cs :: victim list. r_closures r' = r_closures r @ map (\<lambda>v. (sl_session (r_heap r (vi_slot v)), vi_id v, RevokedReason)) cs
         \<and> out = sort (map vi_id cs) \<and> distinct (map (\<lambda>v. (vi_id v, vi_key v)) cs)
         \<and> (\<forall>v. v \<in> set cs \<longleftrightarrow> slot_at r (vi_id v) (vi_key v) = Some (vi_slot v) \<and> slot_at r' (vi_id v) (vi_key v) = None))
    \<and> distinct asked"
proof -
  have vs: "vs = filter (\<lambda>c. P (sl_certSerial (r_heap r0 (vi_slot c)))) (candidates r0)" and asked: "distinct asked"
    using judge_spec [of "[]" P "[]" "r_heap r0" "candidates r0"] assms(2) by simp_all
  have dv: "distinct (map (\<lambda>v. (vi_id v, vi_key v)) vs)"
    using distinct_candidates [OF assms(1)] by (simp add: vs distinct_map_filter)
  have mem: "v \<in> set vs \<longleftrightarrow> slot_at r0 (vi_id v) (vi_key v) = Some (vi_slot v) \<and> sl_certSerial (r_heap r0 (vi_slot v)) \<noteq> ''''
      \<and> P (sl_certSerial (r_heap r0 (vi_slot v)))" for v
    by (simp add: vs candidates_iff [OF assms(1)] conj_assoc)
  have r': "r' = fst (closeVictims now vs r)" "out = snd (closeVictims now vs r)" using assms(3) by simp_all
  have hit: "(\<exists>v \<in> set vs. vi_id v = c \<and> vi_key v = k \<and> slot_at r c k = Some (vi_slot v)) \<longleftrightarrow>
      (\<exists>p. slot_at r c k = Some p \<and> slot_at r0 c k = Some p \<and> sl_certSerial (r_heap r0 p) \<noteq> '''' \<and> P (sl_certSerial (r_heap r0 p)))" for c k
  proof
    assume "\<exists>p. slot_at r c k = Some p \<and> slot_at r0 c k = Some p \<and> sl_certSerial (r_heap r0 p) \<noteq> '''' \<and> P (sl_certSerial (r_heap r0 p))"
    then obtain p where "slot_at r c k = Some p" "\<lparr>vi_id = c, vi_key = k, vi_slot = p\<rparr> \<in> set vs" by (auto simp: mem)
    then show "\<exists>v \<in> set vs. vi_id v = c \<and> vi_key v = k \<and> slot_at r c k = Some (vi_slot v)" by force
  qed (auto simp: mem)
  let ?cs = "filter (\<lambda>v. slot_at r (vi_id v) (vi_key v) = Some (vi_slot v)) vs"
  have at: "slot_at r' c k = (if \<exists>v \<in> set vs. vi_id v = c \<and> vi_key v = k \<and> slot_at r c k = Some (vi_slot v) then None else slot_at r c k)" for c k
    unfolding r' by (rule closeVictims_slot_at)
  have "v \<in> set ?cs \<longleftrightarrow> slot_at r (vi_id v) (vi_key v) = Some (vi_slot v) \<and> slot_at r' (vi_id v) (vi_key v) = None" for v
    by (auto simp: at mem)
  moreover have "r_closures r' = r_closures r @ map (\<lambda>v. (sl_session (r_heap r (vi_slot v)), vi_id v, RevokedReason)) ?cs" "out = sort (map vi_id ?cs)"
    by (simp_all add: r' closeVictims_def split_def Let_def detach_all_closures [OF dv] fold_close_closures)
  moreover have "distinct (map (\<lambda>v. (vi_id v, vi_key v)) ?cs)" using dv by (simp add: distinct_map_filter)
  ultimately have "\<exists>cs :: victim list. r_closures r' = r_closures r @ map (\<lambda>v. (sl_session (r_heap r (vi_slot v)), vi_id v, RevokedReason)) cs
         \<and> out = sort (map vi_id cs) \<and> distinct (map (\<lambda>v. (vi_id v, vi_key v)) cs)
         \<and> (\<forall>v. v \<in> set cs \<longleftrightarrow> slot_at r (vi_id v) (vi_key v) = Some (vi_slot v) \<and> slot_at r' (vi_id v) (vi_key v) = None)"
    by blast
  then show ?thesis using asked at unfolding hit by blast
qed

lemma mset_rotate: "mset (rotate n xs) = mset xs"
  by (simp add: rotate_drop_take) (metis add.commute append_take_drop_id mset_append)

lemma pick_keys_iff:
  assumes "wf_map (e_slots e)"
  shows "k \<in> set (pick_keys ended heap e) \<longleftrightarrow>
    (\<exists>p. map_of (e_slots e) k = Some p \<and> \<not> ended (sl_session (heap p))
       \<and> (reaches (heap p) \<or> (\<forall>k' p'. map_of (e_slots e) k' = Some p' \<longrightarrow> ended (sl_session (heap p')) \<or> \<not> reaches (heap p'))))"
proof -
  let ?live = "filter (\<lambda>(k, p). \<not> ended (sl_session (heap p))) (e_slots e)"
  have live: "(k, p) \<in> set ?live \<longleftrightarrow> map_of (e_slots e) k = Some p \<and> \<not> ended (sl_session (heap p))" for k p
    by (simp add: mem_map_of [OF assms])
  have none: "filter (\<lambda>(k, p). reaches (heap p)) ?live = [] \<longleftrightarrow>
      (\<forall>k' p'. map_of (e_slots e) k' = Some p' \<longrightarrow> ended (sl_session (heap p')) \<or> \<not> reaches (heap p'))"
    using live by (auto simp: filter_empty_conv)
  have "set (pick_keys ended heap e) = fst ` set (if filter (\<lambda>(k, p). reaches (heap p)) ?live \<noteq> [] then filter (\<lambda>(k, p). reaches (heap p)) ?live else ?live)"
    by (simp add: pick_keys_def Let_def reaches_def split_def)
  also have "k \<in> \<dots> \<longleftrightarrow> (\<exists>p. (k, p) \<in> set ?live \<and> (reaches (heap p) \<or> filter (\<lambda>(k, p). reaches (heap p)) ?live = []))"
    by force
  finally show ?thesis unfolding live none by blast
qed

lemma distinct_pick_keys: "wf_map (e_slots e) \<Longrightarrow> distinct (pick_keys ended heap e)"
  by (simp add: pick_keys_def Let_def)

lemma pick_keys_cong: "e_slots e' = e_slots e \<Longrightarrow> pick_keys ended heap e' = pick_keys ended heap e"
  by (simp add: pick_keys_def)

lemma masked: "unat (and w (mask 31) :: 64 word) = unat w mod 2 ^ 31"
  by (simp add: unsigned_take_bit_eq flip: take_bit_eq_mask) (simp add: take_bit_eq_mod)

lemma pickLocked_step:
  assumes "pick_keys ended heap e \<noteq> []"
  shows "pickLocked ended heap e = (e\<lparr>e_rr := e_rr e + 1\<rparr>,
    map_option (\<lambda>p. sl_session (heap p)) (map_of (e_slots e) (pick_keys ended heap e ! (unat (e_rr e) mod 2 ^ 31 mod length (pick_keys ended heap e)))))"
  using assms by (simp add: pickLocked_def Let_def masked)

fun Session_calls :: "nat \<Rightarrow> (nat \<Rightarrow> bool) \<Rightarrow> gotime \<Rightarrow> string \<Rightarrow> Registry \<Rightarrow> Registry \<times> (reg_error + nat) list" where
  "Session_calls 0 ended now cid r = (r, [])"
| "Session_calls (Suc n) ended now cid r =
     (let (r, x) = Session ended now cid r; (r, xs) = Session_calls n ended now cid r in (r, x # xs))"

lemma Session_pick:
  assumes "map_of (r_entries r) cid = Some e" and "wf_map (e_slots e)" and "pick_keys ended (r_heap r) e \<noteq> []"
  obtains p where
    "map_of (e_slots e) (pick_keys ended (r_heap r) e ! (unat (e_rr e) mod 2 ^ 31 mod length (pick_keys ended (r_heap r) e))) = Some p"
    "Session ended now cid r = (set_entry cid (e\<lparr>e_rr := e_rr e + 1\<rparr>) r, Inr (sl_session (r_heap r p)))"
proof -
  let ?ks = "pick_keys ended (r_heap r) e"
  have "?ks ! (unat (e_rr e) mod 2 ^ 31 mod length ?ks) \<in> set ?ks" using assms(3) by simp
  then obtain p where p: "map_of (e_slots e) (?ks ! (unat (e_rr e) mod 2 ^ 31 mod length ?ks)) = Some p"
    unfolding pick_keys_iff [OF assms(2)] by blast
  moreover have "presentLocked e now r" using p by (auto simp: presentLocked_def)
  ultimately show thesis using that assms by (simp add: Session_def pickLocked_step)
qed

lemma Session_calls_rotate:
  assumes "map_of (r_entries r) cid = Some e" and "wf_map (e_slots e)" and "pick_keys ended (r_heap r) e = ks" and "ks \<noteq> []"
    and "unat (e_rr e) mod 2 ^ 31 + n \<le> 2 ^ 31"
  shows "snd (Session_calls n ended now cid r) =
    map (\<lambda>i. Inr (sl_session (r_heap r (the (map_of (e_slots e) (ks ! ((unat (e_rr e) mod 2 ^ 31 + i) mod length ks))))))) [0..<n]"
  using assms
proof (induction n arbitrary: r e)
  case (Suc n)
  let ?e = "e\<lparr>e_rr := e_rr e + 1\<rparr>" and ?r = "set_entry cid (e\<lparr>e_rr := e_rr e + 1\<rparr>) r" and ?c = "unat (e_rr e) mod 2 ^ 31"
  obtain p where p: "map_of (e_slots e) (ks ! (?c mod length ks)) = Some p" "Session ended now cid r = (?r, Inr (sl_session (r_heap r p)))"
    using Session_pick [OF Suc.prems(1,2)] Suc.prems(3,4) by blast
  have succ: "unat (e_rr ?e) mod 2 ^ 31 = (?c + 1) mod 2 ^ 31"
    by (simp add: unat_word_ariths mod_mod_cancel mod_simps)
  show ?case
  proof (cases "n = 0")
    case True
    then show ?thesis using p by simp
  next
    case False
    then have "(?c + 1) mod 2 ^ 31 = ?c + 1" using Suc.prems(5) by simp
    then have "snd (Session_calls n ended now cid ?r) =
       map (\<lambda>i. Inr (sl_session (r_heap r (the (map_of (e_slots e) (ks ! ((?c + Suc i) mod length ks))))))) [0..<n]"
      using Suc.IH [of ?r ?e] Suc.prems succ pick_keys_cong [of ?e e] by simp
    moreover have "[0..<Suc n] = 0 # map Suc [0..<n]" by (simp add: upt_conv_Cons map_Suc_upt)
    ultimately show ?thesis using p by (simp add: split_def Let_def comp_def)
  qed
qed simp

text \<open>
  C18. Routing is fair and prefers working pods. Let \<open>n\<close> sessions of a cluster be eligible: live, and
  able to reach their Prometheus if any live one is. Then \<open>n\<close> consecutive selections return each of
  them exactly once (while the cursor's low 31 bits do not wrap in between), so no eligible pod
  starves and no other pod is ever chosen.
\<close>
theorem routing_is_fair:
  assumes "reg_inv (\<lambda>c m. True) r" and "map_of (r_entries r) cid = Some e"
    and "ready = {p. \<exists>k. slot_at r cid k = Some p \<and> \<not> ended (sl_session (r_heap r p))
            \<and> (reaches (r_heap r p) \<or> (\<forall>k' q. slot_at r cid k' = Some q \<longrightarrow> ended (sl_session (r_heap r q)) \<or> \<not> reaches (r_heap r q)))}"
    and "unat (e_rr e) mod 2 ^ 31 + card ready \<le> 2 ^ 31"
  shows "mset (snd (Session_calls (card ready) ended now cid r)) = image_mset (\<lambda>p. Inr (sl_session (r_heap r p))) (mset_set ready)"
proof -
  let ?ks = "pick_keys ended (r_heap r) e" and ?at = "\<lambda>k. the (map_of (e_slots e) k)"
  have wf: "wf_map (e_slots e)" using reg_invD(2) [OF assms(1,2)] by (simp add: entry_good_def)
  have elig: "ready = ?at ` set ?ks"
  proof -
    have "p \<in> ready \<longleftrightarrow> (\<exists>k. k \<in> set ?ks \<and> map_of (e_slots e) k = Some p)" for p
      unfolding assms(3) pick_keys_iff [OF wf] slot_at_entry [OF assms(2)] mem_Collect_eq by auto
    moreover have "map_of (e_slots e) k = Some (?at k)" if "k \<in> set ?ks" for k using that pick_keys_iff [OF wf] by auto
    ultimately show ?thesis by force
  qed
  have inj: "inj_on ?at (set ?ks)"
  proof (rule inj_onI)
    fix k k' assume "k \<in> set ?ks" "k' \<in> set ?ks" and eq: "?at k = ?at k'"
    then obtain p p' where "map_of (e_slots e) k = Some p" "map_of (e_slots e) k' = Some p'" by (auto simp: pick_keys_iff [OF wf])
    then show "k = k'" using eq reg_invD(5) [OF assms(1), of cid k p cid k'] by (simp add: slot_at_entry [OF assms(2)])
  qed
  have card: "card ready = length ?ks" using card_image [OF inj] distinct_card [OF distinct_pick_keys [OF wf]] by (simp add: elig)
  have ms: "mset_set ready = mset (map ?at ?ks)"
    using mset_set_set [of "map ?at ?ks"] distinct_pick_keys [OF wf] inj by (simp add: elig distinct_map)
  show ?thesis
  proof (cases "?ks = []")
    case True
    then show ?thesis using card ms by simp
  next
    case False
    let ?c = "unat (e_rr e) mod 2 ^ 31"
    have "map (\<lambda>i. ?ks ! ((?c + i) mod length ?ks)) [0..<length ?ks] = rotate ?c ?ks"
      by (rule nth_equalityI) (simp_all add: nth_rotate)
    moreover have "snd (Session_calls (length ?ks) ended now cid r) =
        map (\<lambda>k. Inr (sl_session (r_heap r (?at k)))) (map (\<lambda>i. ?ks ! ((?c + i) mod length ?ks)) [0..<length ?ks])"
      unfolding map_map comp_def
      by (rule Session_calls_rotate [OF assms(2) wf refl False]) (use assms(4) card in simp)
    ultimately have "snd (Session_calls (length ?ks) ended now cid r) = map (\<lambda>k. Inr (sl_session (r_heap r (?at k)))) (rotate ?c ?ks)"
      by simp
    then show ?thesis by (simp add: card ms mset_map image_mset.compositionality comp_def mset_rotate)
  qed
qed

lemma filter_clusters_spec:
  assumes "reg_inv G r"
  shows "sorted_wrt (\<lambda>a b. c_ID a < c_ID b) (filter_clusters now keep r)"
    and "set (filter_clusters now keep r) = {c. (\<exists>cid. Cluster_view now cid r = Some c) \<and> (case keep of None \<Rightarrow> True | Some f \<Rightarrow> f c)}"
proof -
  let ?K = "\<lambda>c. case keep of None \<Rightarrow> True | Some f \<Rightarrow> f c"
  let ?es = "filter (\<lambda>(cid, e). presentLocked e now r) (r_entries r)"
  have wf: "wf_map (r_entries r)" using reg_invD(1) [OF assms] .
  have view: "(cid, e) \<in> set ?es \<longleftrightarrow> map_of (r_entries r) cid = Some e \<and> presentLocked e now r" for cid e by (simp add: mem_map_of [OF wf])
  have ids: "c_ID (mergedLocked (fst x) (snd x) (r_heap r)) = fst x" if "x \<in> set ?es" for x
    using that Cluster_view_good [OF assms, of now "fst x" "mergedLocked (fst x) (snd x) (r_heap r)"] view [of "fst x" "snd x"]
    by (simp add: Cluster_view_def)
  have "map c_ID (map (\<lambda>(cid, e). mergedLocked cid e (r_heap r)) ?es) = map fst ?es" using ids by (simp add: split_def)
  then have "distinct (map c_ID (map (\<lambda>(cid, e). mergedLocked cid e (r_heap r)) ?es))" using wf wf_filter by (simp del: map_map)
  then have "distinct (map c_ID (filter ?K (map (\<lambda>(cid, e). mergedLocked cid e (r_heap r)) ?es)))" by (rule distinct_map_filter)
  then have "distinct (map c_ID (filter_clusters now keep r))" by (simp add: filter_clusters_def distinct_map)
  moreover have "sorted (map c_ID (filter_clusters now keep r))" by (simp add: filter_clusters_def)
  ultimately have "sorted_wrt (<) (map c_ID (filter_clusters now keep r))" by (simp add: strict_sorted_iff)
  then show "sorted_wrt (\<lambda>a b. c_ID a < c_ID b) (filter_clusters now keep r)" by (simp add: sorted_wrt_map)
  show "set (filter_clusters now keep r) = {c. (\<exists>cid. Cluster_view now cid r = Some c) \<and> ?K c}"
  proof (intro set_eqI)
    fix c
    have "c \<in> set (filter_clusters now keep r) \<longleftrightarrow> c \<in> (\<lambda>(cid, e). mergedLocked cid e (r_heap r)) ` set ?es \<and> ?K c"
      by (simp add: filter_clusters_def)
    also have "c \<in> (\<lambda>(cid, e). mergedLocked cid e (r_heap r)) ` set ?es \<longleftrightarrow>
        (\<exists>cid e. (map_of (r_entries r) cid = Some e \<and> presentLocked e now r) \<and> c = mergedLocked cid e (r_heap r))"
      unfolding view [symmetric] image_iff Bex_def split_paired_Ex prod.case ..
    also have "\<dots> \<longleftrightarrow> (\<exists>cid. Cluster_view now cid r = Some c)"
      by (auto simp: Cluster_view_def split: option.splits)
    finally show "c \<in> set (filter_clusters now keep r) \<longleftrightarrow> c \<in> {c. (\<exists>cid. Cluster_view now cid r = Some c) \<and> ?K c}" by simp
  qed
qed

text \<open>
  C19. A principal's listing is exact: it holds every cluster present at the moment that the
  principal's scope admits, no other, each once and in order of identifier; a principal without a
  scope sees nothing.
\<close>
theorem Visible_exact:
  assumes "reg_inv (\<lambda>c m. True) r"
  shows "sorted_wrt (\<lambda>a b. c_ID a < c_ID b) (Visible now p r)
    \<and> set (Visible now p r) = {c. \<exists>pr. p = Some pr \<and> Cluster_view now (c_ID c) r = Some c \<and> AllowsCluster (p_Scope pr) (c_ID c) (c_Labels c)}"
proof (cases "\<exists>pr sc. p = Some pr \<and> p_Scope pr = Some sc")
  case True
  then obtain pr sc where p: "p = Some pr" "p_Scope pr = Some sc" by blast
  have "(\<exists>cid. Cluster_view now cid r = Some c) \<longleftrightarrow> Cluster_view now (c_ID c) r = Some c" for c
    using Cluster_view_good [OF assms] by blast
  then show ?thesis using p filter_clusters_spec [OF assms] by (simp add: Visible_def)
next
  case False
  then have "Visible now p r = []" "\<And>pr. p = Some pr \<Longrightarrow> p_Scope pr = None" by (auto simp: Visible_def split: option.splits)
  then show ?thesis by auto
qed

lemma present_antimono: "presentLocked e t r \<Longrightarrow> now \<le> t \<Longrightarrow> presentLocked e now r"
  using time_Sub_mono [of now t "c_LastSeen (e_lastCluster e)"] by (auto simp: presentLocked_def)

lemma slot_at_Some:
  "slot_at r cid k = Some p \<longleftrightarrow> (\<exists>e. map_of (r_entries r) cid = Some e \<and> map_of (e_slots e) k = Some p)"
  by (auto simp: slot_at_def split: option.splits)

lemma LiveCertSerials_iff:
  assumes "reg_inv G r"
  shows "s \<in> set (LiveCertSerials r) \<longleftrightarrow> s \<noteq> '''' \<and> (\<exists>cid k p. slot_at r cid k = Some p \<and> s = sl_certSerial (r_heap r p))"
proof -
  have "s \<in> set (LiveCertSerials r) \<longleftrightarrow> s \<noteq> '''' \<and> (\<exists>x \<in> set (r_entries r). \<exists>y \<in> set (e_slots (snd x)). s = sl_certSerial (r_heap r (snd y)))"
    by (auto simp: LiveCertSerials_def split_def)
  also have "\<dots> \<longleftrightarrow> s \<noteq> '''' \<and> (\<exists>cid e. map_of (r_entries r) cid = Some e \<and> (\<exists>k p. (k, p) \<in> set (e_slots e) \<and> s = sl_certSerial (r_heap r p)))"
    unfolding Bex_def split_paired_Ex snd_conv mem_map_of [OF reg_invD(1) [OF assms]] ..
  also have "\<dots> \<longleftrightarrow> s \<noteq> '''' \<and> (\<exists>cid e k p. map_of (r_entries r) cid = Some e \<and> map_of (e_slots e) k = Some p \<and> s = sl_certSerial (r_heap r p))"
  proof -
    have "(k, p) \<in> set (e_slots e) \<longleftrightarrow> map_of (e_slots e) k = Some p" if "map_of (r_entries r) cid = Some e" for cid e k p
      using reg_invD(2) [OF assms that] by (intro mem_map_of) (simp add: entry_good_def)
    then show ?thesis by metis
  qed
  finally show ?thesis unfolding slot_at_Some by blast
qed

text \<open>
  C20. Eviction is invisible. Dropping the entries whose grace has elapsed changes no answer any
  reader gets at that time or later: not a lookup, not a listing, not a routing decision, not the set
  of live certificates.
\<close>
theorem sweep_invisible:
  assumes "reg_inv (\<lambda>c m. True) r" and "now \<le> t"
  shows "Cluster_view t cid (fst (sweep now r)) = Cluster_view t cid r
    \<and> Visible t p (fst (sweep now r)) = Visible t p r
    \<and> List_clusters t (fst (sweep now r)) = List_clusters t r
    \<and> snd (Session ended t cid (fst (sweep now r))) = snd (Session ended t cid r)
    \<and> set (LiveCertSerials (fst (sweep now r))) = set (LiveCertSerials r)
    \<and> ConnectedCount (fst (sweep now r)) = ConnectedCount r"
proof -
  let ?r = "fst (sweep now r)" and ?P = "\<lambda>t. \<lambda>(cid, e). presentLocked e t r"
  have wf: "wf_map (r_entries r)" using reg_invD(1) [OF assms(1)] .
  have r: "r_entries ?r = filter (?P now) (r_entries r)" "r_heap ?r = r_heap r" "r_grace ?r = r_grace r" by (simp_all add: sweep_def Let_def)
  have pres: "presentLocked e u ?r = presentLocked e u r" for e u by (simp add: presentLocked_def r(3))
  have look: "map_of (r_entries ?r) cid = (case map_of (r_entries r) cid of None \<Rightarrow> None | Some e \<Rightarrow> if presentLocked e now r then Some e else None)" for cid
    by (simp add: r(1) map_of_filter_wf [OF wf] split: option.splits)
  have view: "Cluster_view t cid ?r = Cluster_view t cid r"
    using present_antimono [OF _ assms(2)] by (auto simp: Cluster_view_def look pres r(2) split: option.splits)
  have sess: "snd (Session ended t cid ?r) = snd (Session ended t cid r)"
    using present_antimono [OF _ assms(2)] by (auto simp: Session_def look pres r(2) split: option.splits prod.splits)
  have "filter (?P t) (filter (?P now) (r_entries r)) = filter (?P t) (r_entries r)"
    using present_antimono [OF _ assms(2)] by (auto simp: intro!: filter_cong)
  then have filt: "filter_clusters t keep ?r = filter_clusters t keep r" for keep
    by (simp add: filter_clusters_def pres r(1,2))
  have certs: "set (LiveCertSerials ?r) = set (LiveCertSerials r)"
    by (simp add: set_eq_iff LiveCertSerials_iff [OF sweep_inv [OF assms(1)]] LiveCertSerials_iff [OF assms(1)] sweep_slot_at [OF wf] r(2))
  have "filter (\<lambda>(cid, e). e_slots e \<noteq> []) (filter (?P now) (r_entries r)) = filter (\<lambda>(cid, e). e_slots e \<noteq> []) (r_entries r)"
    by (auto simp: presentLocked_def intro!: filter_cong)
  then have count: "ConnectedCount ?r = ConnectedCount r" by (simp add: ConnectedCount_def connectedLocked_def r(1))
  show ?thesis using view sess certs count by (simp add: Visible_def List_clusters_def filt split: option.splits)
qed

text \<open>
  Losing its last pod starts a cluster's grace. From the release at \<open>now\<close> on, the cluster is shown
  as disconnected, last seen at \<open>now\<close>, with its last labels, for exactly the grace period; routing to it
  fails as not connected, and after the period also as unknown. With the period disabled it is
  forgotten at once.
\<close>
theorem disconnect_grace:
  assumes "reg_inv (\<lambda>c m. True) r" and "slot_at r cid key = Some p" and "\<forall>k. k \<noteq> key \<longrightarrow> slot_at r cid k = None"
    and "r_grace r = 0 \<or> 0 < r_grace r"
  shows "(\<forall>t. Cluster_view t cid (release now cid key p r) =
        (if r_grace r > 0 \<and> time_Sub t now \<le> r_grace r
         then Some ((sl_facts (r_heap r p))\<lparr>c_State := StateDisconnected, c_LastSeen := now, c_ConnectedSince := 0\<rparr>) else None))
    \<and> (\<forall>t ended. snd (Session ended t cid (release now cid key p r)) =
        (if r_grace r > 0 \<and> time_Sub t now \<le> r_grace r then Inl [ErrNotConnected] else Inl [ErrUnknownCluster, ErrNotConnected]))"
proof -
  obtain e where e: "map_of (r_entries r) cid = Some e" "map_of (e_slots e) key = Some p"
    using assms(2) by (auto simp: slot_at_def split: option.splits)
  have "map_of (AList.delete key (e_slots e)) k = None" for k
    using assms(3) by (cases "k = key") (auto simp: slot_at_entry [OF e(1)])
  then have del: "AList.delete key (e_slots e) = []" by (metis map_of_eq_empty_iff ext)
  let ?last = "(sl_facts (r_heap r p))\<lparr>c_State := StateDisconnected, c_LastSeen := now, c_ConnectedSince := 0\<rparr>"
  let ?r = "release now cid key p r" and ?e = "e\<lparr>e_slots := [], e_lastCluster := ?last\<rparr>"
  have r: "?r = (if r_grace r = 0 then (set_entry cid ?e (cancel p r))\<lparr>r_entries := AList.delete cid (r_entries (set_entry cid ?e (cancel p r)))\<rparr>
      else set_entry cid ?e (cancel p r))"
    using e by (simp add: release_def Let_def detachLocked_def del)
  have look: "map_of (r_entries ?r) cid = (if r_grace r = 0 then None else Some ?e)" "r_grace ?r = r_grace r"
    unfolding r by simp_all
  have pres: "presentLocked ?e t ?r \<longleftrightarrow> time_Sub t now \<le> r_grace r" for t by (simp add: presentLocked_def look(2))
  have pick: "pickLocked ended heap ?e = (?e, None)" for ended heap by (simp add: pickLocked_def pick_keys_def Let_def)
  have "Cluster_view t cid ?r = (if r_grace r > 0 \<and> time_Sub t now \<le> r_grace r then Some ?last else None)" for t
    using assms(4) pres by (auto simp: Cluster_view_def look(1) mergedLocked_empty)
  moreover have "snd (Session ended t cid ?r) = (if r_grace r > 0 \<and> time_Sub t now \<le> r_grace r then Inl [ErrNotConnected] else Inl [ErrUnknownCluster, ErrNotConnected])" for ended t
    using assms(4) pres pick by (auto simp: Session_def look(1))
  ultimately show ?thesis by simp
qed

text \<open>
  A pool of pods reads as one cluster. While any pod is attached, the public view was last seen
  when its most recent pod was, is connected since its oldest attached pod, is healthy exactly when
  some pod reaches its Prometheus, and takes everything else from a most recently refreshed pod.
\<close>
theorem pool_reads_as_one_cluster:
  assumes "map_of (r_entries r) cid = Some e" and "slots = set (map (\<lambda>(k, p). r_heap r p) (e_slots e))" and "slots \<noteq> {}"
    and "\<forall>sl \<in> slots. 0 < since_at sl \<and> 0 < seen_at sl"
  shows "\<exists>c fresh. Cluster_view now cid r = Some c \<and> fresh \<in> slots \<and> (\<forall>sl \<in> slots. seen_at sl \<le> seen_at fresh)
    \<and> c_LastSeen c = Max (seen_at ` slots) \<and> c_ConnectedSince c = Min (since_at ` slots)
    \<and> (Healthy c \<longleftrightarrow> (\<exists>sl \<in> slots. reaches sl))
    \<and> c = (sl_facts fresh)\<lparr>c_ID := cid, c_LastSeen := c_LastSeen c, c_ConnectedSince := c_ConnectedSince c, c_State := c_State c\<rparr>"
proof -
  let ?sls = "map (\<lambda>(k, p). r_heap r p) (e_slots e)" and ?c = "mergedLocked cid e (r_heap r)"
  have ne: "e_slots e \<noteq> []" using assms(2,3) by auto
  obtain k p where kp: "(k, p) \<in> set (e_slots e)" "\<forall>(k', p') \<in> set (e_slots e). seen_at (r_heap r p') \<le> seen_at (r_heap r p)"
    "?c = (sl_facts (r_heap r p))\<lparr>c_ID := cid, c_LastSeen := fold (\<lambda>x. max (seen_at x)) ?sls 0,
       c_ConnectedSince := fold (\<lambda>x t. if IsZero t then since_at x else min (since_at x) t) ?sls 0,
       c_State := (if \<exists>(k, p) \<in> set (e_slots e). reaches (r_heap r p) then StateConnected else StateDegraded)\<rparr>"
    by (rule mergedLocked_pool [OF ne])
  obtain x xs where sls: "?sls = x # xs" using ne by (cases ?sls) auto
  then have slots: "slots = insert x (set xs)" using assms(2) by simp
  have "fold (\<lambda>x. max (seen_at x)) ?sls 0 = Max (insert 0 (seen_at ` slots))" using fold_seen [of 0 ?sls] assms(2) by simp
  also have "\<dots> = max 0 (Max (seen_at ` slots))" using assms(2,3) by (intro Max_insert) auto
  also have "\<dots> = Max (seen_at ` slots)"
  proof -
    have "x \<in> slots" "finite slots" by (simp_all add: slots)
    then have "0 < seen_at x" "seen_at x \<le> Max (seen_at ` slots)" using assms(4) by simp_all
    then show ?thesis by simp
  qed
  finally have seen: "fold (\<lambda>x. max (seen_at x)) ?sls 0 = Max (seen_at ` slots)" .
  have since: "fold (\<lambda>x t. if IsZero t then since_at x else min (since_at x) t) ?sls 0 = Min (since_at ` slots)"
    using fold_since [of xs "since_at x"] assms(4) by (simp add: sls slots)
  have reach: "(\<exists>(k, p) \<in> set (e_slots e). reaches (r_heap r p)) \<longleftrightarrow> (\<exists>sl \<in> slots. reaches sl)" using assms(2) by (auto simp: split_def)
  have "Cluster_view now cid r = Some ?c" using assms(1) ne by (simp add: Cluster_view_def presentLocked_def)
  moreover have "r_heap r p \<in> slots" "\<forall>sl \<in> slots. seen_at sl \<le> seen_at (r_heap r p)" using kp(1,2) assms(2) by force+
  moreover have "c_LastSeen ?c = Max (seen_at ` slots)" "c_ConnectedSince ?c = Min (since_at ` slots)"
    unfolding kp(3) seen since by simp_all
  moreover have "Healthy ?c \<longleftrightarrow> (\<exists>sl \<in> slots. reaches sl)" unfolding kp(3) reach by (simp add: Healthy_def)
  moreover have "?c = (sl_facts (r_heap r p))\<lparr>c_ID := cid, c_LastSeen := c_LastSeen ?c, c_ConnectedSince := c_ConnectedSince ?c, c_State := c_State ?c\<rparr>"
    unfolding kp(3) by simp
  ultimately show ?thesis by blast
qed

subsection \<open>A run of the registry\<close>

definition example_idle :: slot where
  "example_idle = \<lparr>sl_session = 0, sl_generation = 0, sl_fingerprint = '''', sl_certSerial = '''', sl_cancelled = False,
     sl_facts = zero_Cluster, sl_spokeLabels = []\<rparr>"

definition example_r0 :: Registry where
  "example_r0 = projr (New_Registry (\<lambda>_. example_idle) 0 0 0 0)"

definition example_source :: label_source where
  "example_source = hub_labels (Inr example_state)"

definition example_ident :: Identity where
  "example_ident = \<lparr>id_ClusterID = ''c1'', id_CertSerial = ''0a'', id_CertNotAfter = 1000, id_RemoteAddr = '''', id_InstanceID = ''pod''\<rparr>"

definition example_described :: Facts where
  "example_described = \<lparr>f_Fingerprint = ''f'', f_Changed = True, f_Cluster = zero_Cluster\<lparr>c_Labels := [(''env'', ''dev'')]\<rparr>, f_Generation = 3\<rparr>"

definition example_prepared :: "string \<times> string \<times> slot" where
  "example_prepared = projr (snd (OnSession_begin example_source 10 (Some (7, example_ident)) (Inr example_described) 3 example_r0))"

definition example_r1 :: Registry where
  "example_r1 = (case example_prepared of (cid, key, sl) \<Rightarrow> fst (OnSession_publish cid key sl example_r0))"

lemma example_runs:
  "enrollmentLabels (Some (Inr example_state)) ''c1'' = Inr [(''env'', ''prod'')]"
  "isl (New_Registry (\<lambda>_. example_idle) 0 0 0 0) = False"
  "isl (snd (OnSession_begin example_source 10 (Some (7, example_ident)) (Inr example_described) 3 example_r0)) = False"
  by code_simp+

lemma example_view:
  "fst example_prepared = ''c1''" "fst (snd example_prepared) = ''instance:pod''" "isl (snd (OnSession_publish ''c1'' ''instance:pod'' (snd (snd example_prepared)) example_r0)) = False"
  "Cluster_view 11 ''c1'' example_r1 \<noteq> None" "slot_at example_r1 ''c1'' ''instance:pod'' = Some 0"
  by code_simp+

lemma example_inv: "reg_inv G example_r0"
proof -
  have "New_Registry (\<lambda>_. example_idle) 0 0 0 0 = Inr example_r0" using example_runs(2) by (auto simp: example_r0_def isl_def)
  then show ?thesis by (rule reg_inv_New)
qed

lemma example_steps:
  "OnSession_begin example_source 10 (Some (7, example_ident)) (Inr example_described) 3 example_r0
     = (fst (OnSession_begin example_source 10 (Some (7, example_ident)) (Inr example_described) 3 example_r0),
        Inr (''c1'', ''instance:pod'', snd (snd example_prepared)))"
  "example_r1 = fst (OnSession_publish ''c1'' ''instance:pod'' (snd (snd example_prepared)) example_r0)"
  "reg_steps (labelled ''c1'' ''env'' ''prod'') example_r0 example_r1"
proof -
  show begun: "OnSession_begin example_source 10 (Some (7, example_ident)) (Inr example_described) 3 example_r0
     = (fst (OnSession_begin example_source 10 (Some (7, example_ident)) (Inr example_described) 3 example_r0),
        Inr (''c1'', ''instance:pod'', snd (snd example_prepared)))"
  proof (rule prod_eqI)
    have "snd (OnSession_begin example_source 10 (Some (7, example_ident)) (Inr example_described) 3 example_r0) = Inr example_prepared"
      using example_runs(3) by (simp add: example_prepared_def)
    moreover have "example_prepared = (''c1'', ''instance:pod'', snd (snd example_prepared))"
      using example_view(1,2) by (simp add: prod_eq_iff)
    ultimately show "snd (OnSession_begin example_source 10 (Some (7, example_ident)) (Inr example_described) 3 example_r0)
        = snd (fst (OnSession_begin example_source 10 (Some (7, example_ident)) (Inr example_described) 3 example_r0),
            Inr (''c1'', ''instance:pod'', snd (snd example_prepared)))" by simp
  qed simp
  show r1: "example_r1 = fst (OnSession_publish ''c1'' ''instance:pod'' (snd (snd example_prepared)) example_r0)"
    using example_view(1,2) by (simp add: example_r1_def split_def)
  have "example_source \<in> labelled ''c1'' ''env'' ''prod''"
    using example_runs(1) by (auto simp: labelled_def example_source_def intro!: exI [of _ "Inr example_state"])
  then show "reg_steps (labelled ''c1'' ''env'' ''prod'') example_r0 example_r1"
    unfolding r1 by (intro r_into_rtranclp step_publish [OF _ begun])
qed

lemma example_inv1: "reg_inv (\<lambda>c m. True) example_r1"
  using structural.steps_keep [OF example_steps(3)] example_inv by blast

theorem operator_labels_win_witness:
  "\<exists>c. Cluster_view 11 ''c1'' example_r1 = Some c \<and> map_of (c_Labels c) ''env'' = Some ''prod''"
proof -
  obtain c where "Cluster_view 11 ''c1'' example_r1 = Some c" using example_view(4) by blast
  moreover have "New_Registry (\<lambda>_. example_idle) 0 0 0 0 = Inr example_r0" using example_runs(2) by (auto simp: example_r0_def isl_def)
  ultimately show ?thesis using operator_labels_win [OF _ example_steps(3)] by blast
qed

theorem reconnect_race_decided_once_witness:
  "\<not> isl (snd (OnSession_publish ''c1'' ''instance:pod'' (snd (snd example_prepared)) example_r1))"
proof -
  have "\<not> r_closed example_r1" "sl_generation (snd (snd example_prepared)) = 3" "sl_generation (r_heap example_r1 0) = 3" by code_simp+
  then show ?thesis
    using reconnect_race_decided_once [OF example_inv1 example_steps(1) prod.collapse [symmetric]] example_view(5) by simp
qed

theorem revoked_sessions_closed_witness:
  "slot_at (fst (closeVictims 12 (snd (judge (\<lambda>asked s. (asked @ [s], s = ''0a'')) (r_heap example_r1) (candidates example_r1) [] [])) example_r1))
     ''c1'' ''instance:pod'' = None"
proof -
  have "slot_at example_r1 ''c1'' ''instance:pod'' = Some 0" "sl_certSerial (r_heap example_r1 0) = ''0a''" by code_simp+
  then show ?thesis
    using revoked_sessions_closed [OF example_inv1, of "\<lambda>s. s = ''0a''" _ _ 12 example_r1, OF prod.collapse [symmetric] prod.collapse [symmetric]]
    by simp
qed

lemma example_entry: "map_of (r_entries example_r1) ''c1'' = Some \<lparr>e_slots = [(''instance:pod'', 0)], e_rr = 0, e_lastCluster = zero_Cluster\<rparr>"
  by code_simp

text \<open>A second pod of the same cluster joins.\<close>

definition example_joined :: "string \<times> string \<times> slot" where
  "example_joined = projr (snd (OnSession_begin example_source 11 (Some (8, example_ident\<lparr>id_InstanceID := ''pod2''\<rparr>)) (Inr example_described) 3 example_r1))"

definition example_r2 :: Registry where
  "example_r2 = (case example_joined of (cid, key, sl) \<Rightarrow> fst (OnSession_publish cid key sl example_r1))"

lemma example_pool:
  "fst example_joined = ''c1''" "fst (snd example_joined) = ''instance:pod2''"
  "isl (snd (OnSession_begin example_source 11 (Some (8, example_ident\<lparr>id_InstanceID := ''pod2''\<rparr>)) (Inr example_described) 3 example_r1)) = False"
  "map_of (r_entries example_r2) ''c1'' = Some \<lparr>e_slots = [(''instance:pod'', 0), (''instance:pod2'', 1)], e_rr = 0, e_lastCluster = zero_Cluster\<rparr>"
  "sl_session (r_heap example_r2 0) = 7" "sl_session (r_heap example_r2 1) = 8" "\<not> reaches (r_heap example_r2 0)" "\<not> reaches (r_heap example_r2 1)"
  by code_simp+

lemma example_inv2: "reg_inv (\<lambda>c m. True) example_r2"
proof -
  let ?b = "OnSession_begin example_source 11 (Some (8, example_ident\<lparr>id_InstanceID := ''pod2''\<rparr>)) (Inr example_described) 3 example_r1"
  have "snd ?b = Inr example_joined" using example_pool(3) by (simp add: example_joined_def)
  moreover have joined: "example_joined = (''c1'', ''instance:pod2'', snd (snd example_joined))" using example_pool(1,2) by (simp add: prod_eq_iff)
  ultimately have begun: "?b = (fst ?b, Inr (''c1'', ''instance:pod2'', snd (snd example_joined)))" by (metis prod.collapse)
  have "example_r2 = fst (OnSession_publish ''c1'' ''instance:pod2'' (snd (snd example_joined)) example_r1)"
    using example_pool(1,2) by (simp add: example_r2_def split_def)
  moreover have "example_source \<in> labelled ''c1'' ''env'' ''prod''"
    using example_runs(1) by (auto simp: labelled_def example_source_def intro!: exI [of _ "Inr example_state"])
  ultimately have "reg_steps (labelled ''c1'' ''env'' ''prod'') example_r1 example_r2"
    by (metis r_into_rtranclp step_publish [OF _ begun])
  then show ?thesis using structural.steps_keep example_inv1 by blast
qed

theorem routing_is_fair_witness:
  "mset (snd (Session_calls 2 (\<lambda>s. s = 3) 12 ''c1'' example_r2)) = {#Inr 7, Inr 8#}"
proof -
  let ?ended = "\<lambda>s. s = (3::nat)" and ?ready = "{0, 1 :: nat}"
  have at: "slot_at example_r2 ''c1'' k = (if k = ''instance:pod'' then Some 0 else if k = ''instance:pod2'' then Some 1 else None)" for k
    by (simp add: slot_at_entry [OF example_pool(4)])
  have slots: "slot_at example_r2 ''c1'' k = Some p \<Longrightarrow> p = 0 \<or> p = 1" for k p unfolding at by (simp split: if_splits)
  have "slot_at example_r2 ''c1'' ''instance:pod'' = Some 0" "slot_at example_r2 ''c1'' ''instance:pod2'' = Some 1" unfolding at by simp_all
  then have "?ready = {p. \<exists>k. slot_at example_r2 ''c1'' k = Some p}" using slots by blast
  moreover have "\<not> ?ended (sl_session (r_heap example_r2 p)) \<and> \<not> reaches (r_heap example_r2 p)" if "slot_at example_r2 ''c1'' k = Some p" for k p
    using slots [OF that]
  proof
    assume "p = 0"
    then show ?thesis using example_pool(5,7) by simp
  next
    assume "p = 1"
    then show ?thesis using example_pool(6,8) by simp
  qed
  ultimately have "?ready = {p. \<exists>k. slot_at example_r2 ''c1'' k = Some p \<and> \<not> ?ended (sl_session (r_heap example_r2 p))
      \<and> (reaches (r_heap example_r2 p) \<or> (\<forall>k' q. slot_at example_r2 ''c1'' k' = Some q \<longrightarrow> ?ended (sl_session (r_heap example_r2 q)) \<or> \<not> reaches (r_heap example_r2 q)))}"
    by (auto simp del: One_nat_def)
  from routing_is_fair [OF example_inv2 example_pool(4) this, of 12]
  have "mset (snd (Session_calls (card ?ready) ?ended 12 ''c1'' example_r2)) = image_mset (\<lambda>p. Inr (sl_session (r_heap example_r2 p))) (mset_set ?ready)" by simp
  moreover have "card ?ready = 2" by simp
  ultimately show ?thesis using example_pool(5,6) by (simp add: numeral_2_eq_2)
qed

theorem Visible_exact_witness:
  "let who = \<lambda>sc. Some \<lparr>p_KID = ''k'', p_Name = ''n'', p_Class = ClassAgent, p_Role = RoleViewer, p_Scope = Some sc, p_Epoch = 0\<rparr>
   in map c_ID (Visible 11 (who example_scope) example_r1) = [''c1'']
     \<and> Visible 11 (who (example_scope\<lparr>sc_Clusters := (sc_Clusters example_scope)\<lparr>cs_Deny := [''c1'']\<rparr>\<rparr>)) example_r1 = []"
proof -
  let ?denied = "example_scope\<lparr>sc_Clusters := (sc_Clusters example_scope)\<lparr>cs_Deny := [''c1'']\<rparr>\<rparr>"
  let ?who = "\<lambda>sc. Some \<lparr>p_KID = ''k'', p_Name = ''n'', p_Class = ClassAgent, p_Role = RoleViewer, p_Scope = Some sc, p_Epoch = 0\<rparr>"
  have only: "map fst (r_entries example_r1) = [''c1'']" by code_simp
  have "map_option (\<lambda>c. (c_ID c, AllowsCluster (Some example_scope) ''c1'' (c_Labels c), AllowsCluster (Some ?denied) ''c1'' (c_Labels c))) (Cluster_view 11 ''c1'' example_r1)
    = Some (''c1'', True, False)" by code_simp
  then obtain c where c: "Cluster_view 11 ''c1'' example_r1 = Some c" "c_ID c = ''c1''" "AllowsCluster (Some example_scope) ''c1'' (c_Labels c)"
    "\<not> AllowsCluster (Some ?denied) ''c1'' (c_Labels c)" by auto
  have "Cluster_view 11 cid example_r1 = None" if "cid \<noteq> ''c1''" for cid
    using only that by (cases "map_of (r_entries example_r1) cid") (auto simp: Cluster_view_def dest!: map_of_SomeD)
  then have view: "Cluster_view 11 (c_ID d) example_r1 = Some d \<longleftrightarrow> d = c" for d using c(1,2) by (cases "c_ID d = ''c1''") auto
  have shown: "set (Visible 11 (?who sc) example_r1) = {d. d = c \<and> AllowsCluster (Some sc) (c_ID d) (c_Labels d)}" for sc
    using Visible_exact [OF example_inv1, of 11 "?who sc", THEN conjunct2] by (simp only: view option.inject ex_simps simp_thms) simp
  have "set (Visible 11 (?who ?denied) example_r1) = {}" unfolding shown using c(2,4) by auto
  then have "Visible 11 (?who ?denied) example_r1 = []" by (simp only: set_empty)
  moreover have "set (Visible 11 (?who example_scope) example_r1) = {c}" unfolding shown using c(2,3) by auto
  moreover have "sorted_wrt (\<lambda>a b. c_ID a < c_ID b) (Visible 11 (?who example_scope) example_r1)"
    using Visible_exact [OF example_inv1] by blast
  ultimately show ?thesis using c(2) by (cases "Visible 11 (?who example_scope) example_r1" rule: remdups_adj.cases) auto
qed

theorem sweep_invisible_witness:
  "Cluster_view 12 ''c1'' (fst (sweep 11 example_r1)) = Cluster_view 12 ''c1'' example_r1"
  using sweep_invisible [OF example_inv1, of 11 12 "''c1''"] by simp

theorem disconnect_grace_witness:
  "snd (Session (\<lambda>_. False) 20 ''c1'' (release 15 ''c1'' ''instance:pod'' 0 example_r1)) = Inl [ErrNotConnected]"
proof -
  have g: "r_grace example_r1 = 300000000000" by code_simp
  have at: "slot_at example_r1 ''c1'' k = (if k = ''instance:pod'' then Some 0 else None)" for k
    by (simp add: slot_at_entry [OF example_entry])
  have "time_Sub 20 15 = 5" by code_simp
  then show ?thesis using disconnect_grace [OF example_inv1, of "''c1''" "''instance:pod''" 0 15] by (simp add: at g)
qed

theorem pool_reads_as_one_cluster_witness:
  "\<exists>c. Cluster_view 12 ''c1'' example_r1 = Some c \<and> c_LastSeen c = 10 \<and> \<not> Healthy c"
proof -
  have facts: "seen_at (r_heap example_r1 0) = 10" "since_at (r_heap example_r1 0) = 10" "\<not> reaches (r_heap example_r1 0)" by code_simp+
  show ?thesis
    using pool_reads_as_one_cluster [OF example_entry refl, of 12] facts by auto
qed

end
