(* ===== verification/Nearest.thy ===== *)
theory Nearest
  imports Registry
begin

text \<open>
  Suggestions for a mistyped cluster name, \<open>internal/registry/nearest.go\<close>. \<open>strings.ToLower\<close> followed by
  the conversion to runes is the argument \<open>lower\<close>: its Unicode case tables are not reproduced here.
\<close>

definition MaxNearestInputRunes :: nat where "MaxNearestInputRunes = 64"

definition truncateRunes :: "nat list \<Rightarrow> nat \<Rightarrow> nat list" where
  "truncateRunes rs n = (if length rs > n then take n rs else rs)"

text \<open>The body of the inner loop, on the working row and the diagonal value \<open>prev\<close>.\<close>

definition lev_cell :: "nat \<Rightarrow> nat list \<Rightarrow> nat \<Rightarrow> nat list \<times> nat \<Rightarrow> nat list \<times> nat" where
  "lev_cell ai b j = (\<lambda>(row, prev).
     let cur = row ! j;
         cost = (if ai = b ! (j - 1) then 0 else 1)
     in (row[j := min (row ! j + 1) (min (row ! (j - 1) + 1) (prev + cost))], cur))"

definition lev_row :: "nat list \<Rightarrow> nat list \<Rightarrow> nat \<Rightarrow> nat list \<Rightarrow> nat list" where
  "lev_row a b i row =
     (let prev = row ! 0; row = row[0 := i]
      in fst (fold (lev_cell (a ! (i - 1)) b) [1..<length b + 1] (row, prev)))"

definition levenshtein :: "nat list \<Rightarrow> nat list \<Rightarrow> nat" where
  "levenshtein a b =
     (let (a, b) = (if length a < length b then (b, a) else (a, b))
      in if b = [] then length a
         else fold (lev_row a b) [1..<length a + 1] [0..<length b + 1] ! length b)"

definition Nearest :: "(string \<Rightarrow> nat list) \<Rightarrow> string \<Rightarrow> int \<Rightarrow> gotime \<Rightarrow> Registry \<Rightarrow> string list" where
  "Nearest lower name n now r =
     (if n \<le> 0 then []
      else
        (let target = truncateRunes (lower name) MaxNearestInputRunes;
             cands = map (\<lambda>(cid, e). (levenshtein target (truncateRunes (lower cid) MaxNearestInputRunes), cid))
                       (filter (\<lambda>(cid, e). presentLocked e now r) (r_entries r))
         in map snd (take (nat n) (sort cands))))"

subsection \<open>Edit scripts\<close>

text \<open>\<open>edit xs ys n\<close>: \<open>n\<close> insertions, deletions and substitutions turn \<open>xs\<close> into \<open>ys\<close>.\<close>

inductive edit :: "'a list \<Rightarrow> 'a list \<Rightarrow> nat \<Rightarrow> bool" where
  nil: "edit [] [] 0"
| keep: "edit xs ys n \<Longrightarrow> edit (x # xs) (x # ys) n"
| subst: "edit xs ys n \<Longrightarrow> edit (x # xs) (y # ys) (Suc n)"
| del: "edit xs ys n \<Longrightarrow> edit (x # xs) ys (Suc n)"
| ins: "edit xs ys n \<Longrightarrow> edit xs (y # ys) (Suc n)"

fun lev :: "'a list \<Rightarrow> 'a list \<Rightarrow> nat" where
  "lev [] ys = length ys"
| "lev xs [] = length xs"
| "lev (x # xs) (y # ys) =
     min (lev xs (y # ys) + 1) (min (lev (x # xs) ys + 1) (lev xs ys + (if x = y then 0 else 1)))"

lemma lev_Nil [simp]: "lev xs [] = length xs"
  by (cases xs) simp_all

lemma edit_ins_all: "edit [] ys (length ys)"
  by (induction ys) (auto intro: edit.intros)

lemma edit_del_all: "edit xs [] (length xs)"
  by (induction xs) (auto intro: edit.intros)

lemma edit_lev: "edit xs ys (lev xs ys)"
proof (induction xs ys rule: lev.induct)
  case (3 x xs y ys)
  have "edit (x # xs) (y # ys) (lev xs (y # ys) + 1)" "edit (x # xs) (y # ys) (lev (x # xs) ys + 1)"
    using edit.del [OF 3(1)] edit.ins [OF 3(2)] by simp_all
  moreover have "edit (x # xs) (y # ys) (lev xs ys + (if x = y then 0 else 1))"
    using 3(3) by (auto intro: edit.intros)
  ultimately show ?case by (auto simp: min_def)
next
  case (2 x xs)
  then show ?case using edit_del_all [of "x # xs"] by simp
qed (simp add: edit_ins_all)

lemma lev_steps: "lev (x # xs) ys \<le> Suc (lev xs ys)" "lev xs (y # ys) \<le> Suc (lev xs ys)"
  "lev (x # xs) (y # ys) \<le> lev xs ys + (if x = y then 0 else 1)"
  by (cases ys; simp) (cases xs; simp)+

lemma lev_least: "edit xs ys n \<Longrightarrow> lev xs ys \<le> n"
proof (induction rule: edit.induct)
  case (keep xs ys n x)
  then show ?case using lev_steps(3) [of x xs x ys] by simp
next
  case (subst xs ys n x y)
  then show ?case using lev_steps(3) [of x xs y ys] by (auto split: if_splits)
next
  case (del xs ys n x)
  then show ?case using lev_steps(1) [of x xs ys] by simp
next
  case (ins xs ys n y)
  then show ?case using lev_steps(2) [of xs y ys] by simp
qed simp

lemma edit_append: "edit xs ys n \<Longrightarrow> edit xs' ys' m \<Longrightarrow> edit (xs @ xs') (ys @ ys') (n + m)"
  by (induction rule: edit.induct) (auto intro: edit.intros)

lemma edit_one: "edit [x] [x] 0" "edit [x] [y] (Suc 0)" "edit [x] [] (Suc 0)" "edit [] [y] (Suc 0)"
  by (auto intro: edit.intros)

lemma edit_rev: "edit xs ys n \<Longrightarrow> edit (rev xs) (rev ys) n"
proof (induction rule: edit.induct)
  case (keep xs ys n x)
  then show ?case using edit_append [OF keep.IH edit_one(1)] by simp
next
  case (subst xs ys n x y)
  then show ?case using edit_append [OF subst.IH edit_one(2)] by simp
next
  case (del xs ys n x)
  then show ?case using edit_append [OF del.IH edit_one(3)] by simp
next
  case (ins xs ys n y)
  then show ?case using edit_append [OF ins.IH edit_one(4)] by simp
qed (simp add: edit.nil)

lemma edit_sym: "edit xs ys n \<Longrightarrow> edit ys xs n"
  by (induction rule: edit.induct) (auto intro: edit.intros)

lemma lev_sym: "lev xs ys = lev ys xs"
  by (rule antisym) (auto intro!: lev_least edit_sym [OF edit_lev])

lemma lev_rev: "lev (rev xs) (rev ys) = lev xs ys"
proof (rule antisym)
  show "lev (rev xs) (rev ys) \<le> lev xs ys" by (intro lev_least edit_rev edit_lev)
  show "lev xs ys \<le> lev (rev xs) (rev ys)" using lev_least [OF edit_rev [OF edit_lev [of "rev xs" "rev ys"]]] by simp
qed

subsection \<open>The one-row computation\<close>

text \<open>The distance of two prefixes, the value of one cell of the full table.\<close>

definition cell :: "nat list \<Rightarrow> nat list \<Rightarrow> nat \<Rightarrow> nat \<Rightarrow> nat" where
  "cell a b i j = lev (rev (take i a)) (rev (take j b))"

lemma cell_simps:
  "cell a b 0 j = min j (length b)" "cell a b i 0 = min i (length a)"
  "i < length a \<Longrightarrow> j < length b \<Longrightarrow>
   cell a b (Suc i) (Suc j) = min (cell a b i (Suc j) + 1) (min (cell a b (Suc i) j + 1) (cell a b i j + (if a ! i = b ! j then 0 else 1)))"
  by (simp_all add: cell_def take_Suc_conv_app_nth)

definition row_is :: "nat list \<Rightarrow> nat list \<Rightarrow> nat \<Rightarrow> nat list \<Rightarrow> bool" where
  "row_is a b i row \<longleftrightarrow> length row = length b + 1 \<and> (\<forall>j \<le> length b. row ! j = cell a b i j)"

definition row_upto :: "nat list \<Rightarrow> nat list \<Rightarrow> nat \<Rightarrow> nat \<Rightarrow> nat list \<times> nat \<Rightarrow> bool" where
  "row_upto a b i j st \<longleftrightarrow> length (fst st) = length b + 1
     \<and> (\<forall>k \<le> length b. fst st ! k = (if k < j then cell a b (Suc i) k else cell a b i k)) \<and> snd st = cell a b i (j - 1)"

lemma lev_cell_step:
  assumes "row_upto a b i j st" and "i < length a" and "1 \<le> j" and "j \<le> length b"
  shows "row_upto a b i (Suc j) (lev_cell (a ! i) b j st)"
proof -
  obtain j' where j: "j = Suc j'" using assms(3) by (cases j) simp_all
  have "cell a b (Suc i) j = min (cell a b i j + 1) (min (cell a b (Suc i) (j - 1) + 1) (cell a b i (j - 1) + (if a ! i = b ! (j - 1) then 0 else 1)))"
    using assms(2,4) by (simp add: j cell_simps(3))
  moreover have row: "length (fst st) = length b + 1" "fst st ! j = cell a b i j" "fst st ! (j - 1) = cell a b (Suc i) (j - 1)" "snd st = cell a b i (j - 1)"
    using assms(1,3,4) by (simp_all add: row_upto_def)
  ultimately have step: "lev_cell (a ! i) b j st = ((fst st)[j := cell a b (Suc i) j], cell a b i j)"
    by (simp add: lev_cell_def split_def Let_def)
  have "(fst st)[j := cell a b (Suc i) j] ! k = (if k < Suc j then cell a b (Suc i) k else cell a b i k)" if "k \<le> length b" for k
    using that assms(1) row(1) by (cases "k = j") (simp_all add: row_upto_def)
  then show ?thesis using row(1) by (simp add: row_upto_def step)
qed

lemma lev_cells:
  assumes "row_upto a b i 1 st" and "i < length a" and "m \<le> length b"
  shows "row_upto a b i (Suc m) (fold (lev_cell (a ! i) b) [1..<Suc m] st)"
  using assms(3)
proof (induction m)
  case (Suc m)
  then have "row_upto a b i (Suc m) (fold (lev_cell (a ! i) b) [1..<Suc m] st)" by simp
  from lev_cell_step [OF this assms(2)] Suc.prems show ?case by simp
qed (use assms(1) in simp)

lemma lev_row_step:
  assumes "row_is a b i row" and "i < length a"
  shows "row_is a b (Suc i) (lev_row a b (Suc i) row)"
proof -
  have "row_upto a b i 1 (row[0 := Suc i], row ! 0)"
    using assms by (auto simp: row_is_def row_upto_def nth_list_update cell_simps)
  from lev_cells [OF this assms(2), of "length b"] show ?thesis
    by (auto simp: lev_row_def Let_def row_upto_def row_is_def)
qed

lemma lev_rows: "i \<le> length a \<Longrightarrow> row_is a b i (fold (lev_row a b) [1..<Suc i] [0..<length b + 1])"
proof (induction i)
  case 0
  then show ?case by (auto simp: row_is_def cell_simps nth_append simp del: upt_Suc)
next
  case (Suc i)
  then show ?case using lev_row_step [of a b i] by simp
qed

lemma levenshtein_lev: "levenshtein a b = lev a b"
proof -
  have row: "fold (lev_row a b) [1..<length a + 1] [0..<length b + 1] ! length b = lev a b" for a b
    using lev_rows [of "length a" a b] lev_rev [of a b] by (simp add: row_is_def cell_def)
  show ?thesis
  proof (cases "length a < length b")
    case True
    then show ?thesis using row [of b a] lev_sym [of a b] by (simp add: levenshtein_def del: upt_Suc)
  next
    case False
    then show ?thesis using row [of a b] by (simp add: levenshtein_def del: upt_Suc)
  qed
qed

text \<open>
  C29. The edit distance computed in one row of working state is the true one: that many insertions,
  deletions and substitutions turn one name into the other, and no fewer do.
\<close>
theorem levenshtein_is_minimal:
  "edit a b (levenshtein a b) \<and> (\<forall>n. edit a b n \<longrightarrow> levenshtein a b \<le> n)"
  using edit_lev lev_least by (auto simp: levenshtein_lev)

theorem levenshtein_is_minimal_witness: "levenshtein [1, 2, 3] [1, 3] \<le> 1"
proof -
  have "edit [1, 2, 3 :: nat] [1, 3] (Suc 0)" by (intro edit.intros)
  then show ?thesis using levenshtein_is_minimal [of "[1, 2, 3]" "[1, 3]"] by auto
qed

text \<open>
  C30. Suggestions are the closest names. Up to \<open>n\<close> names of present clusters are returned, nearest
  first and alphabetically among equals, and a present cluster is left out only if all those returned
  are at least as close.
\<close>
theorem Nearest_closest:
  assumes "reg_inv (\<lambda>c m. True) r" and "0 < n"
    and "key = (\<lambda>cid. (levenshtein (truncateRunes (lower name) MaxNearestInputRunes) (truncateRunes (lower cid) MaxNearestInputRunes), cid))"
    and "present = {cid. Cluster_view now cid r \<noteq> None}"
  shows "sorted_wrt (\<lambda>a b. key a < key b) (Nearest lower name n now r) \<and> set (Nearest lower name n now r) \<subseteq> present
    \<and> length (Nearest lower name n now r) = min (nat n) (card present)
    \<and> (\<forall>cid \<in> present - set (Nearest lower name n now r). \<forall>s \<in> set (Nearest lower name n now r). key s \<le> key cid)"
proof -
  let ?es = "filter (\<lambda>(cid, e). presentLocked e now r) (r_entries r)"
  define cands where "cands = map (key \<circ> fst) ?es"
  have near: "Nearest lower name n now r = map snd (take (nat n) (sort cands))"
    using assms(2,3) by (simp add: Nearest_def cands_def split_def comp_def)
  have ids: "set (map fst ?es) = present"
    using reg_invD(1) [OF assms(1)] by (auto simp: assms(4) Cluster_view_def mem_map_of split: option.splits) (force simp: mem_map_of)
  have wf: "distinct (map fst ?es)" using reg_invD(1) [OF assms(1)] by simp
  have snd_key: "snd (key c) = c" for c by (simp add: assms(3))
  have cands: "cands = map key (map fst ?es)" by (simp add: cands_def)
  have keyed: "x = key (snd x)" if "x \<in> set cands" for x using that snd_key by (auto simp: cands)
  have cset: "set cands = key ` present" unfolding cands set_map ids [symmetric] ..
  have "inj key" by (metis injI snd_key)
  then have dc: "distinct cands" unfolding cands using wf by (metis distinct_map inj_on_subset subset_UNIV)
  have sorted: "sorted_wrt (<) (take (nat n) (sort cands))" using dc by (simp add: strict_sorted_iff sorted_wrt_take)
  have sub: "set (take (nat n) (sort cands)) \<subseteq> set cands" using set_take_subset [of "nat n" "sort cands"] by simp
  have mk: "map key (Nearest lower name n now r) = take (nat n) (sort cands)"
    unfolding near map_map by (rule map_idI) (use sub keyed in force)
  have mem: "key s \<in> set (take (nat n) (sort cands)) \<longleftrightarrow> s \<in> set (Nearest lower name n now r)" for s
    unfolding mk [symmetric] set_map using inj_image_mem_iff [OF \<open>inj key\<close>] .
  have "sorted_wrt (\<lambda>a b. key a < key b) (Nearest lower name n now r)" using sorted unfolding mk [symmetric] sorted_wrt_map .
  moreover have "set (Nearest lower name n now r) \<subseteq> present"
  proof
    fix s assume "s \<in> set (Nearest lower name n now r)"
    then have "key s \<in> key ` present" using sub mem unfolding cset by blast
    then show "s \<in> present" by (simp add: inj_image_mem_iff [OF \<open>inj key\<close>])
  qed
  moreover have "length (Nearest lower name n now r) = min (nat n) (card present)"
    using distinct_card [OF wf] ids by (simp add: near cands min.commute)
  moreover have "key s \<le> key cid" if "cid \<in> present - set (Nearest lower name n now r)" "s \<in> set (Nearest lower name n now r)" for cid s
  proof -
    have "key cid \<in> set (sort cands)" using that(1) by (simp add: cset)
    then have "key cid \<in> set (drop (nat n) (sort cands))"
      using that(1) mem append_take_drop_id [of "nat n" "sort cands"] by (metis DiffE Un_iff set_append)
    moreover have "key s \<in> set (take (nat n) (sort cands))" using that(2) mem by simp
    moreover have "sorted (take (nat n) (sort cands) @ drop (nat n) (sort cands))" by simp
    ultimately show ?thesis unfolding sorted_append by blast
  qed
  ultimately show ?thesis by blast
qed

theorem Nearest_closest_witness:
  "set (Nearest runes ''c2'' 3 11 example_r1) \<subseteq> {cid. Cluster_view 11 cid example_r1 \<noteq> None}"
  using Nearest_closest [OF example_inv1, of 3 _ runes "''c2''" _ 11] by simp

end
