(* ===== verification/Promapi.thy ===== *)
theory Promapi
  imports Go_Strings
begin

text \<open>
  The allow-list of upstream calls, \<open>internal/promapi/promapi.go\<close>: which Prometheus endpoints exist,
  which parameters each takes, and how a path is built by the hub and recognised again by the spoke.

  The route table is written out as in the source, without the one-line summaries that only feed
  documentation. Go visits it in an unspecified order; the table here has the source's order. The
  regular expressions are recognisers. \<open>time.Parse(time.RFC3339, \<dots>)\<close> and \<open>strconv.ParseFloat\<close> are
  arguments: whether the former accepts a text, and whether the latter accepts it and if so whether
  the number is at most zero.
\<close>

datatype promapi_error =
    ErrUnknownEndpoint | ErrEndpointGated | ErrInvalidParam | ErrInvalidLabelName

type_synonym Endpoint = string

definition EndpointQuery :: Endpoint where "EndpointQuery = ''query''"
definition EndpointQueryRange :: Endpoint where "EndpointQueryRange = ''query_range''"
definition EndpointQueryExemplars :: Endpoint where "EndpointQueryExemplars = ''query_exemplars''"
definition EndpointSeries :: Endpoint where "EndpointSeries = ''series''"
definition EndpointLabels :: Endpoint where "EndpointLabels = ''labels''"
definition EndpointLabelValues :: Endpoint where "EndpointLabelValues = ''label_values''"
definition EndpointMetadata :: Endpoint where "EndpointMetadata = ''metadata''"
definition EndpointTargets :: Endpoint where "EndpointTargets = ''targets''"
definition EndpointTargetsMetadata :: Endpoint where "EndpointTargetsMetadata = ''targets_metadata''"
definition EndpointRules :: Endpoint where "EndpointRules = ''rules''"
definition EndpointAlerts :: Endpoint where "EndpointAlerts = ''alerts''"
definition EndpointAlertmanagers :: Endpoint where "EndpointAlertmanagers = ''alertmanagers''"
definition EndpointTSDBStatus :: Endpoint where "EndpointTSDBStatus = ''tsdb_status''"
definition EndpointRuntimeInfo :: Endpoint where "EndpointRuntimeInfo = ''runtime_info''"
definition EndpointBuildInfo :: Endpoint where "EndpointBuildInfo = ''build_info''"
definition EndpointFlags :: Endpoint where "EndpointFlags = ''flags''"
definition EndpointConfig :: Endpoint where "EndpointConfig = ''config''"

datatype ParamKind =
    KindPromQL | KindTime | KindDuration | KindMatcher | KindLabelName | KindMetricName | KindInt | KindEnum

record Param =
  pa_Name :: string
  pa_Kind :: ParamKind
  pa_Required :: bool
  pa_Repeated :: bool
  pa_Enum :: "string list"

record Route =
  ro_Endpoint :: Endpoint
  ro_Method :: string
  ro_PathTemplate :: string
  ro_Params :: "Param list"
  ro_Gated :: bool

definition label_hole :: string where "label_hole = ''{label}''"

definition HasPathParam :: "Route \<Rightarrow> bool" where
  "HasPathParam r = Contains (ro_PathTemplate r) label_hole"

text \<open>A parameter that is optional, one that is required, and one that may be repeated.\<close>

definition opt :: "string \<Rightarrow> ParamKind \<Rightarrow> Param" where
  "opt n k = \<lparr>pa_Name = n, pa_Kind = k, pa_Required = False, pa_Repeated = False, pa_Enum = []\<rparr>"

definition req :: "string \<Rightarrow> ParamKind \<Rightarrow> Param" where
  "req n k = (opt n k)\<lparr>pa_Required := True\<rparr>"

definition rep :: "Param \<Rightarrow> Param" where
  "rep p = p\<lparr>pa_Repeated := True\<rparr>"

definition enum_param :: "string \<Rightarrow> string list \<Rightarrow> Param" where
  "enum_param n vs = (opt n KindEnum)\<lparr>pa_Enum := vs\<rparr>"

definition route :: "Endpoint \<Rightarrow> string \<Rightarrow> string \<Rightarrow> Param list \<Rightarrow> Route" where
  "route e m t ps = \<lparr>ro_Endpoint = e, ro_Method = m, ro_PathTemplate = t, ro_Params = ps, ro_Gated = False\<rparr>"

definition commonSelectorParams :: "Param list" where
  "commonSelectorParams = [rep (opt ''match[]'' KindMatcher), opt ''start'' KindTime, opt ''end'' KindTime, opt ''limit'' KindInt]"

definition routes :: "(Endpoint, Route) gomap" where
  "routes = map (\<lambda>r. (ro_Endpoint r, r))
     [route EndpointQuery ''POST'' ''/api/v1/query''
        [req ''query'' KindPromQL, opt ''time'' KindTime, opt ''timeout'' KindDuration, opt ''limit'' KindInt],
      route EndpointQueryRange ''POST'' ''/api/v1/query_range''
        [req ''query'' KindPromQL, req ''start'' KindTime, req ''end'' KindTime, req ''step'' KindDuration,
         opt ''timeout'' KindDuration, opt ''limit'' KindInt],
      route EndpointQueryExemplars ''POST'' ''/api/v1/query_exemplars''
        [req ''query'' KindPromQL, req ''start'' KindTime, req ''end'' KindTime],
      route EndpointSeries ''POST'' ''/api/v1/series''
        [rep (req ''match[]'' KindMatcher), opt ''start'' KindTime, opt ''end'' KindTime, opt ''limit'' KindInt],
      route EndpointLabels ''POST'' ''/api/v1/labels'' commonSelectorParams,
      route EndpointLabelValues ''GET'' ''/api/v1/label/{label}/values'' commonSelectorParams,
      route EndpointMetadata ''GET'' ''/api/v1/metadata''
        [opt ''metric'' KindMetricName, opt ''limit'' KindInt, opt ''limit_per_metric'' KindInt],
      route EndpointTargets ''GET'' ''/api/v1/targets''
        [enum_param ''state'' [''active'', ''dropped'', ''any''], opt ''scrapePool'' KindLabelName],
      route EndpointTargetsMetadata ''GET'' ''/api/v1/targets/metadata''
        [opt ''match_target'' KindMatcher, opt ''metric'' KindMetricName, opt ''limit'' KindInt],
      route EndpointRules ''GET'' ''/api/v1/rules''
        [enum_param ''type'' [''alert'', ''record''], rep (opt ''rule_name[]'' KindMetricName),
         rep (opt ''rule_group[]'' KindMetricName), rep (opt ''file[]'' KindMetricName),
         enum_param ''exclude_alerts'' [''true'', ''false'']],
      route EndpointAlerts ''GET'' ''/api/v1/alerts'' [],
      route EndpointAlertmanagers ''GET'' ''/api/v1/alertmanagers'' [],
      route EndpointTSDBStatus ''GET'' ''/api/v1/status/tsdb'' [opt ''limit'' KindInt],
      route EndpointRuntimeInfo ''GET'' ''/api/v1/status/runtimeinfo'' [],
      route EndpointBuildInfo ''GET'' ''/api/v1/status/buildinfo'' [],
      route EndpointFlags ''GET'' ''/api/v1/status/flags'' [],
      (route EndpointConfig ''GET'' ''/api/v1/status/config'' [])\<lparr>ro_Gated := True\<rparr>]"

definition Endpoints :: "Endpoint list" where
  "Endpoints = sort (map fst routes)"

definition Get :: "Endpoint \<Rightarrow> promapi_error + Route" where
  "Get e = (case map_of routes e of None \<Rightarrow> Inl ErrUnknownEndpoint | Some r \<Rightarrow> Inr r)"

subsection \<open>Names\<close>

definition label_start :: "char \<Rightarrow> bool" where "label_start c \<longleftrightarrow> is_letter c \<or> c = CHR ''_''"
definition label_char :: "char \<Rightarrow> bool" where "label_char c \<longleftrightarrow> label_start c \<or> is_digit c"

definition labelNameRE :: "string \<Rightarrow> bool" where
  "labelNameRE s = (case s of [] \<Rightarrow> False | c # cs \<Rightarrow> label_start c \<and> list_all label_char cs)"

definition metricNameRE :: "string \<Rightarrow> bool" where
  "metricNameRE s =
     (case s of
        [] \<Rightarrow> False
      | c # cs \<Rightarrow> (label_start c \<or> c = CHR '':'') \<and> list_all (\<lambda>c. label_char c \<or> c = CHR '':'') cs)"

definition MaxLabelNameBytes :: nat where "MaxLabelNameBytes = 128"
definition MaxPromQLBytes :: nat where "MaxPromQLBytes = 8192"
definition MaxParamBytes :: nat where "MaxParamBytes = 2048"
definition MaxRepeatedParams :: nat where "MaxRepeatedParams = 64"

definition ValidateLabelName :: "string \<Rightarrow> promapi_error option" where
  "ValidateLabelName name =
     (if length name > MaxLabelNameBytes then Some ErrInvalidLabelName
      else if \<not> labelNameRE name then Some ErrInvalidLabelName
      else None)"

definition BuildPath :: "Endpoint \<Rightarrow> string \<Rightarrow> promapi_error + string" where
  "BuildPath e labelName =
     (case Get e of
        Inl err \<Rightarrow> Inl err
      | Inr r \<Rightarrow>
          if \<not> HasPathParam r then
            (if labelName \<noteq> '''' then Inl ErrInvalidParam else Inr (ro_PathTemplate r))
          else
            (case ValidateLabelName labelName of
               Some err \<Rightarrow> Inl err
             | None \<Rightarrow> Inr (Replace1 (ro_PathTemplate r) label_hole (PathEscape labelName))))"

subsection \<open>Parameter values\<close>

definition isForbiddenRune :: "nat \<Rightarrow> bool" where
  "isForbiddenRune r \<longleftrightarrow> r < 0x20 \<or> (0x7f \<le> r \<and> r \<le> 0x9f)"

text \<open>
  \<open>promDurationRE\<close>: each unit is optional, in a fixed order, so matching keeps every text that may
  remain after the units tried so far.
\<close>

definition unit_rests :: "string \<Rightarrow> string \<Rightarrow> string list" where
  "unit_rests u s =
     (let rest = dropWhile is_digit s
      in if takeWhile is_digit s \<noteq> [] \<and> HasPrefix rest u then [s, drop (length u) rest] else [s])"

definition promDurationRE :: "string \<Rightarrow> bool" where
  "promDurationRE s =
     ([] \<in> set (fold (\<lambda>u rests. concat (map (unit_rests u) rests)) [''y'', ''w'', ''d'', ''h'', ''m'', ''s'', ''ms''] [s]))"

definition validateTime :: "(string \<Rightarrow> bool) \<Rightarrow> (string \<Rightarrow> bool option) \<Rightarrow> string \<Rightarrow> bool" where
  "validateTime rfc3339 parseFloat v =
     (if rfc3339 v then True else if parseFloat v \<noteq> None then True else False)"

definition validateDuration :: "(string \<Rightarrow> bool option) \<Rightarrow> string \<Rightarrow> bool" where
  "validateDuration parseFloat v =
     (if v = '''' then False
      else (case parseFloat v of
              Some nonpositive \<Rightarrow> \<not> nonpositive
            | None \<Rightarrow> promDurationRE v))"

text \<open>\<open>True\<close> is the nil error.\<close>

definition validateValue :: "(string \<Rightarrow> bool) \<Rightarrow> (string \<Rightarrow> bool option) \<Rightarrow> Param \<Rightarrow> string \<Rightarrow> bool" where
  "validateValue rfc3339 parseFloat p v =
     (let limit = (if pa_Kind p = KindPromQL then MaxPromQLBytes else MaxParamBytes)
      in if length v > limit then False
         else if list_ex isForbiddenRune (runes v) then False
         else (case pa_Kind p of
                 KindPromQL \<Rightarrow> TrimSpace v \<noteq> ''''
               | KindMatcher \<Rightarrow> TrimSpace v \<noteq> ''''
               | KindTime \<Rightarrow> validateTime rfc3339 parseFloat v
               | KindDuration \<Rightarrow> validateDuration parseFloat v
               | KindLabelName \<Rightarrow> labelNameRE v
               | KindMetricName \<Rightarrow> metricNameRE v
               | KindInt \<Rightarrow> (case ParseInt v of None \<Rightarrow> False | Some n \<Rightarrow> 0 \<le> n)
               | KindEnum \<Rightarrow> v \<in> set (pa_Enum p)))"

type_synonym Values = "(string, string list) gomap"

definition values_of :: "Values \<Rightarrow> string \<Rightarrow> string list" where
  "values_of form name = (case map_of form name of None \<Rightarrow> [] | Some vs \<Rightarrow> vs)"

definition entry_ok :: "(string \<Rightarrow> bool) \<Rightarrow> (string \<Rightarrow> bool option) \<Rightarrow> (string, Param) gomap \<Rightarrow> string \<Rightarrow> string list \<Rightarrow> bool" where
  "entry_ok rfc3339 parseFloat byName name values =
     (case map_of byName name of
        None \<Rightarrow> False
      | Some p \<Rightarrow>
          if \<not> pa_Repeated p \<and> length values > 1 then False
          else if length values > MaxRepeatedParams then False
          else list_all (validateValue rfc3339 parseFloat p) values)"

text \<open>\<open>None\<close> is the nil error.\<close>

definition Validate ::
    "(string \<Rightarrow> bool) \<Rightarrow> (string \<Rightarrow> bool option) \<Rightarrow> Endpoint \<Rightarrow> Values \<Rightarrow> bool \<Rightarrow> promapi_error option" where
  "Validate rfc3339 parseFloat e form gatedEnabled =
     (case Get e of
        Inl err \<Rightarrow> Some err
      | Inr r \<Rightarrow>
          if ro_Gated r \<and> \<not> gatedEnabled then Some ErrEndpointGated
          else
            (let byName = fold (\<lambda>p m. AList.update (pa_Name p) p m) (ro_Params r) []
             in if \<not> list_all (\<lambda>(name, values). entry_ok rfc3339 parseFloat byName name values) form then Some ErrInvalidParam
                else if list_ex (\<lambda>p. pa_Required p \<and> values_of form (pa_Name p) = []) (ro_Params r) then Some ErrInvalidParam
                else None))"

subsection \<open>Recognising a path\<close>

text \<open>One round of the loop in \<open>Lookup\<close>: the label name, if the route matches.\<close>

definition route_match :: "string \<Rightarrow> string \<Rightarrow> Route \<Rightarrow> string option" where
  "route_match method path r =
     (if \<not> EqualFold (ro_Method r) method then None
      else if \<not> HasPathParam r then (if ro_PathTemplate r = path then Some '''' else None)
      else
        (case Cut (ro_PathTemplate r) label_hole of
           None \<Rightarrow> None
         | Some (prefix, suffix) \<Rightarrow>
             if length path \<le> length prefix + length suffix \<or> \<not> HasPrefix path prefix \<or> \<not> HasSuffix path suffix then None
             else
               (let mid = take (length path - length suffix - length prefix) (drop (length prefix) path)
                in if ValidateLabelName mid \<noteq> None then None else Some mid)))"

fun first_match :: "string \<Rightarrow> string \<Rightarrow> Route list \<Rightarrow> (Route \<times> string) option" where
  "first_match method path [] = None"
| "first_match method path (r # rs) =
     (case route_match method path r of Some l \<Rightarrow> Some (r, l) | None \<Rightarrow> first_match method path rs)"

text \<open>The routes are visited in the order \<open>order\<close>, some enumeration of the table.\<close>

definition Lookup :: "Route list \<Rightarrow> string \<Rightarrow> string \<Rightarrow> (Route \<times> string) option" where
  "Lookup order method path =
     (if path = '''' \<or> hd path \<noteq> CHR ''/'' \<or> Contains path ''..'' \<or> Contains path ''//''
         \<or> list_ex (\<lambda>c. c \<in> {CHR 0x5C, CHR 0x00, CHR ''%''}) path
      then None else first_match method path order)"

subsection \<open>The table\<close>

definition table :: "Route list" where
  "table = map snd routes"

definition label_route :: Route where
  "label_route = route EndpointLabelValues ''GET'' ''/api/v1/label/{label}/values'' commonSelectorParams"

lemma table_facts:
  "wf_map routes" "list_all (\<lambda>r. map_of routes (ro_Endpoint r) = Some r) table"
  "list_all (\<lambda>r. HasPathParam r = (r = label_route)) table"
  "distinct (map ro_PathTemplate table)" "list_all (\<lambda>r. r = label_route \<or> \<not> HasPrefix (ro_PathTemplate r) ''/api/v1/label/'') table"
  "list_all (\<lambda>r. r = label_route \<or> hd (ro_PathTemplate r) = CHR ''/'' \<and> list_all (\<lambda>c. label_char c \<or> c = CHR ''/'') (ro_PathTemplate r)
      \<and> \<not> Contains (ro_PathTemplate r) ''//'' \<and> HasPrefix (ro_PathTemplate r) ''/api/v1/'') table"
  "list_all (\<lambda>r. distinct (map pa_Name (ro_Params r))) table"
  "Cut (ro_PathTemplate label_route) label_hole = Some (''/api/v1/label/'', ''/values'')" "label_route \<in> set table"
  by code_simp+

lemma tableD:
  assumes "r \<in> set table"
  shows "Get (ro_Endpoint r) = Inr r" and "HasPathParam r \<longleftrightarrow> r = label_route"
    and "distinct (map pa_Name (ro_Params r))"
  using assms table_facts(2,3,7) by (auto simp: list_all_iff Get_def)

lemma static_template:
  assumes "r \<in> set table" and "r \<noteq> label_route"
  shows "\<not> HasPrefix (ro_PathTemplate r) ''/api/v1/label/''" and "hd (ro_PathTemplate r) = CHR ''/''"
    and "list_all (\<lambda>c. label_char c \<or> c = CHR ''/'') (ro_PathTemplate r)" and "\<not> Contains (ro_PathTemplate r) ''//''"
    and "HasPrefix (ro_PathTemplate r) ''/api/v1/''"
  using assms table_facts(5,6) by (auto simp: list_all_iff)

lemma Get_table: "Get e = Inr r \<longleftrightarrow> r \<in> set table \<and> ro_Endpoint r = e"
proof
  assume "Get e = Inr r"
  then have m: "map_of routes e = Some r" by (simp add: Get_def split: option.splits)
  then have "(e, r) \<in> set routes" by (rule map_of_SomeD)
  moreover have "\<forall>(e, r) \<in> set routes. ro_Endpoint r = e" by (auto simp: routes_def)
  ultimately show "r \<in> set table \<and> ro_Endpoint r = e" by (force simp: table_def)
qed (use tableD(1) in blast)

lemma label_name_path_safe: "labelNameRE l \<Longrightarrow> list_all path_safe l"
  by (auto simp: labelNameRE_def label_char_def label_start_def path_safe_def list_all_iff split: list.splits)

lemma label_name_chars: "labelNameRE l \<Longrightarrow> l \<noteq> [] \<and> list_all label_char l"
  by (auto simp: labelNameRE_def label_char_def split: list.splits)

lemma BuildPath_static:
  assumes "r \<in> set table" and "r \<noteq> label_route"
  shows "BuildPath (ro_Endpoint r) l = Inr p \<longleftrightarrow> l = '''' \<and> p = ro_PathTemplate r"
  using tableD [OF assms(1)] assms(2) by (auto simp: BuildPath_def)

lemma BuildPath_label:
  "BuildPath (ro_Endpoint label_route) l = Inr p \<longleftrightarrow> ValidateLabelName l = None \<and> p = ''/api/v1/label/'' @ l @ ''/values''"
proof -
  have "ValidateLabelName l = None \<Longrightarrow> PathEscape l = l"
    by (auto simp: ValidateLabelName_def PathEscape_safe label_name_path_safe split: if_splits)
  then show ?thesis using tableD [OF table_facts(9)] table_facts(8)
    by (auto simp: BuildPath_def Replace1_def split: option.splits)
qed

lemma between_iff:
  "length pre + length suf < length path \<and> HasPrefix path pre \<and> HasSuffix path suf
     \<and> mid = take (length path - length suf - length pre) (drop (length pre) path)
   \<longleftrightarrow> mid \<noteq> [] \<and> path = pre @ mid @ suf"
proof
  assume a: "length pre + length suf < length path \<and> HasPrefix path pre \<and> HasSuffix path suf
     \<and> mid = take (length path - length suf - length pre) (drop (length pre) path)"
  then have "\<exists>t. path = pre @ t" "\<exists>u. path = u @ suf" unfolding HasPrefix_iff HasSuffix_iff by blast+
  then obtain t u where t: "path = pre @ t" and u: "path = u @ suf" by blast
  have "length pre < length u" using a u by simp
  then obtain w where w: "u = pre @ w" using t u by (metis append_eq_append_conv_if append_take_drop_id less_imp_le)
  then show "mid \<noteq> [] \<and> path = pre @ mid @ suf" using a u by auto
qed (auto simp: HasPrefix_iff HasSuffix_iff)

text \<open>A route matches a path exactly when the path is the one built for it.\<close>

lemma route_match_iff:
  assumes "r \<in> set table"
  shows "route_match method path r = Some l \<longleftrightarrow> EqualFold (ro_Method r) method \<and> BuildPath (ro_Endpoint r) l = Inr path"
proof (cases "r = label_route")
  case False
  then show ?thesis using tableD(2) [OF assms] by (auto simp: route_match_def BuildPath_static [OF assms False])
next
  case True
  have nonempty: "ValidateLabelName l = None \<Longrightarrow> l \<noteq> []" for l
    using label_name_chars by (auto simp: ValidateLabelName_def split: if_splits)
  have "route_match method path r = Some l \<longleftrightarrow> EqualFold (ro_Method r) method \<and> ValidateLabelName l = None \<and> path = ''/api/v1/label/'' @ l @ ''/values''"
  proof -
    have "route_match method path r = Some l \<longleftrightarrow> EqualFold (ro_Method r) method
      \<and> (length ''/api/v1/label/'' + length ''/values'' < length path \<and> HasPrefix path ''/api/v1/label/'' \<and> HasSuffix path ''/values''
          \<and> l = take (length path - length ''/values'' - length ''/api/v1/label/'') (drop (length ''/api/v1/label/'') path))
      \<and> ValidateLabelName l = None"
      using True tableD(2) [OF assms] table_facts(8) unfolding route_match_def Let_def
      by (simp del: HasPrefix.simps list.size) auto
    then show ?thesis unfolding between_iff using nonempty [of l] by blast
  qed
  then show ?thesis unfolding True BuildPath_label .
qed

lemma route_match_unique:
  assumes "r \<in> set table" and "r' \<in> set table" and "route_match method path r = Some l" and "route_match method path r' = Some l'"
  shows "r = r' \<and> l = l'"
proof -
  have b: "BuildPath (ro_Endpoint r) l = Inr path" "BuildPath (ro_Endpoint r') l' = Inr path" using assms route_match_iff by simp_all
  have prefix: "HasPrefix path ''/api/v1/label/''" if "r = label_route \<or> r' = label_route"
    using that b BuildPath_label by (auto simp: HasPrefix_iff)
  have static: "\<not> HasPrefix path ''/api/v1/label/''"
    if "x \<in> set table" "x \<noteq> label_route" "BuildPath (ro_Endpoint x) y = Inr path" for x y
    using static_template(1) [OF that(1,2)] that(3) unfolding BuildPath_static [OF that(1,2)] by blast
  consider "r = label_route" "r' = label_route" | "r \<noteq> label_route" "r' \<noteq> label_route" | "(r = label_route) \<noteq> (r' = label_route)" by blast
  then show ?thesis
  proof cases
    case 1
    then show ?thesis using b by (simp add: BuildPath_label)
  next
    case 2
    then show ?thesis using b assms(1,2) table_facts(4) by (simp add: BuildPath_static distinct_map inj_on_def)
  next
    case 3
    then show ?thesis using prefix static [OF assms(1) _ b(1)] static [OF assms(2) _ b(2)] by blast
  qed
qed

lemma first_match_iff:
  assumes "\<And>r r' l l'. r \<in> set rs \<Longrightarrow> r' \<in> set rs \<Longrightarrow> route_match m p r = Some l \<Longrightarrow> route_match m p r' = Some l' \<Longrightarrow> r = r' \<and> l = l'"
  shows "first_match m p rs = Some (r, l) \<longleftrightarrow> r \<in> set rs \<and> route_match m p r = Some l"
  using assms
proof (induction rs)
  case (Cons a rs)
  have IH: "first_match m p rs = Some (r, l) \<longleftrightarrow> r \<in> set rs \<and> route_match m p r = Some l"
    by (rule Cons.IH) (rule Cons.prems; simp)
  show ?case
  proof (cases "route_match m p a")
    case None
    then show ?thesis using IH by auto
  next
    case (Some x)
    then show ?thesis using Cons.prems [of a r x l] by auto
  qed
qed simp

subsection \<open>Paths\<close>

lemma Contains_subset: "Contains s p \<Longrightarrow> set p \<subseteq> set s"
  by (auto simp: Contains_iff)

lemma Contains_pair:
  "Contains (xs @ ys) [c, c] \<longleftrightarrow> Contains xs [c, c] \<or> Contains ys [c, c] \<or> (xs \<noteq> [] \<and> ys \<noteq> [] \<and> last xs = c \<and> hd ys = c)"
proof (induction xs)
  case (Cons a xs)
  then show ?case by (cases xs; cases ys) auto
qed auto

definition canonical :: "string \<Rightarrow> bool" where
  "canonical path \<longleftrightarrow> HasPrefix path ''/api/v1/'' \<and> list_all (\<lambda>c. label_char c \<or> c = CHR ''/'') path \<and> \<not> Contains path ''//''"

lemma label_char_slash: "\<not> label_char CHR ''/''" "\<not> label_char CHR ''.''" "\<not> label_char CHR 0x5C" "\<not> label_char CHR 0x00" "\<not> label_char CHR ''%''"
  by code_simp+

lemma built_canonical:
  assumes "r \<in> set table" and "BuildPath (ro_Endpoint r) l = Inr path"
  shows "canonical path"
proof (cases "r = label_route")
  case False
  then show ?thesis using static_template [OF assms(1) False] assms by (simp add: canonical_def BuildPath_static)
next
  case True
  then have l: "labelNameRE l" "path = ''/api/v1/label/'' @ l @ ''/values''"
    using assms(2) by (auto simp: BuildPath_label ValidateLabelName_def split: if_splits)
  have chars: "l \<noteq> []" "list_all label_char l" using label_name_chars [OF l(1)] by simp_all
  then have "CHR ''/'' \<notin> set l" using label_char_slash(1) by (auto simp: list_all_iff)
  then have "\<not> Contains l ''//''" "hd l \<noteq> CHR ''/''" "last l \<noteq> CHR ''/''" using Contains_subset [of l "''//''"] hd_in_set [OF chars(1)] last_in_set [OF chars(1)] by auto
  moreover have "\<not> Contains ''/values'' ''//''" "\<not> Contains ''/api/v1/label/'' ''//''" by code_simp+
  ultimately have "\<not> Contains path ''//''" unfolding l(2) Contains_pair using chars(1) by simp
  moreover have "HasPrefix path ''/api/v1/''" unfolding l(2) HasPrefix_iff by simp
  moreover have "list_all (\<lambda>c. label_char c \<or> c = CHR ''/'') ''/api/v1/label/''" "list_all (\<lambda>c. label_char c \<or> c = CHR ''/'') ''/values''" by code_simp+
  ultimately show ?thesis using chars(2) by (auto simp: canonical_def l(2) list_all_iff)
qed

lemma canonical_passes:
  assumes "canonical path"
  shows "path \<noteq> ''''" and "hd path = CHR ''/''" and "\<not> Contains path ''..''" and "\<not> Contains path ''//''"
    and "\<not> list_ex (\<lambda>c. c \<in> {CHR 0x5C, CHR 0x00, CHR ''%''}) path"
proof -
  obtain t where "path = ''/api/v1/'' @ t" using assms by (auto simp: canonical_def HasPrefix_iff)
  then show "path \<noteq> ''''" "hd path = CHR ''/''" by simp_all
  have chars: "\<forall>c \<in> set path. label_char c \<or> c = CHR ''/''" using assms by (simp add: canonical_def list_all_iff)
  then have "CHR ''.'' \<notin> set path" using label_char_slash by auto
  then show "\<not> Contains path ''..''" using Contains_subset [of path "''..''"] by auto
  show "\<not> Contains path ''//''" using assms by (simp add: canonical_def)
  show "\<not> list_ex (\<lambda>c. c \<in> {CHR 0x5C, CHR 0x00, CHR ''%''}) path"
    using chars label_char_slash by (auto simp: list_ex_iff)
qed

lemma Lookup_iff:
  assumes "set order = set table"
  shows "Lookup order method path = Some (r, l) \<longleftrightarrow>
    Get (ro_Endpoint r) = Inr r \<and> EqualFold (ro_Method r) method \<and> BuildPath (ro_Endpoint r) l = Inr path"
proof -
  have "first_match method path order = Some (r, l) \<longleftrightarrow> r \<in> set order \<and> route_match method path r = Some l"
    by (rule first_match_iff) (use assms route_match_unique in auto)
  then have first: "first_match method path order = Some (r, l) \<longleftrightarrow>
      r \<in> set table \<and> EqualFold (ro_Method r) method \<and> BuildPath (ro_Endpoint r) l = Inr path"
    using assms route_match_iff by blast
  have mem: "Get (ro_Endpoint r) = Inr r \<longleftrightarrow> r \<in> set table" by (simp add: Get_table)
  show ?thesis
  proof (cases "canonical path")
    case True
    then have "Lookup order method path = first_match method path order" using canonical_passes [OF True] by (simp add: Lookup_def)
    then show ?thesis using first mem by simp
  next
    case False
    then have "\<not> (r \<in> set table \<and> BuildPath (ro_Endpoint r) l = Inr path)" using built_canonical by blast
    moreover from this have "Lookup order method path \<noteq> Some (r, l)" using first by (auto simp: Lookup_def)
    ultimately show ?thesis using mem by blast
  qed
qed

text \<open>
  C21. The spoke's check is the inverse of the hub's construction. In whatever order the table is
  visited, a path resolves to a route and a label name exactly when building that route's path with
  that name gives the path, byte for byte, and the method is the route's. So at most one route and
  one name explain a path.
\<close>
theorem Lookup_inverts_BuildPath:
  assumes "set order = set (map snd routes)"
  shows "(Lookup order method path = Some (r, l) \<longleftrightarrow>
      Get (ro_Endpoint r) = Inr r \<and> EqualFold (ro_Method r) method \<and> BuildPath (ro_Endpoint r) l = Inr path)
    \<and> (BuildPath e name = Inr path \<longrightarrow> (\<exists>r. Get e = Inr r \<and> Lookup order (ro_Method r) path = Some (r, name)))"
proof -
  have order: "set order = set table" using assms by (simp add: table_def)
  have "\<exists>r. Get e = Inr r \<and> Lookup order (ro_Method r) path = Some (r, name)" if built: "BuildPath e name = Inr path"
  proof -
    obtain r where r: "Get e = Inr r" using built by (auto simp: BuildPath_def split: sum.splits)
    then have "ro_Endpoint r = e" by (simp add: Get_table)
    then show ?thesis using r built Lookup_iff [OF order, of "ro_Method r" path r name] by (auto simp: EqualFold_def)
  qed
  then show ?thesis using Lookup_iff [OF order, of _ path r l] by blast
qed

theorem Lookup_inverts_BuildPath_witness:
  "\<exists>r. Get ''label_values'' = Inr r \<and> Lookup (rev (map snd routes)) (ro_Method r) ''/api/v1/label/job/values'' = Some (r, ''job'')"
proof -
  have "BuildPath ''label_values'' ''job'' = Inr ''/api/v1/label/job/values''" by code_simp
  moreover have "set (rev (map snd routes)) = set (map snd routes)" by simp
  ultimately show ?thesis using Lookup_inverts_BuildPath [of "rev (map snd routes)" _ "''/api/v1/label/job/values''" _ _ "''label_values''" "''job''"] by blast
qed

text \<open>
  C28. No request escapes the API. Every path the spoke resolves lies under \<open>/api/v1/\<close>, consists of
  letters, digits, underscores and single slashes, and its label name, the only part a caller
  chooses, is at most 128 of those characters without a slash.
\<close>
theorem resolved_path_is_confined:
  assumes "set order = set (map snd routes)" and "Lookup order method path = Some (r, l)"
  shows "HasPrefix path ''/api/v1/'' \<and> list_all (\<lambda>c. label_char c \<or> c = CHR ''/'') path \<and> \<not> Contains path ''//''
    \<and> (l = '''' \<or> ValidateLabelName l = None \<and> length l \<le> MaxLabelNameBytes \<and> CHR ''/'' \<notin> set l)"
proof -
  have order: "set order = set table" using assms(1) by (simp add: table_def)
  have b: "r \<in> set table" "BuildPath (ro_Endpoint r) l = Inr path"
    using Lookup_iff [OF order] assms(2) by (simp_all add: Get_table)
  have "l = '''' \<or> ValidateLabelName l = None"
    using b BuildPath_static BuildPath_label by (cases "r = label_route") auto
  moreover have "length l \<le> MaxLabelNameBytes \<and> CHR ''/'' \<notin> set l" if "ValidateLabelName l = None"
    using that label_name_chars [of l] label_char_slash(1) by (auto simp: ValidateLabelName_def list_all_iff split: if_splits)
  ultimately show ?thesis using built_canonical [OF b] by (auto simp: canonical_def)
qed

theorem resolved_path_is_confined_witness:
  "HasPrefix ''/api/v1/label/job/values'' ''/api/v1/''"
proof -
  have "BuildPath (ro_Endpoint label_route) ''job'' = Inr ''/api/v1/label/job/values''" "ro_Method label_route = ''GET''" by code_simp+
  moreover have "Get (ro_Endpoint label_route) = Inr label_route" by (rule tableD(1) [OF table_facts(9)])
  ultimately have "Lookup (map snd routes) ''GET'' ''/api/v1/label/job/values'' = Some (label_route, ''job'')"
    using Lookup_iff [of "map snd routes" "''GET''"] by (simp add: table_def EqualFold_def)
  from resolved_path_is_confined [OF refl this] show ?thesis by (rule conjunct1)
qed

subsection \<open>Values\<close>

lemma span_nonempty: "(r, b) \<in> set (rune_spans s) \<Longrightarrow> b \<noteq> []"
proof (induction s rule: rune_spans.induct)
  case (1 s)
  have "s \<noteq> []" using 1(2) by auto
  moreover from this have "take (snd (decode_rune s)) s \<noteq> []" using decode_rune_width [of s] by (cases s) auto
  ultimately show ?case using 1(2) 1(1) [OF _ refl prod.collapse] by (subst (asm) rune_spans.simps) (auto simp: split_def Let_def)
qed

lemma dropWhile_both: "dropWhile P (rev (dropWhile P xs)) = [] \<longleftrightarrow> (\<forall>x \<in> set xs. P x)"
proof (cases "dropWhile P xs = []")
  case True
  then show ?thesis by (auto dest: set_dropWhileD)
next
  case False
  then have "hd (dropWhile P xs) \<in> set (dropWhile P xs)" "\<not> P (hd (dropWhile P xs))" by (simp_all add: hd_dropWhile)
  then show ?thesis by (metis dropWhile_eq_Nil_conv set_dropWhileD set_rev)
qed

lemma TrimSpace_empty: "TrimSpace v = '''' \<longleftrightarrow> list_all IsSpace (runes v)"
proof -
  define d where "d = dropWhile (IsSpace \<circ> fst) (rev (dropWhile (IsSpace \<circ> fst) (rune_spans v)))"
  have ne: "snd x \<noteq> []" if "x \<in> set d" for x
  proof -
    have "x \<in> set (rune_spans v)" using that by (auto simp: d_def dest!: set_dropWhileD)
    then show ?thesis using span_nonempty [of "fst x" "snd x"] by simp
  qed
  have "TrimSpace v = '''' \<longleftrightarrow> (\<forall>x \<in> set d. snd x = [])" by (simp add: TrimSpace_def d_def)
  also have "\<dots> \<longleftrightarrow> d = []" using ne by (cases d) auto
  also have "\<dots> \<longleftrightarrow> (\<forall>x \<in> set (rune_spans v). (IsSpace \<circ> fst) x)" unfolding d_def by (rule dropWhile_both)
  finally show ?thesis by (simp add: runes_def list_all_iff)
qed

lemma decode_tail:
  "snd (decode2 b c1) = 1 \<or> snd (decode2 b c1) = 2 \<and> 0x80 \<le> byte c1"
  "snd (decode3 b c1 c2) = 1 \<or> snd (decode3 b c1 c2) = 3 \<and> 0x80 \<le> byte c1 \<and> 0x80 \<le> byte c2"
  "snd (decode4 b c1 c2 c3) = 1 \<or> snd (decode4 b c1 c2 c3) = 4 \<and> 0x80 \<le> byte c1 \<and> 0x80 \<le> byte c2 \<and> 0x80 \<le> byte c3"
  by (simp_all add: decode2_def decode3_def decode4_def cont_def Let_def)

lemma decode_span:
  assumes "0x80 \<le> byte a"
  shows "\<forall>c \<in> set (take (snd (decode_rune (a # rest))) (a # rest)). 0x80 \<le> byte c"
proof -
  have "snd (decode_rune (a # rest)) = 1 \<or> (\<exists>c1 r. rest = c1 # r \<and> decode_rune (a # rest) = decode2 (byte a) c1)
      \<or> (\<exists>c1 c2 r. rest = c1 # c2 # r \<and> decode_rune (a # rest) = decode3 (byte a) c1 c2)
      \<or> (\<exists>c1 c2 c3 r. rest = c1 # c2 # c3 # r \<and> decode_rune (a # rest) = decode4 (byte a) c1 c2 c3)"
    using assms by (simp add: decode_rune_def Let_def split: list.split)
  then consider "snd (decode_rune (a # rest)) = 1" | c1 r where "rest = c1 # r" "decode_rune (a # rest) = decode2 (byte a) c1"
    | c1 c2 r where "rest = c1 # c2 # r" "decode_rune (a # rest) = decode3 (byte a) c1 c2"
    | c1 c2 c3 r where "rest = c1 # c2 # c3 # r" "decode_rune (a # rest) = decode4 (byte a) c1 c2 c3"
    by blast
  then show ?thesis
  proof cases
    case 2
    then show ?thesis using decode_tail(1) [of "byte a" c1] assms by auto
  next
    case 3
    then show ?thesis using decode_tail(2) [of "byte a" c1 c2] assms by auto
  next
    case 4
    then show ?thesis using decode_tail(3) [of "byte a" c1 c2 c3] assms by auto
  qed (use assms in simp)
qed

lemma ascii_byte_decoded:
  assumes "c \<in> set s" and "byte c < 0x80"
  shows "byte c \<in> set (runes s)"
  using assms(1)
proof (induction s rule: rune_spans.induct)
  case (1 s)
  then obtain a rest where s: "s = a # rest" by (cases s) auto
  let ?w = "snd (decode_rune s)"
  have spans: "rune_spans s = (fst (decode_rune s), take ?w s) # rune_spans (drop ?w s)"
    by (subst rune_spans.simps) (simp add: s split_def Let_def)
  show ?case
  proof (cases "c \<in> set (drop ?w s)")
    case True
    then have "byte c \<in> set (runes (drop ?w s))" using 1(1) [OF _ refl prod.collapse] s by simp
    then show ?thesis by (simp add: runes_def spans)
  next
    case False
    then have "c \<in> set (take ?w s)" using 1(2) append_take_drop_id [of ?w s] by (metis Un_iff set_append)
    then have "byte a < 0x80" using decode_span [of a rest] assms(2) by (force simp: s)
    then have "decode_rune s = (byte a, 1)" by (simp add: s decode_rune_def Let_def)
    then have "c = a \<and> decode_rune s = (byte a, 1)" using \<open>c \<in> set (take ?w s)\<close> by (simp add: s)
    then show ?thesis by (simp add: runes_def spans)
  qed
qed

definition duration_parts :: "string list \<Rightarrow> string option list \<Rightarrow> string" where
  "duration_parts us ds = concat (map2 (\<lambda>d u. case d of None \<Rightarrow> '''' | Some n \<Rightarrow> n @ u) ds us)"

definition numbers :: "string option list \<Rightarrow> bool" where
  "numbers ds \<longleftrightarrow> (\<forall>n. Some n \<in> set ds \<longrightarrow> n \<noteq> '''' \<and> list_all is_digit n)"

lemma unit_rests_iff:
  assumes "u \<noteq> ''''" and "\<not> is_digit (hd u)"
  shows "t \<in> set (unit_rests u s) \<longleftrightarrow> (\<exists>d. numbers [d] \<and> s = duration_parts [u] [d] @ t)"
proof -
  have split: "takeWhile is_digit (n @ u @ t) = n \<and> dropWhile is_digit (n @ u @ t) = u @ t" if "list_all is_digit n" for n
    using that assms by (cases u) (auto simp: list_all_iff takeWhile_append dropWhile_append)
  have "(takeWhile is_digit s \<noteq> [] \<and> HasPrefix (dropWhile is_digit s) u \<and> t = drop (length u) (dropWhile is_digit s))
      \<longleftrightarrow> (\<exists>n. n \<noteq> '''' \<and> list_all is_digit n \<and> s = n @ u @ t)" (is "?L \<longleftrightarrow> ?R")
  proof
    assume L: ?L
    then have "dropWhile is_digit s = u @ t" by (auto simp: HasPrefix_iff)
    then have "s = takeWhile is_digit s @ u @ t" by (metis takeWhile_dropWhile_id)
    moreover have "list_all is_digit (takeWhile is_digit s)" by (metis list_all_iff set_takeWhileD)
    ultimately show ?R using L by blast
  qed (use split in \<open>auto simp: HasPrefix_iff\<close>)
  moreover have "(\<exists>d. numbers [d] \<and> s = duration_parts [u] [d] @ t) \<longleftrightarrow> t = s \<or> (\<exists>n. n \<noteq> '''' \<and> list_all is_digit n \<and> s = n @ u @ t)"
    by (subst split_option_ex) (auto simp: numbers_def duration_parts_def)
  ultimately show ?thesis by (auto simp: unit_rests_def Let_def)
qed

lemma fold_unit_rests:
  assumes "list_all (\<lambda>u. u \<noteq> '''' \<and> \<not> is_digit (hd u)) us"
  shows "t \<in> set (fold (\<lambda>u rests. concat (map (unit_rests u) rests)) us rests) \<longleftrightarrow>
    (\<exists>s \<in> set rests. \<exists>ds. length ds = length us \<and> numbers ds \<and> s = duration_parts us ds @ t)"
  using assms
proof (induction us arbitrary: rests)
  case Nil
  then show ?case by (auto simp: duration_parts_def numbers_def)
next
  case (Cons u us)
  have "t \<in> set (fold (\<lambda>u rests. concat (map (unit_rests u) rests)) (u # us) rests) \<longleftrightarrow>
      (\<exists>s \<in> set rests. \<exists>s'. s' \<in> set (unit_rests u s) \<and> (\<exists>ds. length ds = length us \<and> numbers ds \<and> s' = duration_parts us ds @ t))"
    using Cons by auto
  also have "\<dots> \<longleftrightarrow> (\<exists>s \<in> set rests. \<exists>d ds. length ds = length us \<and> numbers (d # ds) \<and> s = duration_parts (u # us) (d # ds) @ t)"
    using Cons.prems by (auto simp: unit_rests_iff numbers_def duration_parts_def) blast+
  also have "\<dots> \<longleftrightarrow> (\<exists>s \<in> set rests. \<exists>ds. length ds = length (u # us) \<and> numbers ds \<and> s = duration_parts (u # us) ds @ t)"
    by (auto simp: length_Suc_conv)
  finally show ?case .
qed

definition duration_units :: "string list" where
  "duration_units = [''y'', ''w'', ''d'', ''h'', ''m'', ''s'', ''ms'']"

lemma promDurationRE_iff:
  "promDurationRE v \<longleftrightarrow> (\<exists>ds. length ds = length duration_units \<and> numbers ds \<and> v = duration_parts duration_units ds)"
proof -
  have "list_all (\<lambda>u. u \<noteq> '''' \<and> \<not> is_digit (hd u)) duration_units" by code_simp
  from fold_unit_rests [OF this, of "[]" "[v]"] show ?thesis by (simp add: promDurationRE_def duration_units_def)
qed

text \<open>When a text is a value of a kind, stated without reference to how the code decides it.\<close>

inductive has_kind :: "(string \<Rightarrow> bool) \<Rightarrow> (string \<Rightarrow> bool option) \<Rightarrow> Param \<Rightarrow> string \<Rightarrow> bool" for rfc3339 parseFloat where
  promql: "pa_Kind p = KindPromQL \<Longrightarrow> r \<in> set (runes v) \<Longrightarrow> \<not> IsSpace r \<Longrightarrow> has_kind rfc3339 parseFloat p v"
| matcher: "pa_Kind p = KindMatcher \<Longrightarrow> r \<in> set (runes v) \<Longrightarrow> \<not> IsSpace r \<Longrightarrow> has_kind rfc3339 parseFloat p v"
| timestamp: "pa_Kind p = KindTime \<Longrightarrow> rfc3339 v \<or> parseFloat v \<noteq> None \<Longrightarrow> has_kind rfc3339 parseFloat p v"
| seconds: "pa_Kind p = KindDuration \<Longrightarrow> v \<noteq> '''' \<Longrightarrow> parseFloat v = Some False \<Longrightarrow> has_kind rfc3339 parseFloat p v"
| duration: "pa_Kind p = KindDuration \<Longrightarrow> v \<noteq> '''' \<Longrightarrow> parseFloat v = None \<Longrightarrow> length ds = length duration_units \<Longrightarrow> numbers ds \<Longrightarrow>
    v = duration_parts duration_units ds \<Longrightarrow> has_kind rfc3339 parseFloat p v"
| label_name: "pa_Kind p = KindLabelName \<Longrightarrow> v = c # cs \<Longrightarrow> label_start c \<Longrightarrow> list_all label_char cs \<Longrightarrow> has_kind rfc3339 parseFloat p v"
| metric_name: "pa_Kind p = KindMetricName \<Longrightarrow> v \<noteq> '''' \<Longrightarrow> \<not> is_digit (hd v) \<Longrightarrow> list_all (\<lambda>c. label_char c \<or> c = CHR '':'') v \<Longrightarrow>
    has_kind rfc3339 parseFloat p v"
| count: "pa_Kind p = KindInt \<Longrightarrow> v = ds \<or> v = CHR ''+'' # ds \<or> v = CHR ''-'' # ds \<and> digits_value ds = 0 \<Longrightarrow> ds \<noteq> '''' \<Longrightarrow>
    list_all is_digit ds \<Longrightarrow> int (digits_value ds) \<le> maxInt64 \<Longrightarrow> has_kind rfc3339 parseFloat p v"
| choice: "pa_Kind p = KindEnum \<Longrightarrow> v \<in> set (pa_Enum p) \<Longrightarrow> has_kind rfc3339 parseFloat p v"

inductive_simps has_kind_simps: "has_kind rfc3339 parseFloat p v"

lemma ParseInt_nonneg:
  "(case ParseInt v of None \<Rightarrow> False | Some n \<Rightarrow> 0 \<le> n) \<longleftrightarrow>
    (\<exists>ds. (v = ds \<or> v = CHR ''+'' # ds \<or> v = CHR ''-'' # ds \<and> digits_value ds = 0) \<and> ds \<noteq> '''' \<and> list_all is_digit ds \<and> int (digits_value ds) \<le> maxInt64)"
proof -
  have signs: "\<not> is_digit CHR ''-''" "\<not> is_digit CHR ''+''" by code_simp+
  show ?thesis
  proof (cases v)
    case Nil
    then show ?thesis by (simp add: ParseInt_def)
  next
    case (Cons c cs)
    consider "c = CHR ''-''" | "c = CHR ''+''" | "c \<noteq> CHR ''-''" "c \<noteq> CHR ''+''" by blast
    then show ?thesis
    proof cases
      case 1
      then show ?thesis using signs by (auto simp: Cons ParseInt_def in_int64_def minInt64_def maxInt64_def Let_def)
    next
      case 2
      then show ?thesis using signs by (auto simp: Cons ParseInt_def in_int64_def minInt64_def Let_def)
    next
      case 3
      then show ?thesis by (auto simp: Cons ParseInt_def in_int64_def minInt64_def Let_def)
    qed
  qed
qed

lemma metricNameRE_iff: "metricNameRE v \<longleftrightarrow> v \<noteq> '''' \<and> \<not> is_digit (hd v) \<and> list_all (\<lambda>c. label_char c \<or> c = CHR '':'') v"
proof -
  have "\<not> is_digit CHR '':''" "\<And>c. label_start c \<Longrightarrow> \<not> is_digit c"
    by code_simp (auto simp: label_start_def is_letter_def is_digit_def byte_def)
  then show ?thesis by (auto simp: metricNameRE_def label_char_def split: list.splits)
qed

lemma validateValue_iff:
  "validateValue rfc3339 parseFloat p v \<longleftrightarrow>
     length v \<le> (if pa_Kind p = KindPromQL then MaxPromQLBytes else MaxParamBytes)
     \<and> (\<forall>r \<in> set (runes v). \<not> isForbiddenRune r) \<and> has_kind rfc3339 parseFloat p v"
proof -
  have kind: "has_kind rfc3339 parseFloat p v \<longleftrightarrow>
     (case pa_Kind p of
        KindPromQL \<Rightarrow> TrimSpace v \<noteq> '''' | KindMatcher \<Rightarrow> TrimSpace v \<noteq> ''''
      | KindTime \<Rightarrow> validateTime rfc3339 parseFloat v | KindDuration \<Rightarrow> validateDuration parseFloat v
      | KindLabelName \<Rightarrow> labelNameRE v | KindMetricName \<Rightarrow> metricNameRE v
      | KindInt \<Rightarrow> (case ParseInt v of None \<Rightarrow> False | Some n \<Rightarrow> 0 \<le> n) | KindEnum \<Rightarrow> v \<in> set (pa_Enum p))"
  proof (cases "pa_Kind p")
    case KindDuration
    then show ?thesis by (auto simp: has_kind_simps validateDuration_def promDurationRE_iff split: option.splits)
  next
    case KindInt
    then show ?thesis by (simp add: has_kind_simps ParseInt_nonneg)
  next
    case KindLabelName
    then show ?thesis by (auto simp: has_kind_simps labelNameRE_def split: list.splits)
  qed (auto simp: has_kind_simps TrimSpace_empty list_all_iff validateTime_def metricNameRE_iff)
  show ?thesis unfolding kind by (auto simp: validateValue_def Let_def list_ex_iff)
qed

lemma byName_lookup:
  assumes "distinct (map pa_Name ps)"
  shows "map_of (fold (\<lambda>p m. AList.update (pa_Name p) p m) ps m) name =
    (case find (\<lambda>p. pa_Name p = name) ps of Some p \<Rightarrow> Some p | None \<Rightarrow> map_of m name)"
  using assms
proof (induction ps arbitrary: m)
  case (Cons p ps)
  have "find (\<lambda>q. pa_Name q = pa_Name p) ps = None" using Cons.prems by (simp add: find_None_iff) (metis imageI)
  then show ?case using Cons by (auto split: option.splits)
qed simp

lemma find_name:
  assumes "distinct (map pa_Name ps)"
  shows "find (\<lambda>p. pa_Name p = name) ps = Some p \<longleftrightarrow> p \<in> set ps \<and> pa_Name p = name"
proof
  assume "p \<in> set ps \<and> pa_Name p = name"
  then obtain q where q: "find (\<lambda>p. pa_Name p = name) ps = Some q" by (cases "find (\<lambda>p. pa_Name p = name) ps") (auto simp: find_None_iff)
  then have "q \<in> set ps" "pa_Name q = name" by (auto simp: find_Some_iff)
  then have "q = p" using assms \<open>p \<in> set ps \<and> pa_Name p = name\<close> by (simp add: distinct_map inj_on_def)
  then show "find (\<lambda>p. pa_Name p = name) ps = Some p" using q by simp
qed (auto simp: find_Some_iff)

text \<open>
  C27. Only well-typed requests pass. A form is accepted for an endpoint exactly when the endpoint is
  in the table and not gated off, every name in the form is a parameter of it, a parameter appears
  more than once only where repetition is allowed and then at most 64 times, every value is within its
  size limit, free of control characters and of its parameter's kind, and every required parameter
  is there. In particular no accepted value holds a control byte.
\<close>
theorem Validate_types_requests:
  assumes "wf_map form"
  shows "(Validate rfc3339 parseFloat e form gated = None \<longleftrightarrow>
      (\<exists>r. Get e = Inr r \<and> (ro_Gated r \<longrightarrow> gated)
        \<and> (\<forall>name vs. map_of form name = Some vs \<longrightarrow>
             (\<exists>p \<in> set (ro_Params r). pa_Name p = name \<and> (length vs \<le> 1 \<or> pa_Repeated p \<and> length vs \<le> MaxRepeatedParams)
                \<and> (\<forall>v \<in> set vs. length v \<le> (if pa_Kind p = KindPromQL then MaxPromQLBytes else MaxParamBytes)
                     \<and> (\<forall>x \<in> set (runes v). \<not> isForbiddenRune x) \<and> has_kind rfc3339 parseFloat p v)))
        \<and> (\<forall>p \<in> set (ro_Params r). pa_Required p \<longrightarrow> (\<exists>v vs. map_of form (pa_Name p) = Some (v # vs)))))
    \<and> (Validate rfc3339 parseFloat e form gated = None \<longrightarrow>
        (\<forall>name vs v c. map_of form name = Some vs \<longrightarrow> v \<in> set vs \<longrightarrow> c \<in> set v \<longrightarrow> 0x20 \<le> byte c \<and> byte c \<noteq> 0x7f))"
    (is "(?V = None \<longleftrightarrow> ?T) \<and> (?V = None \<longrightarrow> ?S)")
proof -
  have entry: "entry_ok rfc3339 parseFloat (fold (\<lambda>p m. AList.update (pa_Name p) p m) (ro_Params r) []) name vs \<longleftrightarrow>
      (\<exists>p \<in> set (ro_Params r). pa_Name p = name \<and> (length vs \<le> 1 \<or> pa_Repeated p \<and> length vs \<le> MaxRepeatedParams)
         \<and> (\<forall>v \<in> set vs. validateValue rfc3339 parseFloat p v))" if "r \<in> set table" for r name vs
  proof -
    have d: "distinct (map pa_Name (ro_Params r))" using tableD(3) [OF that] .
    show ?thesis
    proof (cases "find (\<lambda>p. pa_Name p = name) (ro_Params r)")
      case None
      then have "map_of (fold (\<lambda>p m. AList.update (pa_Name p) p m) (ro_Params r) []) name = None" by (simp add: byName_lookup [OF d])
      then show ?thesis using None by (auto simp: entry_ok_def find_None_iff)
    next
      case (Some p)
      then have p: "q \<in> set (ro_Params r) \<and> pa_Name q = name \<longleftrightarrow> q = p" for q unfolding find_name [OF d, symmetric] by auto
      show ?thesis unfolding Bex_def conj_assoc [symmetric] p
        by (auto simp: entry_ok_def byName_lookup [OF d] Some list_all_iff MaxRepeatedParams_def)
    qed
  qed
  have req: "values_of form n \<noteq> [] \<longleftrightarrow> (\<exists>v vs. map_of form n = Some (v # vs))" for n
    by (auto simp: values_of_def neq_Nil_conv split: option.splits)
  have main: "?V = None \<longleftrightarrow> (\<exists>r. Get e = Inr r \<and> (ro_Gated r \<longrightarrow> gated)
        \<and> (\<forall>name vs. map_of form name = Some vs \<longrightarrow>
             (\<exists>p \<in> set (ro_Params r). pa_Name p = name \<and> (length vs \<le> 1 \<or> pa_Repeated p \<and> length vs \<le> MaxRepeatedParams)
                \<and> (\<forall>v \<in> set vs. validateValue rfc3339 parseFloat p v)))
        \<and> (\<forall>p \<in> set (ro_Params r). pa_Required p \<longrightarrow> (\<exists>v vs. map_of form (pa_Name p) = Some (v # vs))))"
  proof (cases "Get e")
    case (Inl err)
    then show ?thesis by (simp add: Validate_def)
  next
    case (Inr r)
    then have "r \<in> set table" by (simp add: Get_table)
    from entry [OF this] show ?thesis
      by (simp add: Validate_def Inr list_all_map_of [OF assms] list_ex_iff req [symmetric])
  qed
  have "?S" if "?V = None"
  proof (intro allI impI)
    fix name vs v c assume c: "map_of form name = Some vs" "v \<in> set vs" "c \<in> set v"
    then have "\<forall>x \<in> set (runes v). \<not> isForbiddenRune x" using main that validateValue_iff by blast
    then show "0x20 \<le> byte c \<and> byte c \<noteq> 0x7f"
      using ascii_byte_decoded [OF c(3)] by (cases "byte c < 0x80") (auto simp: isForbiddenRune_def)
  qed
  then show ?thesis using main unfolding validateValue_iff by blast
qed

theorem Validate_types_requests_witness:
  "Validate (\<lambda>_. False) (\<lambda>_. None) ''tsdb_status'' [(''limit'', [''10''])] False = None"
proof -
  have r: "Get ''tsdb_status'' = Inr (route EndpointTSDBStatus ''GET'' ''/api/v1/status/tsdb'' [opt ''limit'' KindInt])" by code_simp
  have "runes ''10'' = [49, 48]" by (simp add: runes_ascii byte_def)
  moreover have "has_kind (\<lambda>_. False) (\<lambda>_. None) (opt ''limit'' KindInt) ''10''"
    by (rule has_kind.count [of _ _ "''10''"]) (simp_all add: opt_def is_digit_def byte_def digits_value_def maxInt64_def)
  ultimately show ?thesis
    using Validate_types_requests [of "[(''limit'', [''10''])]" "\<lambda>_. False" "\<lambda>_. None" "''tsdb_status''" False]
    by (auto simp: r route_def opt_def isForbiddenRune_def MaxParamBytes_def MaxPromQLBytes_def)
qed

end
