(* ===== verification/Sem.thy ===== *)
theory Sem
  imports Fleet_Prelude "HOL-Library.Multiset"
begin

text \<open>
  The budgets of \<open>internal/promproxy/sem.go\<close>: the per-cluster in-flight counters, and the weighted
  first-in-first-out semaphore over the hub's response bytes.

  A queued acquisition is a pointer in the code; here it is a number, unique per call, paired with the
  bytes it asks for. A closed \<open>ready\<close> channel is an entry of \<open>bs_ready\<close>. Each definition is one
  critical section of the mutex.
\<close>

subsection \<open>In-flight counters\<close>

type_synonym inflightSem = "(string, int) gomap"

definition newInflightSem :: inflightSem where "newInflightSem = []"

definition inflight_acquire :: "string \<Rightarrow> int \<Rightarrow> inflightSem \<Rightarrow> inflightSem \<times> bool" where
  "inflight_acquire cid limit s =
     (if map_int s cid \<ge> limit then (s, False) else (AList.update cid (map_int s cid + 1) s, True))"

definition inflight_release :: "string \<Rightarrow> inflightSem \<Rightarrow> inflightSem" where
  "inflight_release cid s =
     (let n = map_int s cid - 1 in if n \<le> 0 then AList.delete cid s else AList.update cid n s)"

subsection \<open>The byte budget\<close>

type_synonym byteWaiter = "nat \<times> int"

record byteSem =
  bs_capacity :: int
  bs_free :: int
  bs_waiters :: "byteWaiter list"
  bs_ready :: "byteWaiter list"

definition newByteSem :: "int \<Rightarrow> byteSem" where
  "newByteSem capacity = \<lparr>bs_capacity = capacity, bs_free = capacity, bs_waiters = [], bs_ready = []\<rparr>"

fun grant_loop :: "byteWaiter list \<Rightarrow> int \<Rightarrow> byteWaiter list \<Rightarrow> byteWaiter list \<times> int \<times> byteWaiter list" where
  "grant_loop [] free ready = ([], free, ready)"
| "grant_loop (w # ws) free ready =
     (if snd w \<le> free then grant_loop ws (free - snd w) (ready @ [w]) else (w # ws, free, ready))"

definition grantLocked :: "byteSem \<Rightarrow> byteSem" where
  "grantLocked s =
     (let (ws, free, ready) = grant_loop (bs_waiters s) (bs_free s) (bs_ready s)
      in s\<lparr>bs_waiters := ws, bs_free := free, bs_ready := ready\<rparr>)"

text \<open>\<open>acquire\<close> up to the \<open>select\<close>: done, refused for ever, or queued under the number \<open>w\<close>.\<close>

datatype acquired = Acquired | BudgetTooLarge | Queued

definition byte_acquire :: "nat \<Rightarrow> int \<Rightarrow> byteSem \<Rightarrow> byteSem \<times> acquired" where
  "byte_acquire w n s =
     (if n \<le> 0 then (s, Acquired)
      else if n > bs_capacity s then (s, BudgetTooLarge)
      else if bs_waiters s = [] \<and> bs_free s \<ge> n then (s\<lparr>bs_free := bs_free s - n\<rparr>, Acquired)
      else (s\<lparr>bs_waiters := bs_waiters s @ [(w, n)]\<rparr>, Queued))"

definition byte_release :: "int \<Rightarrow> byteSem \<Rightarrow> byteSem" where
  "byte_release n s = (if n \<le> 0 then s else grantLocked (s\<lparr>bs_free := bs_free s + n\<rparr>))"

text \<open>The two branches of the \<open>select\<close>: the grant arrived, or the context ended first.\<close>

definition byte_wake :: "nat \<Rightarrow> int \<Rightarrow> byteSem \<Rightarrow> byteSem" where
  "byte_wake w n s = s\<lparr>bs_ready := remove1 (w, n) (bs_ready s)\<rparr>"

definition byte_cancel :: "nat \<Rightarrow> int \<Rightarrow> byteSem \<Rightarrow> byteSem" where
  "byte_cancel w n s =
     (if (w, n) \<in> set (bs_waiters s) then grantLocked (s\<lparr>bs_waiters := remove1 (w, n) (bs_waiters s)\<rparr>)
      else byte_release n (byte_wake w n s))"

subsection \<open>Callers and the budget\<close>

text \<open>
  The semaphore together with its callers: \<open>cl_held\<close> are the reservations that \<open>acquire\<close> has returned
  and that are not yet released, \<open>cl_next\<close> the next caller's number, so that numbers are in order of
  arrival, and \<open>cl_gone\<close> the callers that have cancelled or released. A caller whose context ends while
  it is queued, or whose grant was already made, takes the cancelling branch.
\<close>

record callers =
  cl_sem :: byteSem
  cl_held :: "byteWaiter list"
  cl_next :: nat
  cl_gone :: "nat list"

inductive sem_step :: "callers \<Rightarrow> callers \<Rightarrow> bool" where
  sem_acquire: "byte_acquire (cl_next c) n (cl_sem c) = (s, Acquired) \<Longrightarrow> 0 < n \<Longrightarrow>
    sem_step c (c\<lparr>cl_sem := s, cl_held := (cl_next c, n) # cl_held c, cl_next := Suc (cl_next c)\<rparr>)"
| sem_queue: "byte_acquire (cl_next c) n (cl_sem c) = (s, Queued) \<Longrightarrow>
    sem_step c (c\<lparr>cl_sem := s, cl_next := Suc (cl_next c)\<rparr>)"
| sem_wake: "(w, n) \<in> set (bs_ready (cl_sem c)) \<Longrightarrow>
    sem_step c (c\<lparr>cl_sem := byte_wake w n (cl_sem c), cl_held := (w, n) # cl_held c\<rparr>)"
| sem_cancel: "(w, n) \<in> set (bs_waiters (cl_sem c)) \<union> set (bs_ready (cl_sem c)) \<Longrightarrow>
    sem_step c (c\<lparr>cl_sem := byte_cancel w n (cl_sem c), cl_gone := w # cl_gone c\<rparr>)"
| sem_release: "(w, n) \<in> set (cl_held c) \<Longrightarrow>
    sem_step c (c\<lparr>cl_sem := byte_release n (cl_sem c), cl_held := remove1 (w, n) (cl_held c), cl_gone := w # cl_gone c\<rparr>)"

definition bytes_of :: "byteWaiter list \<Rightarrow> int" where
  "bytes_of ws = sum_list (map snd ws)"

definition stuck_head :: "byteSem \<Rightarrow> bool" where
  "stuck_head s \<longleftrightarrow> bs_waiters s = [] \<or> bs_free s < snd (hd (bs_waiters s))"

definition sized :: "int \<Rightarrow> byteWaiter set \<Rightarrow> bool" where
  "sized capacity W \<longleftrightarrow> (\<forall>w \<in> W. 0 < snd w \<and> snd w \<le> capacity)"

definition sem_inv :: "callers \<Rightarrow> bool" where
  "sem_inv c \<longleftrightarrow>
     0 \<le> bs_free (cl_sem c)
     \<and> bs_free (cl_sem c) + bytes_of (bs_ready (cl_sem c)) + bytes_of (cl_held c) = bs_capacity (cl_sem c)
     \<and> sized (bs_capacity (cl_sem c)) (set (bs_waiters (cl_sem c)) \<union> set (bs_ready (cl_sem c)) \<union> set (cl_held c))
     \<and> stuck_head (cl_sem c)"

lemma bytes_of_simps [simp]: "bytes_of [] = 0" "bytes_of (w # ws) = snd w + bytes_of ws" "bytes_of (xs @ ys) = bytes_of xs + bytes_of ys"
  by (simp_all add: bytes_of_def)

lemma sizedD: "sized capacity W \<Longrightarrow> w \<in> W \<Longrightarrow> 0 < snd w \<and> snd w \<le> capacity"
  by (simp add: sized_def)

lemma sized_mono: "sized capacity W \<Longrightarrow> V \<subseteq> W \<Longrightarrow> sized capacity V"
  by (auto simp: sized_def)

lemma sized_empty [simp]: "sized capacity {}"
  by (simp add: sized_def)

lemma sized_insert [simp]: "sized capacity (insert w W) \<longleftrightarrow> 0 < snd w \<and> snd w \<le> capacity \<and> sized capacity W"
  by (auto simp: sized_def)

lemma bytes_of_nonneg: "sized capacity (set ws) \<Longrightarrow> 0 \<le> bytes_of ws"
  by (induction ws) auto

lemma bytes_of_remove1: "w \<in> set ws \<Longrightarrow> bytes_of (remove1 w ws) = bytes_of ws - snd w"
  by (induction ws) auto

lemma grant_loop_spec:
  assumes "grant_loop ws free ready = (ws', free', ready')" and "0 \<le> free"
  shows "\<exists>gs. ws = gs @ ws' \<and> ready' = ready @ gs \<and> free' = free - bytes_of gs \<and> 0 \<le> free'
    \<and> (ws' = [] \<or> free' < snd (hd ws'))"
  using assms
proof (induction ws free ready rule: grant_loop.induct)
  case (2 w ws free ready)
  show ?case
  proof (cases "snd w \<le> free")
    case True
    then obtain gs where "ws = gs @ ws'" "ready' = (ready @ [w]) @ gs" "free' = free - snd w - bytes_of gs" "0 \<le> free'"
      "ws' = [] \<or> free' < snd (hd ws')"
      using 2 by auto
    then show ?thesis by (intro exI [of _ "w # gs"]) simp
  next
    case False
    then show ?thesis using 2(2,3) by (intro exI [of _ "[]"]) auto
  qed
qed auto

text \<open>What \<open>grantLocked\<close> does: it moves a prefix of the queue to the granted ones and stops at a head that does not fit.\<close>

lemma grantLocked_spec:
  assumes "0 \<le> bs_free s"
  obtains gs where "bs_waiters s = gs @ bs_waiters (grantLocked s)" "bs_ready (grantLocked s) = bs_ready s @ gs"
    "bs_free (grantLocked s) = bs_free s - bytes_of gs" "0 \<le> bs_free (grantLocked s)" "stuck_head (grantLocked s)"
    "bs_capacity (grantLocked s) = bs_capacity s"
proof -
  obtain ws f rd where g: "grant_loop (bs_waiters s) (bs_free s) (bs_ready s) = (ws, f, rd)" by (metis prod_cases3)
  from grant_loop_spec [OF g assms] obtain gs where "bs_waiters s = gs @ ws" "rd = bs_ready s @ gs" "f = bs_free s - bytes_of gs"
    "0 \<le> f" "ws = [] \<or> f < snd (hd ws)"
    by blast
  moreover have "grantLocked s = s\<lparr>bs_waiters := ws, bs_free := f, bs_ready := rd\<rparr>" using g by (simp add: grantLocked_def)
  ultimately show thesis using that [of gs] by (simp add: stuck_head_def)
qed

lemma grantLocked_inv:
  assumes "0 \<le> bs_free s" and "bs_free s + bytes_of (bs_ready s) + bytes_of held = bs_capacity s"
    and "sized (bs_capacity s) (set (bs_waiters s) \<union> set (bs_ready s) \<union> set held)"
  shows "sem_inv \<lparr>cl_sem = grantLocked s, cl_held = held, cl_next = m, cl_gone = g\<rparr>"
proof -
  obtain gs where g: "bs_waiters s = gs @ bs_waiters (grantLocked s)" "bs_ready (grantLocked s) = bs_ready s @ gs"
    "bs_free (grantLocked s) = bs_free s - bytes_of gs" "0 \<le> bs_free (grantLocked s)" "stuck_head (grantLocked s)"
    "bs_capacity (grantLocked s) = bs_capacity s"
    using assms(1) by (rule grantLocked_spec)
  have "set (bs_waiters (grantLocked s)) \<union> set (bs_ready (grantLocked s)) = set (bs_waiters s) \<union> set (bs_ready s)"
    using arg_cong [OF g(1), of set] g(2) by auto
  then have "sized (bs_capacity s) (set (bs_waiters (grantLocked s)) \<union> set (bs_ready (grantLocked s)) \<union> set held)"
    using assms(3) by simp
  then show ?thesis using assms(2) g(2-6) by (simp add: sem_inv_def)
qed

lemma byte_release_inv:
  assumes "sem_inv \<lparr>cl_sem = s, cl_held = held, cl_next = m, cl_gone = g\<rparr>" and "w \<in> set held"
  shows "sem_inv \<lparr>cl_sem = byte_release (snd w) s, cl_held = remove1 w held, cl_next = m, cl_gone = g'\<rparr>"
proof -
  have n: "0 < snd w" using assms by (auto simp: sem_inv_def dest: sizedD)
  then have "byte_release (snd w) s = grantLocked (s\<lparr>bs_free := bs_free s + snd w\<rparr>)" by (simp add: byte_release_def)
  moreover have "sem_inv \<lparr>cl_sem = grantLocked (s\<lparr>bs_free := bs_free s + snd w\<rparr>), cl_held = remove1 w held, cl_next = m, cl_gone = g'\<rparr>"
  proof (rule grantLocked_inv)
    show "0 \<le> bs_free (s\<lparr>bs_free := bs_free s + snd w\<rparr>)" using assms(1) n by (simp add: sem_inv_def)
    show "bs_free (s\<lparr>bs_free := bs_free s + snd w\<rparr>) + bytes_of (bs_ready (s\<lparr>bs_free := bs_free s + snd w\<rparr>)) + bytes_of (remove1 w held)
        = bs_capacity (s\<lparr>bs_free := bs_free s + snd w\<rparr>)"
      using assms by (simp add: sem_inv_def bytes_of_remove1)
    show "sized (bs_capacity (s\<lparr>bs_free := bs_free s + snd w\<rparr>)) (set (bs_waiters (s\<lparr>bs_free := bs_free s + snd w\<rparr>)) \<union> set (bs_ready (s\<lparr>bs_free := bs_free s + snd w\<rparr>)) \<union> set (remove1 w held))"
      using assms(1) set_remove1_subset [of w held] by (auto simp: sem_inv_def elim!: sized_mono)
  qed
  ultimately show ?thesis by simp
qed

lemma wake_inv:
  assumes "sem_inv \<lparr>cl_sem = s, cl_held = held, cl_next = m, cl_gone = g\<rparr>" and "w \<in> set (bs_ready s)"
  shows "sem_inv \<lparr>cl_sem = byte_wake (fst w) (snd w) s, cl_held = w # held, cl_next = m, cl_gone = g'\<rparr>"
proof -
  have "set (remove1 w (bs_ready s)) \<subseteq> set (bs_ready s)" by (rule set_remove1_subset)
  then show ?thesis using assms by (auto simp: sem_inv_def byte_wake_def stuck_head_def bytes_of_remove1 dest: sizedD elim: sized_mono)
qed

lemma cancel_waiter_inv:
  assumes "sem_inv \<lparr>cl_sem = s, cl_held = held, cl_next = m, cl_gone = g\<rparr>"
  shows "sem_inv \<lparr>cl_sem = grantLocked (s\<lparr>bs_waiters := remove1 w (bs_waiters s)\<rparr>), cl_held = held, cl_next = m, cl_gone = g'\<rparr>"
proof -
  have "set (remove1 w (bs_waiters s)) \<subseteq> set (bs_waiters s)" by (rule set_remove1_subset)
  then have "sized (bs_capacity s) (set (remove1 w (bs_waiters s)) \<union> set (bs_ready s) \<union> set held)"
    using assms by (auto simp: sem_inv_def elim!: sized_mono)
  then show ?thesis using assms by (intro grantLocked_inv) (simp_all add: sem_inv_def)
qed

lemma acquire_inv:
  assumes inv: "sem_inv \<lparr>cl_sem = s, cl_held = held, cl_next = m, cl_gone = g\<rparr>" and acq: "byte_acquire w n s = (s', Acquired)" and "0 < n"
  shows "sem_inv \<lparr>cl_sem = s', cl_held = (w, n) # held, cl_next = m', cl_gone = g'\<rparr>"
proof -
  have "s' = s\<lparr>bs_free := bs_free s - n\<rparr>" "n \<le> bs_capacity s" "bs_waiters s = []" "n \<le> bs_free s"
    using acq \<open>0 < n\<close> by (auto simp: byte_acquire_def split: if_splits)
  then show ?thesis using inv \<open>0 < n\<close> by (simp add: sem_inv_def stuck_head_def)
qed

lemma queue_inv:
  assumes inv: "sem_inv \<lparr>cl_sem = s, cl_held = held, cl_next = m, cl_gone = g\<rparr>" and acq: "byte_acquire w n s = (s', Queued)"
  shows "sem_inv \<lparr>cl_sem = s', cl_held = held, cl_next = m', cl_gone = g'\<rparr>"
proof -
  have s': "s' = s\<lparr>bs_waiters := bs_waiters s @ [(w, n)]\<rparr>" and n: "0 < n" "n \<le> bs_capacity s"
    and busy: "bs_waiters s \<noteq> [] \<or> bs_free s < n"
    using acq by (auto simp: byte_acquire_def split: if_splits)
  have "stuck_head s'" using inv busy s' by (cases "bs_waiters s") (auto simp: sem_inv_def stuck_head_def)
  then show ?thesis using inv s' n by (simp add: sem_inv_def)
qed

lemma sem_step_inv: "sem_step c c' \<Longrightarrow> sem_inv c \<Longrightarrow> sem_inv c'"
proof (induction rule: sem_step.induct)
  case (sem_acquire c n s)
  then show ?case by (cases c) (auto intro: acquire_inv)
next
  case (sem_queue c n s)
  then show ?case by (cases c) (auto intro: queue_inv)
next
  case (sem_wake w n c)
  then show ?case using wake_inv [where w = "(w, n)"] by (cases c) simp
next
  case (sem_cancel w n c)
  show ?case
  proof (cases "(w, n) \<in> set (bs_waiters (cl_sem c))")
    case True
    then show ?thesis using sem_cancel by (cases c) (simp add: byte_cancel_def cancel_waiter_inv)
  next
    case False
    then have "sem_inv \<lparr>cl_sem = byte_wake w n (cl_sem c), cl_held = (w, n) # cl_held c, cl_next = cl_next c, cl_gone = g\<rparr>"
      using sem_cancel wake_inv [where w = "(w, n)"] by (cases c) simp
    from byte_release_inv [OF this, of "(w, n)"] False show ?thesis by (cases c) (simp add: byte_cancel_def)
  qed
next
  case (sem_release w n c)
  then show ?case using byte_release_inv [where w = "(w, n)"] by (cases c) simp
qed

lemma sem_run_inv:
  assumes "sem_step\<^sup>*\<^sup>* c c'" and "sem_inv c" shows "sem_inv c'"
  using assms by induction (auto intro: sem_step_inv)

definition idle_callers :: "int \<Rightarrow> callers" where
  "idle_callers capacity = \<lparr>cl_sem = newByteSem capacity, cl_held = [], cl_next = 0, cl_gone = []\<rparr>"

lemma idle_inv: "0 \<le> capacity \<Longrightarrow> sem_inv (idle_callers capacity)"
  by (simp add: idle_callers_def newByteSem_def sem_inv_def stuck_head_def)

lemma grantLocked_capacity [simp]: "bs_capacity (grantLocked s) = bs_capacity s"
  by (simp add: grantLocked_def Let_def split_def)

lemma step_capacity: "sem_step c c' \<Longrightarrow> bs_capacity (cl_sem c') = bs_capacity (cl_sem c)"
proof (induction rule: sem_step.induct)
qed (auto simp: byte_acquire_def byte_wake_def byte_release_def byte_cancel_def split: if_splits)

lemma run_capacity: "sem_step\<^sup>*\<^sup>* c c' \<Longrightarrow> bs_capacity (cl_sem c') = bs_capacity (cl_sem c)"
  by (induction rule: rtranclp_induct) (auto dest: step_capacity)

text \<open>
  First in, first out: the queue is in order of arrival, and everyone who has been granted bytes
  arrived before everyone still waiting. Nobody is lost: every caller that arrived is waiting,
  granted, holding or gone, and is so once.
\<close>

definition callers_of :: "callers \<Rightarrow> nat list" where
  "callers_of c = map fst (bs_waiters (cl_sem c)) @ map fst (bs_ready (cl_sem c)) @ map fst (cl_held c) @ cl_gone c"

definition fifo_inv :: "callers \<Rightarrow> bool" where
  "fifo_inv c \<longleftrightarrow>
     sorted_wrt (<) (map fst (bs_waiters (cl_sem c)))
     \<and> (\<forall>g \<in> set (bs_ready (cl_sem c)) \<union> set (cl_held c). \<forall>w \<in> set (bs_waiters (cl_sem c)). fst g < fst w)
     \<and> mset (callers_of c) = mset [0..<cl_next c]"

lemma callers_bounded: "fifo_inv c \<Longrightarrow> i \<in> set (callers_of c) \<longleftrightarrow> i < cl_next c"
  using mset_eq_setD [of "callers_of c" "[0..<cl_next c]"] by (auto simp: fifo_inv_def)

lemma sorted_remove1_fst: "sorted_wrt (<) (map fst ws) \<Longrightarrow> sorted_wrt (<) (map fst (remove1 w ws))" for ws :: "byteWaiter list"
  by (induction ws) (auto dest: set_remove1_subset [THEN subsetD])

lemma mset_fst_split: "w \<in> set ws \<Longrightarrow> image_mset fst (mset ws) = add_mset (fst w) (image_mset fst (mset ws - {#w#}))" for ws :: "byteWaiter list"
  using insert_DiffM [of w "mset ws"] by (metis image_mset_add_mset set_mset_mset)

text \<open>Granting keeps the order: the granted prefix is in front of what remains.\<close>

lemma grantLocked_fifo:
  assumes "fifo_inv \<lparr>cl_sem = s, cl_held = held, cl_next = m, cl_gone = g\<rparr>" and "0 \<le> f"
  shows "fifo_inv \<lparr>cl_sem = grantLocked (s\<lparr>bs_free := f\<rparr>), cl_held = held, cl_next = m, cl_gone = g\<rparr>"
proof -
  let ?s = "s\<lparr>bs_free := f\<rparr>"
  obtain gs where gs: "bs_waiters s = gs @ bs_waiters (grantLocked ?s)" "bs_ready (grantLocked ?s) = bs_ready s @ gs"
    using assms(2) grantLocked_spec [of ?s] by auto
  have "sorted_wrt (<) (map fst gs @ map fst (bs_waiters (grantLocked ?s)))"
    and before: "\<forall>r \<in> set (bs_ready s) \<union> set held. \<forall>w \<in> set gs \<union> set (bs_waiters (grantLocked ?s)). fst r < fst w"
    and all: "mset (callers_of \<lparr>cl_sem = s, cl_held = held, cl_next = m, cl_gone = g\<rparr>) = mset [0..<m]"
    using assms(1) by (simp_all add: fifo_inv_def gs(1))
  moreover have "mset (callers_of \<lparr>cl_sem = grantLocked ?s, cl_held = held, cl_next = m, cl_gone = g\<rparr>)
      = mset (callers_of \<lparr>cl_sem = s, cl_held = held, cl_next = m, cl_gone = g\<rparr>)"
    by (simp add: callers_of_def gs ac_simps)
  ultimately show ?thesis by (auto simp: fifo_inv_def gs(2) sorted_wrt_append)
qed

text \<open>A caller that leaves, from the queue, from the granted ones or by releasing.\<close>

lemma leave_fifo:
  assumes "fifo_inv \<lparr>cl_sem = s, cl_held = held, cl_next = m, cl_gone = g\<rparr>"
  shows "w \<in> set (bs_waiters s) \<Longrightarrow> fifo_inv \<lparr>cl_sem = s\<lparr>bs_waiters := remove1 w (bs_waiters s)\<rparr>, cl_held = held, cl_next = m, cl_gone = fst w # g\<rparr>"
    and "w \<in> set (bs_ready s) \<Longrightarrow> fifo_inv \<lparr>cl_sem = s\<lparr>bs_ready := remove1 w (bs_ready s)\<rparr>, cl_held = held, cl_next = m, cl_gone = fst w # g\<rparr>"
    and "w \<in> set (bs_ready s) \<Longrightarrow> fifo_inv \<lparr>cl_sem = s\<lparr>bs_ready := remove1 w (bs_ready s)\<rparr>, cl_held = w # held, cl_next = m, cl_gone = g\<rparr>"
    and "w \<in> set held \<Longrightarrow> fifo_inv \<lparr>cl_sem = s, cl_held = remove1 w held, cl_next = m, cl_gone = fst w # g\<rparr>"
  using assms mset_fst_split [of w "bs_waiters s"] mset_fst_split [of w "bs_ready s"] mset_fst_split [of w held]
  by (auto simp: fifo_inv_def callers_of_def sorted_remove1_fst dest: set_remove1_subset [THEN subsetD])

lemma arrive_fifo:
  assumes "fifo_inv \<lparr>cl_sem = s, cl_held = held, cl_next = m, cl_gone = g\<rparr>"
  shows "fifo_inv \<lparr>cl_sem = s\<lparr>bs_waiters := bs_waiters s @ [(m, n)]\<rparr>, cl_held = held, cl_next = Suc m, cl_gone = g\<rparr>"
    and "bs_waiters s = [] \<Longrightarrow> fifo_inv \<lparr>cl_sem = s\<lparr>bs_free := f\<rparr>, cl_held = (m, n) # held, cl_next = Suc m, cl_gone = g\<rparr>"
  using callers_bounded [OF assms] assms by (auto simp: fifo_inv_def callers_of_def sorted_wrt_append)

lemma sem_step_fifo: "sem_step c c' \<Longrightarrow> sem_inv c \<Longrightarrow> fifo_inv c \<Longrightarrow> fifo_inv c'"
proof (induction rule: sem_step.induct)
  case (sem_acquire c n s)
  then have "s = (cl_sem c)\<lparr>bs_free := bs_free (cl_sem c) - n\<rparr>" "bs_waiters (cl_sem c) = []"
    by (auto simp: byte_acquire_def split: if_splits)
  then show ?case using sem_acquire arrive_fifo(2) by (cases c) simp
next
  case (sem_queue c n s)
  then have "s = (cl_sem c)\<lparr>bs_waiters := bs_waiters (cl_sem c) @ [(cl_next c, n)]\<rparr>"
    by (auto simp: byte_acquire_def split: if_splits)
  then show ?case using sem_queue arrive_fifo(1) by (cases c) simp
next
  case (sem_wake w n c)
  then show ?case using leave_fifo(3) [where w = "(w, n)"] by (cases c) (simp add: byte_wake_def)
next
  case (sem_cancel w n c)
  obtain s held m g where c: "c = \<lparr>cl_sem = s, cl_held = held, cl_next = m, cl_gone = g\<rparr>" by (cases c)
  have free: "0 \<le> bs_free s" and n: "0 < n" using sem_cancel sizedD [of _ _ "(w, n)"] by (auto simp: sem_inv_def c)
  show ?case
  proof (cases "(w, n) \<in> set (bs_waiters s)")
    case True
    then show ?thesis using grantLocked_fifo [OF leave_fifo(1) [OF _ True] free] sem_cancel(3) by (simp add: c byte_cancel_def)
  next
    case False
    then have "(w, n) \<in> set (bs_ready s)" using sem_cancel by (simp add: c)
    then show ?thesis using grantLocked_fifo [OF leave_fifo(2), of s held m g "(w, n)" "bs_free s + n"] sem_cancel(3) free n False
      by (simp add: c byte_cancel_def byte_release_def byte_wake_def)
  qed
next
  case (sem_release w n c)
  obtain s held m g where c: "c = \<lparr>cl_sem = s, cl_held = held, cl_next = m, cl_gone = g\<rparr>" by (cases c)
  have "0 \<le> bs_free s" "0 < n" using sem_release sizedD [of _ _ "(w, n)"] by (auto simp: sem_inv_def c)
  then show ?case using grantLocked_fifo [OF leave_fifo(4), of s held m g "(w, n)" "bs_free s + n"] sem_release by (simp add: c byte_release_def)
qed

lemma sem_run_fifo:
  assumes "sem_step\<^sup>*\<^sup>* c c'" and "sem_inv c" and "fifo_inv c" shows "fifo_inv c'"
  using assms by (induction rule: rtranclp_induct) (auto intro: sem_step_fifo sem_run_inv)

text \<open>C25. Over every interleaving of acquisitions, wake-ups, cancellations and releases, the reservations
  granted and held never exceed the capacity and the unreserved bytes are exactly the rest, so nothing
  leaks. Whenever a caller is still waiting, some other caller holds or has been granted bytes, and the
  head of the queue really does not fit: no wake-up is lost, and the queue cannot stall on an idle budget.
  Callers are served first in, first out: the queue is in order of arrival and whoever has been granted
  bytes arrived before everyone still waiting, so that no caller overtakes another. Every caller that
  arrived is still waiting, granted, holding, or has itself cancelled or released: none is dropped.\<close>

theorem byte_budget_conserved:
  assumes "0 \<le> capacity" and "sem_step\<^sup>*\<^sup>* (idle_callers capacity) c"
  shows "0 \<le> bs_free (cl_sem c)
    \<and> bs_free (cl_sem c) + bytes_of (bs_ready (cl_sem c)) + bytes_of (cl_held c) = capacity
    \<and> (bs_waiters (cl_sem c) \<noteq> [] \<longrightarrow> bs_free (cl_sem c) < snd (hd (bs_waiters (cl_sem c)))
        \<and> (bs_ready (cl_sem c) \<noteq> [] \<or> cl_held c \<noteq> []))
    \<and> sorted_wrt (<) (map fst (bs_waiters (cl_sem c)))
    \<and> (\<forall>g \<in> set (bs_ready (cl_sem c)) \<union> set (cl_held c). \<forall>w \<in> set (bs_waiters (cl_sem c)). fst g < fst w)
    \<and> mset (map fst (bs_waiters (cl_sem c)) @ map fst (bs_ready (cl_sem c)) @ map fst (cl_held c) @ cl_gone c) = mset [0..<cl_next c]"
proof -
  have inv: "sem_inv c" using sem_run_inv [OF assms(2) idle_inv [OF assms(1)]] .
  have "fifo_inv (idle_callers capacity)" by (simp add: fifo_inv_def idle_callers_def newByteSem_def callers_of_def)
  then have fifo: "fifo_inv c" using sem_run_fifo [OF assms(2) idle_inv [OF assms(1)]] by simp
  have cap: "bs_capacity (cl_sem c) = capacity"
    using run_capacity [OF assms(2)] by (simp add: idle_callers_def newByteSem_def)
  have "bs_free (cl_sem c) < snd (hd (bs_waiters (cl_sem c))) \<and> (bs_ready (cl_sem c) \<noteq> [] \<or> cl_held c \<noteq> [])" if "bs_waiters (cl_sem c) \<noteq> []"
  proof -
    obtain w n ws where ws: "bs_waiters (cl_sem c) = (w, n) # ws" using \<open>bs_waiters (cl_sem c) \<noteq> []\<close> by (metis list.exhaust surj_pair)
    then have "bs_free (cl_sem c) < n" "n \<le> bs_capacity (cl_sem c)" using inv by (auto simp: sem_inv_def stuck_head_def)
    then show ?thesis using inv ws by (auto simp: sem_inv_def)
  qed
  then show ?thesis using inv cap fifo by (simp add: sem_inv_def fifo_inv_def callers_of_def)
qed

text \<open>
  A run: a budget of ten bytes, six of them held, a caller queued for seven, and behind it one that
  wants a single byte and waits its turn although the byte is free.
\<close>

definition queued_run :: callers where
  "queued_run = \<lparr>cl_sem = \<lparr>bs_capacity = 10, bs_free = 4, bs_waiters = [(1, 7), (2, 1)], bs_ready = []\<rparr>,
     cl_held = [(0, 6)], cl_next = 3, cl_gone = []\<rparr>"

definition granted_run :: callers where
  "granted_run = \<lparr>cl_sem = \<lparr>bs_capacity = 10, bs_free = 2, bs_waiters = [], bs_ready = [(1, 7), (2, 1)]\<rparr>, cl_held = [], cl_next = 3, cl_gone = [0]\<rparr>"

lemma queued_run_reached: "sem_step\<^sup>*\<^sup>* (idle_callers 10) queued_run"
proof -
  let ?one = "\<lparr>cl_sem = \<lparr>bs_capacity = 10, bs_free = 4, bs_waiters = [], bs_ready = []\<rparr>, cl_held = [(0, 6)], cl_next = 1, cl_gone = []\<rparr>"
  let ?two = "\<lparr>cl_sem = \<lparr>bs_capacity = 10, bs_free = 4, bs_waiters = [(1, 7)], bs_ready = []\<rparr>, cl_held = [(0, 6)], cl_next = 2, cl_gone = []\<rparr>"
  have "sem_step (idle_callers 10) ?one"
    using sem_acquire [of "idle_callers 10" 6 "cl_sem ?one"] by (simp add: idle_callers_def newByteSem_def byte_acquire_def)
  moreover have "sem_step ?one ?two"
    using sem_queue [of ?one 7 "cl_sem ?two"] by (simp add: byte_acquire_def numeral_2_eq_2)
  moreover have "sem_step ?two queued_run"
    using sem_queue [of ?two 1 "cl_sem queued_run"] by (simp add: queued_run_def byte_acquire_def numeral_3_eq_3 numeral_2_eq_2)
  ultimately show ?thesis by (meson r_into_rtranclp rtranclp.rtrancl_into_rtrancl)
qed

lemma granted_run_step: "sem_step queued_run granted_run"
  using sem_release [of 0 6 queued_run] by (simp add: queued_run_def granted_run_def byte_release_def grantLocked_def)

theorem byte_budget_conserved_witness:
  "bs_free (cl_sem granted_run) + bytes_of (bs_ready (cl_sem granted_run)) + bytes_of (cl_held granted_run) = 10
   \<and> mset (map fst (bs_ready (cl_sem granted_run)) @ cl_gone granted_run) = mset [0..<3]"
  using byte_budget_conserved [of 10, OF _ rtranclp.rtrancl_into_rtrancl [OF queued_run_reached granted_run_step]]
  by (simp add: granted_run_def)

subsection \<open>In-flight slots\<close>

text \<open>
  The counters and the calls that hold a slot, one entry of \<open>held\<close> per call and cluster. The limit is
  read per call, so two calls of one cluster may be admitted under different limits.
\<close>

inductive slot_step :: "int \<Rightarrow> inflightSem \<times> string list \<Rightarrow> inflightSem \<times> string list \<Rightarrow> bool" for most :: int where
  slot_taken: "limit \<le> most \<Longrightarrow> inflight_acquire cid limit s = (s', True) \<Longrightarrow> slot_step most (s, held) (s', cid # held)"
| slot_refused: "inflight_acquire cid limit s = (s', False) \<Longrightarrow> slot_step most (s, held) (s', held)"
| slot_freed: "cid \<in> set held \<Longrightarrow> slot_step most (s, held) (inflight_release cid s, remove1 cid held)"

definition slots_inv :: "int \<Rightarrow> inflightSem \<times> string list \<Rightarrow> bool" where
  "slots_inv most x \<longleftrightarrow> (\<forall>cid. map_int (fst x) cid = int (count_list (snd x) cid)) \<and> (\<forall>cid. int (count_list (snd x) cid) \<le> most)
     \<and> (\<forall>cid n. map_of (fst x) cid = Some n \<longrightarrow> 0 < n)"

lemma map_int_update [simp]: "map_int (AList.update k v m) k' = (if k' = k then v else map_int m k')"
  by (simp add: map_int_def)

lemma map_int_delete [simp]: "map_int (AList.delete k m) k' = (if k' = k then 0 else map_int m k')"
  by (simp add: map_int_def)

lemma count_list_remove1: "x \<in> set xs \<Longrightarrow> count_list (remove1 x xs) y = (if y = x then count_list xs y - 1 else count_list xs y)"
  by (induction xs) (auto simp: count_list_0_iff)

lemma count_list_pos: "x \<in> set xs \<Longrightarrow> 0 < count_list xs x"
  by (metis count_list_0_iff gr0I)

lemma slot_step_inv: "slot_step most x y \<Longrightarrow> slots_inv most x \<Longrightarrow> slots_inv most y"
proof (induction rule: slot_step.induct)
  case (slot_taken limit cid s s' held)
  then have s': "s' = AList.update cid (map_int s cid + 1) s" "map_int s cid < limit"
    by (auto simp: inflight_acquire_def split: if_splits)
  then show ?case using slot_taken(1,3) by (auto simp: slots_inv_def)
next
  case (slot_refused cid limit s s' held)
  then show ?case by (auto simp: inflight_acquire_def split: if_splits)
next
  case (slot_freed cid held s)
  have n: "map_int s cid = int (count_list held cid)" using slot_freed by (simp add: slots_inv_def)
  have pos: "0 < count_list held cid" using slot_freed by (simp add: count_list_pos)
  show ?case
  proof (cases "count_list held cid = 1")
    case True
    then show ?thesis using slot_freed n by (auto simp: slots_inv_def inflight_release_def count_list_remove1)
  next
    case False
    then have "inflight_release cid s = AList.update cid (map_int s cid - 1) s" using n pos by (simp add: inflight_release_def)
    moreover have "int (count_list held cid) - 1 \<le> most"
      using slot_freed(2) by (auto simp: slots_inv_def intro: order_trans [of _ "int (count_list held cid)"])
    ultimately show ?thesis using slot_freed n pos False by (auto simp: slots_inv_def count_list_remove1 of_nat_diff)
  qed
qed

text \<open>C26. Over every sequence of acquisitions and releases the counter of a cluster is the number of calls
  in flight to it and stays within the largest limit in force; no counter is kept for an idle cluster; and a
  call is refused exactly when as many calls as its limit are in flight to that cluster.\<close>

theorem inflight_counts_calls:
  assumes "0 \<le> most" and "(slot_step most)\<^sup>*\<^sup>* (newInflightSem, []) (s, held)"
  shows "int (count_list held cid) \<le> most \<and> (map_of s cid = None \<longleftrightarrow> cid \<notin> set held)
    \<and> (snd (inflight_acquire cid limit s) \<longleftrightarrow> int (count_list held cid) < limit)"
proof -
  have "slots_inv most (newInflightSem, [])" using assms(1) by (simp add: slots_inv_def newInflightSem_def map_int_def)
  with assms(2) have inv: "slots_inv most (s, held)" by induction (auto intro: slot_step_inv)
  then have n: "map_int s cid = int (count_list held cid)" "int (count_list held cid) \<le> most" by (simp_all add: slots_inv_def)
  have "map_of s cid = None \<longleftrightarrow> map_int s cid = 0"
    using inv by (cases "map_of s cid") (auto simp: slots_inv_def map_int_def)
  then show ?thesis using n by (auto simp: inflight_acquire_def count_list_0_iff)
qed

lemma slot_run: "(slot_step 2)\<^sup>*\<^sup>* (newInflightSem, []) ([(''a'', 2)], [''a'', ''a''])"
proof -
  have "slot_step 2 (newInflightSem, []) ([(''a'', 1)], [''a''])"
    using slot_taken [of 2 2 "''a''" newInflightSem] by (simp add: newInflightSem_def inflight_acquire_def map_int_def)
  moreover have "slot_step 2 ([(''a'', 1)], [''a'']) ([(''a'', 2)], [''a'', ''a''])"
    using slot_taken [of 2 2 "''a''" "[(''a'', 1)]"] by (simp add: inflight_acquire_def map_int_def)
  ultimately show ?thesis by (meson r_into_rtranclp rtranclp.rtrancl_into_rtrancl)
qed

theorem inflight_counts_calls_witness: "\<not> snd (inflight_acquire ''a'' 2 [(''a'', 2)])"
  using inflight_counts_calls [of 2 "[(''a'', 2)]" "[''a'', ''a'']" "''a''" 2] slot_run by simp

end
