(* ===== verification/Promproxy.thy ===== *)
theory Promproxy
  imports Registry Promapi Sem
begin

text \<open>
  The authorized, budgeted call path of \<open>internal/promproxy/proxy.go\<close>: scope and parameters first, then
  a live session, then the in-flight slot and the byte reservation, then the call and the capped read of
  its answer.

  An error is a value that carries what its message names; \<open>unwrap\<close> lists the sentinels that \<open>errors.Is\<close>
  finds in it. The clock is \<open>clk\<close>: \<open>clk i\<close> is the reading at the \<open>i\<close>-th place of the code that
  reads it. The remote side of a session, which ends a session has reached, the two standard
  parsers of \<open>Promapi\<close> and the gzip inflater are arguments.
\<close>

subsection \<open>Errors and codes\<close>

datatype cause =
    RegErr sentinel | ApiErr promapi_error | ErrForbidden | ErrTooLarge | ErrBusy | ErrUpstream
  | Canceled | DeadlineExceeded | OtherCause string

definition ClusterBusyRetryAfter :: duration where "ClusterBusyRetryAfter = 500 * Millisecond"
definition HubBusyRetryAfter :: duration where "HubBusyRetryAfter = 2 * Second"

record BusyError =
  be_ClusterID :: string
  be_Budget :: string
  be_Limit :: int
  be_RetryAfter :: duration

record NotConnectedError =
  nc_ClusterID :: string
  nc_LastSeen :: gotime
  nc_Since :: duration

datatype call_error =
    InvalidCall promapi_error
  | Forbidden string
  | UnknownCluster string
  | NotConnected NotConnectedError
  | Busy BusyError
  | Wrapped string Endpoint "cause list"

definition unwrap :: "call_error \<Rightarrow> cause list" where
  "unwrap err =
     (case err of
        InvalidCall e \<Rightarrow> [ApiErr e]
      | Forbidden _ \<Rightarrow> [ErrForbidden]
      | UnknownCluster _ \<Rightarrow> [RegErr ErrUnknownCluster, RegErr ErrNotConnected]
      | NotConnected _ \<Rightarrow> [RegErr ErrNotConnected, ErrUpstream]
      | Busy _ \<Rightarrow> [ErrBusy]
      | Wrapped _ _ cs \<Rightarrow> cs)"

definition CodeOK :: string where "CodeOK = ''2xx''"
definition CodeClientError :: string where "CodeClientError = ''4xx''"
definition CodeServerError :: string where "CodeServerError = ''5xx''"
definition CodeForbidden :: string where "CodeForbidden = ''forbidden''"
definition CodeInvalid :: string where "CodeInvalid = ''invalid''"
definition CodeBusy :: string where "CodeBusy = ''busy''"
definition CodeUnavailable :: string where "CodeUnavailable = ''unavailable''"
definition CodeTimeout :: string where "CodeTimeout = ''timeout''"
definition CodeTooLarge :: string where "CodeTooLarge = ''too_large''"
definition CodeUpstream :: string where "CodeUpstream = ''upstream''"

definition codeFor :: "call_error option \<Rightarrow> string" where
  "codeFor err =
     (case err of
        None \<Rightarrow> CodeOK
      | Some e \<Rightarrow>
          (let Is = (\<lambda>c. c \<in> set (unwrap e))
           in if Is ErrForbidden then CodeForbidden
              else if Is ErrBusy then CodeBusy
              else if Is ErrTooLarge then CodeTooLarge
              else if Is (RegErr ErrUnknownCluster) \<or> Is (RegErr ErrNotConnected) then CodeUnavailable
              else if Is DeadlineExceeded \<or> Is Canceled then CodeTimeout
              else if Is (ApiErr ErrInvalidParam) \<or> Is (ApiErr ErrUnknownEndpoint)
                   \<or> Is (ApiErr ErrEndpointGated) \<or> Is (ApiErr ErrInvalidLabelName) then CodeInvalid
              else CodeUpstream))"

definition statusCode :: "int \<Rightarrow> string" where
  "statusCode status =
     (if status \<ge> 200 \<and> status < 300 then CodeOK
      else if status \<ge> 400 \<and> status < 500 then CodeClientError
      else if status \<ge> 500 then CodeServerError
      else CodeUpstream)"

subsection \<open>The proxy\<close>

definition DefaultTimeout :: duration where "DefaultTimeout = 30 * Second"
definition DefaultMaxTimeout :: duration where "DefaultMaxTimeout = 120 * Second"
definition DefaultMaxResponseBytes :: int where "DefaultMaxResponseBytes = push_bit 20 32"
definition DefaultGlobalResponseBudget :: int where "DefaultGlobalResponseBudget = push_bit 20 256"
definition DefaultMaxInflightPerCluster :: int where "DefaultMaxInflightPerCluster = 8"

record Options =
  op_Registry :: "Registry option"
  op_DefaultTimeout :: duration
  op_MaxTimeout :: duration
  op_MaxResponseBytes :: int
  op_GlobalResponseBudget :: int
  op_MaxInflightPerCluster :: int
  op_EnableStatusConfig :: bool

record Proxy =
  px_reg :: Registry
  px_defaultTimeout :: duration
  px_maxTimeout :: duration
  px_maxResponseBytes :: int
  px_maxInflight :: int
  px_enableConfig :: bool
  px_inflight :: inflightSem
  px_bytes :: byteSem

definition or_default :: "int \<Rightarrow> int \<Rightarrow> int" where
  "or_default x d = (if x = 0 then d else x)"

definition New_Proxy :: "Options \<Rightarrow> Proxy option" where
  "New_Proxy opts =
     (case op_Registry opts of
        None \<Rightarrow> None
      | Some reg \<Rightarrow>
          if op_DefaultTimeout opts < 0 \<or> op_MaxTimeout opts < 0 then None
          else if op_MaxResponseBytes opts < 0 \<or> op_GlobalResponseBudget opts < 0 then None
          else if op_MaxInflightPerCluster opts < 0 then None
          else
            (let defaultTimeout = or_default (op_DefaultTimeout opts) DefaultTimeout;
                 maxTimeout = or_default (op_MaxTimeout opts) DefaultMaxTimeout;
                 maxResponseBytes = or_default (op_MaxResponseBytes opts) DefaultMaxResponseBytes;
                 maxInflight = or_default (op_MaxInflightPerCluster opts) DefaultMaxInflightPerCluster;
                 budget = or_default (op_GlobalResponseBudget opts) DefaultGlobalResponseBudget
             in if budget < maxResponseBytes then None
                else if defaultTimeout > maxTimeout then None
                else Some \<lparr>px_reg = reg, px_defaultTimeout = defaultTimeout, px_maxTimeout = maxTimeout,
                       px_maxResponseBytes = maxResponseBytes, px_maxInflight = maxInflight,
                       px_enableConfig = op_EnableStatusConfig opts, px_inflight = newInflightSem,
                       px_bytes = newByteSem budget\<rparr>))"

record Call =
  ca_ClusterID :: string
  ca_Endpoint :: Endpoint
  ca_LabelName :: string
  ca_Form :: Values
  ca_Timeout :: duration
  ca_MaxBytes :: int
  ca_RequestID :: string

subsection \<open>Authorization\<close>

definition allows :: "Principal option \<Rightarrow> string \<Rightarrow> labels \<Rightarrow> bool" where
  "allows p cid lbls = (case p of None \<Rightarrow> False | Some p \<Rightarrow> AllowsCluster (p_Scope p) cid lbls)"

definition zero_Limits :: Limits where
  "zero_Limits = \<lparr>lim_MaxLookback = 0, lim_MaxPoints = 0, lim_MaxSeries = 0, lim_Timeout = 0, lim_MaxResponseBytes = 0,
     lim_MaxConcurrentPerCluster = 0, lim_RateRPS = 0, lim_RateBurst = 0\<rparr>"

definition limitsOf :: "Principal option \<Rightarrow> Limits" where
  "limitsOf p =
     (case p of
        None \<Rightarrow> zero_Limits
      | Some p \<Rightarrow> (case p_Scope p of None \<Rightarrow> zero_Limits | Some s \<Rightarrow> sc_Limits s))"

text \<open>\<open>rfc3339\<close> and \<open>parseFloat\<close> are the two standard parsers that \<open>promapi.Validate\<close> calls.\<close>

definition authorizeAndBuild ::
    "(string \<Rightarrow> bool) \<Rightarrow> (string \<Rightarrow> bool option) \<Rightarrow> gotime \<Rightarrow> Principal option \<Rightarrow> Call \<Rightarrow> Proxy \<Rightarrow> call_error + Route \<times> string" where
  "authorizeAndBuild rfc3339 parseFloat now who call p =
     (if ca_ClusterID call = '''' then Inl (InvalidCall ErrInvalidParam)
      else
        (let cluster = Cluster_view now (ca_ClusterID call) (px_reg p);
             lbls = (case cluster of None \<Rightarrow> [] | Some c \<Rightarrow> c_Labels c)
         in if \<not> allows who (ca_ClusterID call) lbls then Inl (Forbidden (ca_ClusterID call))
            else if cluster = None then Inl (UnknownCluster (ca_ClusterID call))
            else
              (case Get (ca_Endpoint call) of
                 Inl err \<Rightarrow> Inl (InvalidCall err)
               | Inr r \<Rightarrow>
                   (case BuildPath (ca_Endpoint call) (ca_LabelName call) of
                      Inl err \<Rightarrow> Inl (InvalidCall err)
                    | Inr path \<Rightarrow>
                        (case Validate rfc3339 parseFloat (ca_Endpoint call) (ca_Form call) (px_enableConfig p) of
                           Some err \<Rightarrow> Inl (InvalidCall err)
                         | None \<Rightarrow> Inr (r, path))))))"

subsection \<open>Sessions and transport errors\<close>

definition lastSeenOf :: "gotime \<Rightarrow> gotime \<Rightarrow> string \<Rightarrow> Registry \<Rightarrow> NotConnectedError" where
  "lastSeenOf t_reg t_now cid reg =
     (case Cluster_view t_reg cid reg of
        None \<Rightarrow> \<lparr>nc_ClusterID = cid, nc_LastSeen = 0, nc_Since = 0\<rparr>
      | Some c \<Rightarrow>
          \<lparr>nc_ClusterID = cid, nc_LastSeen = c_LastSeen c,
           nc_Since = (if IsZero (c_LastSeen c) then 0 else time_Sub t_now (c_LastSeen c))\<rparr>)"

definition session :: "(nat \<Rightarrow> bool) \<Rightarrow> (nat \<Rightarrow> gotime) \<Rightarrow> string \<Rightarrow> Proxy \<Rightarrow> Proxy \<times> (call_error + nat)" where
  "session ended clk cid p =
     (case Session ended (clk 1) cid (px_reg p) of
        (reg, Inr s) \<Rightarrow> (p\<lparr>px_reg := reg\<rparr>, Inr s)
      | (reg, Inl err) \<Rightarrow>
          (p\<lparr>px_reg := reg\<rparr>,
           if ErrUnknownCluster \<in> set err then Inl (UnknownCluster cid)
           else Inl (NotConnected (lastSeenOf (clk 2) (clk 3) cid reg))))"

definition wrapCallError :: "(nat \<Rightarrow> gotime) \<Rightarrow> Call \<Rightarrow> cause list \<Rightarrow> Proxy \<Rightarrow> call_error" where
  "wrapCallError clk call err p =
     (if RegErr ErrNotConnected \<in> set err then NotConnected (lastSeenOf (clk 4) (clk 5) (ca_ClusterID call) (px_reg p))
      else if RegErr ErrResponseTooLarge \<in> set err then Wrapped (ca_ClusterID call) (ca_Endpoint call) (ErrTooLarge # err)
      else if Canceled \<in> set err \<or> DeadlineExceeded \<in> set err then Wrapped (ca_ClusterID call) (ca_Endpoint call) err
      else Wrapped (ca_ClusterID call) (ca_Endpoint call) (ErrUpstream # err))"

subsection \<open>Effective limits\<close>

definition effectiveTimeout :: "Limits \<Rightarrow> duration \<Rightarrow> Proxy \<Rightarrow> duration" where
  "effectiveTimeout lims want p =
     (let t = (if want \<le> 0 then px_defaultTimeout p else want);
          t = min t (px_maxTimeout p)
      in if lim_Timeout lims > 0 then min t (lim_Timeout lims) else t)"

definition effectiveMaxBytes :: "Limits \<Rightarrow> int \<Rightarrow> Proxy \<Rightarrow> int" where
  "effectiveMaxBytes lims want p =
     (let b = (if want \<le> 0 then px_maxResponseBytes p else want);
          b = min b (px_maxResponseBytes p)
      in if lim_MaxResponseBytes lims > 0 then min b (lim_MaxResponseBytes lims) else b)"

definition effectiveInflight :: "Limits \<Rightarrow> Proxy \<Rightarrow> int" where
  "effectiveInflight lims p =
     (if lim_MaxConcurrentPerCluster lims > 0 then min (px_maxInflight p) (lim_MaxConcurrentPerCluster lims)
      else px_maxInflight p)"

subsection \<open>The capped read\<close>

text \<open>
  A body is the bytes it will yield and how it then ends: \<open>None\<close> is \<open>io.EOF\<close>. One \<open>Read\<close> into a buffer
  of \<open>len\<close> bytes yields at most \<open>Suc chunk\<close> of them, \<open>chunk\<close> being the transport's choice, and the end once
  no bytes are left.
\<close>

type_synonym stream = "string \<times> cause list option"

definition body_Read :: "nat \<Rightarrow> nat \<Rightarrow> stream \<Rightarrow> string \<times> cause list option option \<times> stream" where
  "body_Read len chunk s =
     (if fst s = [] then ([], Some (snd s), s)
      else (let n = min len (Suc chunk) in (take n (fst s), None, (drop n (fst s), snd s))))"

record capReader =
  cr_r :: stream
  cr_remaining :: int
  cr_hit :: bool

definition capReader_Read :: "nat \<Rightarrow> nat \<Rightarrow> capReader \<Rightarrow> string \<times> cause list option option \<times> capReader" where
  "capReader_Read len chunk c =
     (if cr_remaining c \<le> 0 then ([], Some None, c\<lparr>cr_hit := True\<rparr>)
      else
        (let len = (if int len > cr_remaining c then nat (cr_remaining c) else len);
             (b, e, r) = body_Read len chunk (cr_r c)
         in (b, e, c\<lparr>cr_r := r, cr_remaining := cr_remaining c - int (length b)\<rparr>)))"

text \<open>\<open>io.ReadAll\<close>: the \<open>i\<close>-th read offers a buffer of \<open>Suc (fst (sched i))\<close> bytes.\<close>

function ReadAll :: "(nat \<Rightarrow> nat \<times> nat) \<Rightarrow> nat \<Rightarrow> capReader \<Rightarrow> string \<Rightarrow> string \<times> cause list option \<times> capReader" where
  "ReadAll sched i c acc =
     (case capReader_Read (Suc (fst (sched i))) (snd (sched i)) c of
        (b, Some e, c') \<Rightarrow> (acc @ b, e, c')
      | (b, None, c') \<Rightarrow> ReadAll sched (Suc i) c' (acc @ b))"
  by pat_completeness auto
termination
  by (relation "measure (\<lambda>(sched, i, c, acc). length (fst (cr_r c)))")
    (auto simp: capReader_Read_def body_Read_def Let_def split: if_splits)

record Trailer =
  tr_Truncated :: bool
  tr_Warnings :: "string list"
  tr_Err :: "cause list option"

record Response =
  rs_StatusCode :: int
  rs_ContentEncoding :: string
  rs_Body :: "stream option"
  rs_Trailer :: "Trailer option"

text \<open>
  The inflater is given the bytes the cap lets through with how they end, and the number of bytes
  wanted of it. It answers with a header error or with its output and how that ended, and tells
  whether it read past the bytes it was given.
\<close>

type_synonym inflater = "stream \<Rightarrow> nat \<Rightarrow> (cause list + stream) \<times> bool"

definition capped :: "int \<Rightarrow> stream \<Rightarrow> stream \<times> bool" where
  "capped limit s =
     (if int (length (fst s)) \<ge> limit then ((take (nat limit) (fst s), None), True) else (s, False))"

definition cut_to :: "int \<Rightarrow> bool \<Rightarrow> string \<Rightarrow> cause list option \<Rightarrow> cause list + string \<times> bool" where
  "cut_to maxBytes hit b rerr =
     (if int (length b) > maxBytes then Inr (take (nat maxBytes) b, True)
      else
        (case rerr of
           Some err \<Rightarrow> if hit \<or> RegErr ErrResponseTooLarge \<in> set err then Inr (b, True) else Inl err
         | None \<Rightarrow> Inr (b, False)))"

definition readCapped :: "inflater \<Rightarrow> (nat \<Rightarrow> nat \<times> nat) \<Rightarrow> Response \<Rightarrow> int \<Rightarrow> cause list + string \<times> bool" where
  "readCapped inflate sched resp maxBytes =
     (case rs_Body resp of
        None \<Rightarrow> Inr ([], False)
      | Some body \<Rightarrow>
          if rs_ContentEncoding resp = ''gzip'' then
            (let (input, cutoff) = capped (wrap64 (maxBytes + 1)) body;
                 limit = nat (wrap64 (maxBytes + 1));
                 (out, past) = inflate input limit;
                 hit = (cutoff \<and> past)
             in case out of
                  Inl zerr \<Rightarrow> if hit then Inr ([], True) else Inl zerr
                | Inr (b, rerr) \<Rightarrow>
                    if length b \<ge> limit then cut_to maxBytes hit (take limit b) None else cut_to maxBytes hit b rerr)
          else
            (let (b, rerr, c) = ReadAll sched 0 \<lparr>cr_r = body, cr_remaining = wrap64 (maxBytes + 1), cr_hit = False\<rparr> []
             in cut_to maxBytes (cr_hit c) b rerr))"

subsection \<open>A call\<close>

text \<open>\<open>url.Values.Encode\<close>: keys in order, both sides escaped.\<close>

definition query_safe :: "char \<Rightarrow> bool" where
  "query_safe c \<longleftrightarrow> is_letter c \<or> is_digit c \<or> c \<in> set ''-_.~''"

definition QueryEscape :: "string \<Rightarrow> string" where
  "QueryEscape s =
     concat (map (\<lambda>c. if query_safe c then [c] else if c = CHR '' '' then ''+''
                      else [CHR ''%'', hex_digit (byte c div 16), hex_digit (byte c mod 16)]) s)"

fun join_with :: "string \<Rightarrow> string list \<Rightarrow> string" where
  "join_with sep [] = ''''"
| "join_with sep [s] = s"
| "join_with sep (s # t # ss) = s @ sep @ join_with sep (t # ss)"

definition Values_Encode :: "Values \<Rightarrow> string" where
  "Values_Encode form =
     join_with ''&''
       (concat (map (\<lambda>k. map (\<lambda>v. QueryEscape k @ ''='' @ QueryEscape v) (values_of form k)) (sort (map fst form))))"

record Request =
  qr_Method :: string
  qr_Path :: string
  qr_Form :: string
  qr_MaxResponseBytes :: int
  qr_AcceptGzip :: bool
  qr_RequestID :: string

record Result =
  re_Body :: string
  re_Status :: int
  re_Warnings :: "string list"
  re_Truncated :: bool
  re_Latency :: duration
  re_Bytes :: int

type_synonym remote = "nat \<Rightarrow> duration \<Rightarrow> Request \<Rightarrow> cause list + Response"

definition request_of :: "Call \<Rightarrow> Route \<Rightarrow> string \<Rightarrow> int \<Rightarrow> Request" where
  "request_of call r path maxBytes =
     \<lparr>qr_Method = ro_Method r, qr_Path = path, qr_Form = Values_Encode (ca_Form call), qr_MaxResponseBytes = maxBytes,
      qr_AcceptGzip = True, qr_RequestID = ca_RequestID call\<rparr>"

record ticket =
  tk_route :: Route
  tk_path :: string
  tk_session :: nat
  tk_timeout :: duration
  tk_maxBytes :: int

text \<open>\<open>Do\<close> up to the in-flight slot.\<close>

definition Do_admit ::
    "(string \<Rightarrow> bool) \<Rightarrow> (string \<Rightarrow> bool option) \<Rightarrow> (nat \<Rightarrow> bool) \<Rightarrow> (nat \<Rightarrow> gotime) \<Rightarrow> Principal option \<Rightarrow> Call \<Rightarrow> Proxy
     \<Rightarrow> Proxy \<times> (call_error + ticket)" where
  "Do_admit rfc3339 parseFloat ended clk who call p =
     (case authorizeAndBuild rfc3339 parseFloat (clk 7) who call p of
        Inl err \<Rightarrow> (p, Inl err)
      | Inr (r, path) \<Rightarrow>
          (case session ended clk (ca_ClusterID call) p of
             (p, Inl err) \<Rightarrow> (p, Inl err)
           | (p, Inr sess) \<Rightarrow>
               (let limits = limitsOf who;
                    timeout = effectiveTimeout limits (ca_Timeout call) p;
                    maxBytes = effectiveMaxBytes limits (ca_MaxBytes call) p;
                    inflight = effectiveInflight limits p
                in case inflight_acquire (ca_ClusterID call) inflight (px_inflight p) of
                     (_, False) \<Rightarrow>
                       (p, Inl (Busy \<lparr>be_ClusterID = ca_ClusterID call, be_Budget = ''cluster-inflight'', be_Limit = inflight,
                          be_RetryAfter = ClusterBusyRetryAfter\<rparr>))
                   | (s, True) \<Rightarrow>
                       (p\<lparr>px_inflight := s\<rparr>,
                        Inr \<lparr>tk_route = r, tk_path = path, tk_session = sess, tk_timeout = timeout, tk_maxBytes = maxBytes\<rparr>))))"

text \<open>\<open>Do\<close> from the session's answer on: the result, the error, and the code that \<open>observe\<close> records.\<close>

definition Do_answer ::
    "inflater \<Rightarrow> (nat \<Rightarrow> nat \<times> nat) \<Rightarrow> (nat \<Rightarrow> gotime) \<Rightarrow> Call \<Rightarrow> int \<Rightarrow> Proxy \<Rightarrow> cause list + Response
     \<Rightarrow> Result option \<times> call_error option \<times> string" where
  "Do_answer inflate sched clk call maxBytes p answer =
     (let failed = (\<lambda>err. (None, Some (wrapCallError clk call err p), codeFor (Some (wrapCallError clk call err p))));
          served = (\<lambda>res. if re_Truncated res
                     then (Some res, Some (Wrapped (ca_ClusterID call) (ca_Endpoint call) [ErrTooLarge]), CodeTooLarge)
                     else (Some res, None, statusCode (re_Status res)))
      in case answer of
           Inl err \<Rightarrow> failed err
         | Inr resp \<Rightarrow>
             (case readCapped inflate sched resp maxBytes of
                Inl rerr \<Rightarrow> failed rerr
              | Inr (body, truncated) \<Rightarrow>
                  (let res = \<lparr>re_Body = body, re_Status = rs_StatusCode resp, re_Warnings = [], re_Truncated = truncated,
                         re_Latency = time_Sub (clk 6) (clk 0), re_Bytes = int (length body)\<rparr>
                   in case rs_Trailer resp of
                        None \<Rightarrow> served res
                      | Some tr \<Rightarrow>
                          if truncated then served res
                          else
                            (case tr_Err tr of
                               Some err \<Rightarrow> failed err
                             | None \<Rightarrow> served (res\<lparr>re_Warnings := tr_Warnings tr, re_Truncated := tr_Truncated tr\<rparr>)))))"

text \<open>
  \<open>Do\<close> for a call during which no other call moves the budgets. A reservation that has to wait is then
  ended by a context: \<open>gone\<close> is what \<open>ctx.Err()\<close> reports, \<open>None\<close> when only the call's own deadline
  passed. \<open>w\<close> is the number of the call's waiter.
\<close>

definition Do ::
    "(string \<Rightarrow> bool) \<Rightarrow> (string \<Rightarrow> bool option) \<Rightarrow> (nat \<Rightarrow> bool) \<Rightarrow> (nat \<Rightarrow> gotime) \<Rightarrow> inflater \<Rightarrow> (nat \<Rightarrow> nat \<times> nat) \<Rightarrow> remote
     \<Rightarrow> nat \<Rightarrow> cause option \<Rightarrow> Principal option \<Rightarrow> Call \<Rightarrow> Proxy \<Rightarrow> Proxy \<times> Result option \<times> call_error option \<times> string" where
  "Do rfc3339 parseFloat ended clk inflate sched remote w gone who call p =
     (case Do_admit rfc3339 parseFloat ended clk who call p of
        (p, Inl err) \<Rightarrow> (p, None, Some err, codeFor (Some err))
      | (p, Inr t) \<Rightarrow>
          (let unslot = px_inflight_update (inflight_release (ca_ClusterID call))
           in case byte_acquire w (tk_maxBytes t) (px_bytes p) of
                (s, Acquired) \<Rightarrow>
                  (let p = p\<lparr>px_bytes := s\<rparr>;
                       answer = remote (tk_session t) (tk_timeout t) (request_of call (tk_route t) (tk_path t) (tk_maxBytes t));
                       out = Do_answer inflate sched clk call (tk_maxBytes t) p answer
                   in (unslot (p\<lparr>px_bytes := byte_release (tk_maxBytes t) (px_bytes p)\<rparr>), out))
              | (s, a) \<Rightarrow>
                  (let s = (if a = Queued then byte_cancel w (tk_maxBytes t) s else s)
                   in (unslot (p\<lparr>px_bytes := s\<rparr>), None,
                       (case gone of
                          Some c \<Rightarrow> (Some (Wrapped (ca_ClusterID call) (ca_Endpoint call) [c]), CodeTimeout)
                        | None \<Rightarrow>
                            (Some (Busy \<lparr>be_ClusterID = ca_ClusterID call, be_Budget = ''hub-response-bytes'',
                               be_Limit = bs_capacity (px_bytes p), be_RetryAfter = HubBusyRetryAfter\<rparr>), CodeBusy))))))"



declare ReadAll.simps [simp del]

subsection \<open>The capped read is exact\<close>

lemma take_split: "n \<le> m \<Longrightarrow> take n xs @ take (m - n) (drop n xs) = take m xs"
  by (metis le_add_diff_inverse take_add)

lemma ReadAll_capped:
  "\<exists>c'. ReadAll sched i \<lparr>cr_r = s, cr_remaining = left, cr_hit = False\<rparr> acc
      = (acc @ fst (fst (capped left s)), snd (fst (capped left s)), c') \<and> cr_hit c' = snd (capped left s)"
proof (induction "length (fst s)" arbitrary: s left i acc rule: less_induct)
  case less
  obtain bs e where s: "s = (bs, e)" by (cases s)
  show ?case
  proof (cases "left \<le> 0 \<or> bs = []")
    case True
    then show ?thesis
      by (subst ReadAll.simps) (auto simp: s capped_def capReader_Read_def body_Read_def Let_def)
  next
    case False
    define len where "len = (if int (Suc (fst (sched i))) > left then nat left else Suc (fst (sched i)))"
    define n where "n = min len (Suc (snd (sched i)))"
    have n: "0 < n" "int n \<le> left" using False by (auto simp: n_def len_def)
    have step: "ReadAll sched i \<lparr>cr_r = s, cr_remaining = left, cr_hit = False\<rparr> acc
        = ReadAll sched (Suc i) \<lparr>cr_r = (drop n bs, e), cr_remaining = left - int (length (take n bs)), cr_hit = False\<rparr> (acc @ take n bs)"
      using False by (subst ReadAll.simps) (simp add: s capReader_Read_def body_Read_def Let_def n_def len_def)
    have small: "length (fst (drop n bs, e)) < length (fst s)" using n False by (simp add: s)
    have same: "take n bs @ fst (fst (capped (left - int (length (take n bs))) (drop n bs, e))) = fst (fst (capped left s))
        \<and> snd (fst (capped (left - int (length (take n bs))) (drop n bs, e))) = snd (fst (capped left s))
        \<and> snd (capped (left - int (length (take n bs))) (drop n bs, e)) = snd (capped left s)"
    proof (cases "n \<le> length bs")
      case True
      have "nat (left - int n) = nat left - n" by simp
      then show ?thesis using True n take_split [of n "nat left" bs] by (auto simp: s capped_def)
    next
      case False
      then show ?thesis using n by (auto simp: s capped_def)
    qed
    show ?thesis using less(1) [OF small, of "Suc i" "left - int (length (take n bs))" "acc @ take n bs"] step same by auto
  qed
qed

lemma cut_to_bounded: "cut_to maxBytes hit b rerr = Inr (b', t) \<Longrightarrow> 0 \<le> maxBytes \<Longrightarrow> int (length b') \<le> maxBytes"
  by (auto simp: cut_to_def split: if_splits option.splits)

lemma readCapped_bounded:
  assumes "readCapped inflate sched resp maxBytes = Inr (b, t)" and "0 \<le> maxBytes"
  shows "int (length b) \<le> maxBytes"
  using assms cut_to_bounded [of maxBytes]
  by (auto simp: readCapped_def Let_def split: option.splits if_splits sum.splits prod.splits)

lemma readCapped_plain:
  assumes "rs_Body resp = Some (bs, e)" and "rs_ContentEncoding resp \<noteq> ''gzip''" and "0 \<le> maxBytes" and "maxBytes < maxInt64"
  shows "readCapped inflate sched resp maxBytes =
    (if maxBytes < int (length bs) then Inr (take (nat maxBytes) bs, True)
     else case e of None \<Rightarrow> Inr (bs, False)
       | Some err \<Rightarrow> if RegErr ErrResponseTooLarge \<in> set err then Inr (bs, True) else Inl err)"
proof -
  have w: "wrap64 (maxBytes + 1) = maxBytes + 1" using assms(3,4) by (intro wrap64_id) (simp add: go_defs)
  obtain c' where c': "ReadAll sched 0 \<lparr>cr_r = (bs, e), cr_remaining = maxBytes + 1, cr_hit = False\<rparr> []
      = (fst (fst (capped (maxBytes + 1) (bs, e))), snd (fst (capped (maxBytes + 1) (bs, e))), c')"
    "cr_hit c' = snd (capped (maxBytes + 1) (bs, e))"
    using ReadAll_capped [of sched 0 "(bs, e)" "maxBytes + 1" "[]"] by auto
  have "readCapped inflate sched resp maxBytes = cut_to maxBytes (snd (capped (maxBytes + 1) (bs, e)))
      (fst (fst (capped (maxBytes + 1) (bs, e)))) (snd (fst (capped (maxBytes + 1) (bs, e))))"
    using assms(1,2) c' by (simp add: readCapped_def w)
  moreover have "nat (maxBytes + 1) = Suc (nat maxBytes)" using assms(3) by simp
  ultimately show ?thesis using assms(3) by (auto simp: capped_def cut_to_def split: option.splits)
qed

text \<open>C24. A plain body is handed over byte for byte when it fits the cap, whatever the sizes of the reads it
  arrives in; a longer one is cut to exactly the cap and flagged; and an error of the stream surfaces unless it
  says the transfer was cut, which flags the body instead. A compressed body, whatever the inflater
  makes of it, never yields more than the cap.\<close>

theorem readCapped_exact:
  assumes "0 \<le> maxBytes" and "maxBytes < maxInt64" and "rs_Body resp = Some (bs, e)"
  shows "(rs_ContentEncoding resp \<noteq> ''gzip'' \<longrightarrow> readCapped inflate sched resp maxBytes =
      (if maxBytes < int (length bs) then Inr (take (nat maxBytes) bs, True)
       else case e of None \<Rightarrow> Inr (bs, False)
         | Some err \<Rightarrow> if RegErr ErrResponseTooLarge \<in> set err then Inr (bs, True) else Inl err))
    \<and> (\<forall>b t. readCapped inflate sched resp maxBytes = Inr (b, t) \<longrightarrow> int (length b) \<le> maxBytes)"
  using readCapped_plain [OF assms(3) _ assms(1,2)] readCapped_bounded [OF _ assms(1)] by blast

definition no_inflater :: inflater where "no_inflater s n = (Inl [OtherCause ''gzip''], False)"

definition example_response :: Response where
  "example_response = \<lparr>rs_StatusCode = 200, rs_ContentEncoding = '''', rs_Body = Some (''0123456789'', None), rs_Trailer = None\<rparr>"

theorem readCapped_exact_witness:
  "readCapped no_inflater (\<lambda>i. (2, 1)) example_response 4 = Inr (''0123'', True)
   \<and> readCapped no_inflater (\<lambda>i. (2, 1)) example_response 10 = Inr (''0123456789'', False)"
  using readCapped_exact [of 4 example_response "''0123456789''" None no_inflater "\<lambda>i. (2, 1)"]
    readCapped_exact [of 10 example_response "''0123456789''" None no_inflater "\<lambda>i. (2, 1)"]
  by (simp add: example_response_def go_defs)

subsection \<open>Authorization comes first\<close>

lemma unlabelled_grant_is_unconditional:
  assumes "AllowsCluster (Some s) cid []" and "\<forall>(k, v) \<in> set (cs_MatchLabels (sc_Clusters s)). v \<noteq> ''''"
  shows "AllowsCluster (Some s) cid lbls"
proof -
  have "cs_MatchLabels (sc_Clusters s) = []"
    using assms by (cases "cs_MatchLabels (sc_Clusters s)") (auto simp: AllowsCluster_def map_str_def split: if_splits)
  then show ?thesis using assms(1) by (auto simp: AllowsCluster_def split: if_splits)
qed

definition selectors_named :: "Principal option \<Rightarrow> bool" where
  "selectors_named who =
     (case who of None \<Rightarrow> True | Some pr \<Rightarrow>
        (case p_Scope pr of None \<Rightarrow> True | Some s \<Rightarrow> list_all (\<lambda>(k, v). v \<noteq> '''') (cs_MatchLabels (sc_Clusters s))))"

lemma denied_unlabelled:
  assumes "\<not> allows who cid lbls" and "selectors_named who" shows "\<not> allows who cid []"
proof
  assume "allows who cid []"
  then obtain pr s where who: "who = Some pr" "p_Scope pr = Some s" "AllowsCluster (Some s) cid []"
    by (cases who; cases "p_Scope (the who)") (auto simp: allows_def AllowsCluster_def [of None])
  then have "\<forall>(k, v) \<in> set (cs_MatchLabels (sc_Clusters s)). v \<noteq> ''''"
    using assms(2) by (simp add: selectors_named_def list_all_iff)
  from unlabelled_grant_is_unconditional [OF who(3) this] show False using assms(1) who(1,2) by (simp add: allows_def)
qed

lemma authorize_Forbidden_iff:
  "authorizeAndBuild rfc pf now who call p = Inl (Forbidden cid) \<longleftrightarrow>
     cid = ca_ClusterID call \<and> cid \<noteq> ''''
     \<and> \<not> allows who cid (case Cluster_view now cid (px_reg p) of None \<Rightarrow> [] | Some c \<Rightarrow> c_Labels c)"
  by (auto simp: authorizeAndBuild_def Let_def split: sum.splits option.splits)

lemma wrapCallError_not_Forbidden [simp]: "wrapCallError clk call err p \<noteq> Forbidden cid"
  by (simp add: wrapCallError_def)

lemma session_not_Forbidden: "session ended clk cid p \<noteq> (p', Inl (Forbidden cid'))"
  by (auto simp: session_def split: prod.splits sum.splits)

lemma Do_admit_Forbidden:
  "Do_admit rfc pf ended clk who call p = (p', Inl (Forbidden cid)) \<longleftrightarrow>
     p' = p \<and> authorizeAndBuild rfc pf (clk 7) who call p = Inl (Forbidden cid)"
  using session_not_Forbidden [of ended clk "ca_ClusterID call" p]
  by (auto simp: Do_admit_def Let_def split: sum.splits prod.splits bool.splits)

lemma Do_answer_not_Forbidden: "Do_answer inflate sched clk call n p answer \<noteq> (res, Some (Forbidden cid), code)"
  by (auto simp: Do_answer_def Let_def split: sum.splits prod.splits option.splits if_splits)

lemma Do_Forbidden:
  "Do rfc pf ended clk inflate sched remote w gone who call p = (p', res, Some (Forbidden cid), code) \<longleftrightarrow>
     p' = p \<and> res = None \<and> code = CodeForbidden \<and> authorizeAndBuild rfc pf (clk 7) who call p = Inl (Forbidden cid)"
proof -
  have code: "codeFor (Some (Forbidden cid)) = CodeForbidden" by (simp add: codeFor_def unwrap_def)
  obtain q x where adm: "Do_admit rfc pf ended clk who call p = (q, x)" by (cases "Do_admit rfc pf ended clk who call p")
  show ?thesis
  proof (cases x)
    case (Inl err)
    then have "Do rfc pf ended clk inflate sched remote w gone who call p = (q, None, Some err, codeFor (Some err))"
      using adm by (simp add: Do_def)
    then show ?thesis using adm Inl code Do_admit_Forbidden [of rfc pf ended clk who call p p' cid] by auto
  next
    case (Inr t)
    then have "authorizeAndBuild rfc pf (clk 7) who call p \<noteq> Inl (Forbidden cid)"
      using adm Do_admit_Forbidden [of rfc pf ended clk who call p p cid] by auto
    then show ?thesis using adm Inr Do_answer_not_Forbidden
      by (auto simp: Do_def Let_def split: prod.splits acquired.splits option.splits)
  qed
qed

text \<open>C10. A denial says nothing but that it is one. When a call is answered with \<open>ErrForbidden\<close>, every other
  call of the same principal to the same cluster at that moment is answered alike, whatever its endpoint,
  parameters and budgets; and a hub that does not know the cluster at all gives the identical answer, with
  the same code and no trace in its state. Selectors with an empty value are set aside: they admit
  clusters without labels.\<close>

theorem denial_hides_existence:
  assumes "Do rfc pf ended clk inflate sched remote w gone who call p = (p', res, Some (Forbidden cid), code)"
    and "selectors_named who" and "ca_ClusterID call' = cid"
    and "Cluster_view (clk' 7) cid (px_reg q) = None \<or> q = p \<and> clk' 7 = clk 7"
  shows "Do rfc' pf' ended' clk' inflate' sched' remote' w' gone' who call' q = (q, None, Some (Forbidden cid), CodeForbidden)"
proof -
  have denied: "cid \<noteq> ''''" "\<not> allows who cid (case Cluster_view (clk 7) cid (px_reg p) of None \<Rightarrow> [] | Some c \<Rightarrow> c_Labels c)"
    using assms(1) unfolding Do_Forbidden authorize_Forbidden_iff by auto
  then have "\<not> allows who cid (case Cluster_view (clk' 7) cid (px_reg q) of None \<Rightarrow> [] | Some c \<Rightarrow> c_Labels c)"
    using assms(4) denied_unlabelled [OF denied(2) assms(2)] by auto
  then show ?thesis using denied(1) assms(3) unfolding Do_Forbidden authorize_Forbidden_iff by simp
qed

subsection \<open>Budgets are returned\<close>

lemma grantLocked_stuck: "stuck_head s \<Longrightarrow> grantLocked s = s"
  by (cases "bs_waiters s") (auto simp: stuck_head_def grantLocked_def)

lemma acquire_then_release:
  assumes "byte_acquire w n s = (s', Acquired)" and "stuck_head s"
  shows "byte_release n s' = s"
proof (cases "n \<le> 0")
  case True
  then show ?thesis using assms by (simp add: byte_acquire_def byte_release_def)
next
  case False
  then have "s' = s\<lparr>bs_free := bs_free s - n\<rparr>" "bs_waiters s = []" using assms by (auto simp: byte_acquire_def split: if_splits)
  then show ?thesis using False grantLocked_stuck [OF assms(2)] by (simp add: byte_release_def)
qed

lemma remove1_append_fresh: "x \<notin> set xs \<Longrightarrow> remove1 x (xs @ [x]) = xs"
  by (induction xs) auto

lemma queue_then_cancel:
  assumes "byte_acquire w n s = (s', Queued)" and "stuck_head s" and "(w, n) \<notin> set (bs_waiters s)"
  shows "byte_cancel w n s' = s"
proof -
  have "s' = s\<lparr>bs_waiters := bs_waiters s @ [(w, n)]\<rparr>" using assms by (auto simp: byte_acquire_def split: if_splits)
  then show ?thesis using assms(3) grantLocked_stuck [OF assms(2)] by (simp add: byte_cancel_def remove1_append_fresh)
qed

definition counters_ok :: "inflightSem \<Rightarrow> bool" where
  "counters_ok s \<longleftrightarrow> (\<forall>cid n. map_of s cid = Some n \<longrightarrow> 0 < n)"

lemma slot_then_release:
  assumes "inflight_acquire cid limit s = (s', True)" and "counters_ok s"
  shows "map_of (inflight_release cid s') = map_of s"
proof
  fix c
  have s': "s' = AList.update cid (map_int s cid + 1) s" using assms(1) by (auto simp: inflight_acquire_def split: if_splits)
  show "map_of (inflight_release cid s') c = map_of s c"
    using assms(2) [unfolded counters_ok_def, rule_format, of cid]
    by (cases "map_of s cid") (fastforce simp: s' inflight_release_def map_int_def Let_def)+
qed

lemma Do_admit_state:
  assumes "Do_admit rfc pf ended clk who call p = (p', x)"
  shows "px_bytes p' = px_bytes p" and "isl x \<Longrightarrow> px_inflight p' = px_inflight p"
    and "x = Inr t \<Longrightarrow> \<exists>limit. inflight_acquire (ca_ClusterID call) limit (px_inflight p) = (px_inflight p', True)"
  using assms by (auto simp: Do_admit_def session_def Let_def split: sum.splits prod.splits bool.splits if_splits)

text \<open>C11. Every call gives back what it took. On each way out of \<open>Do\<close>, success, denial, refusal, cancelled
  wait, failed or oversized answer alike, the byte budget is as it was before the call and so is every
  cluster's in-flight counter.\<close>

theorem Do_returns_budgets:
  assumes "stuck_head (px_bytes p)" and "counters_ok (px_inflight p)" and "w \<notin> fst ` set (bs_waiters (px_bytes p))"
    and "Do rfc pf ended clk inflate sched remote w gone who call p = (p', out)"
  shows "px_bytes p' = px_bytes p \<and> map_of (px_inflight p') = map_of (px_inflight p)"
proof -
  obtain q x where adm: "Do_admit rfc pf ended clk who call p = (q, x)" by (cases "Do_admit rfc pf ended clk who call p")
  show ?thesis
  proof (cases x)
    case (Inl err)
    then show ?thesis using assms(4) adm Do_admit_state [OF adm] by (auto simp: Do_def)
  next
    case (Inr t)
    obtain s a where acq: "byte_acquire w (tk_maxBytes t) (px_bytes p) = (s, a)" by (cases "byte_acquire w (tk_maxBytes t) (px_bytes p)")
    obtain limit where slot: "inflight_acquire (ca_ClusterID call) limit (px_inflight p) = (px_inflight q, True)"
      using Do_admit_state(3) [OF adm Inr] by blast
    have fresh: "(w, tk_maxBytes t) \<notin> set (bs_waiters (px_bytes p))" using assms(3) by force
    have "px_bytes p' = (case a of Acquired \<Rightarrow> byte_release (tk_maxBytes t) s | Queued \<Rightarrow> byte_cancel w (tk_maxBytes t) s | BudgetTooLarge \<Rightarrow> s)
        \<and> px_inflight p' = inflight_release (ca_ClusterID call) (px_inflight q)"
      using assms(4) adm Inr acq Do_admit_state(1) [OF adm] by (cases a) (auto simp: Do_def Let_def)
    moreover have "(case a of Acquired \<Rightarrow> byte_release (tk_maxBytes t) s | Queued \<Rightarrow> byte_cancel w (tk_maxBytes t) s | BudgetTooLarge \<Rightarrow> s) = px_bytes p"
      using acq assms(1) fresh acquire_then_release queue_then_cancel
      by (cases a) (auto simp: byte_acquire_def split: if_splits)
    ultimately show ?thesis using slot_then_release [OF slot assms(2)] by simp
  qed
qed

subsection \<open>What a call can reach\<close>

definition proxy_ok :: "Proxy \<Rightarrow> bool" where
  "proxy_ok p \<longleftrightarrow> 0 < px_defaultTimeout p \<and> px_defaultTimeout p \<le> px_maxTimeout p \<and> 0 < px_maxResponseBytes p
     \<and> px_maxResponseBytes p \<le> bs_capacity (px_bytes p) \<and> 0 < px_maxInflight p"

lemma New_Proxy_ok: "New_Proxy opts = Some p \<Longrightarrow> proxy_ok p"
  by (auto simp: New_Proxy_def proxy_ok_def or_default_def Let_def newByteSem_def DefaultTimeout_def DefaultMaxTimeout_def
      DefaultMaxResponseBytes_def DefaultGlobalResponseBudget_def DefaultMaxInflightPerCluster_def go_defs
      split: option.splits if_splits)

text \<open>A limit \<open>v\<close> that was asked for as \<open>want\<close> under the hub's ceiling \<open>most\<close> and the principal's \<open>own\<close>.\<close>

definition tightened :: "int \<Rightarrow> int \<Rightarrow> int \<Rightarrow> int \<Rightarrow> bool" where
  "tightened v want most own \<longleftrightarrow> 0 < v \<and> v \<le> most \<and> (0 < want \<longrightarrow> v \<le> want) \<and> (0 < own \<longrightarrow> v \<le> own)"

lemma effective_tightened:
  assumes "proxy_ok p"
  shows "tightened (effectiveTimeout lims t p) t (px_maxTimeout p) (lim_Timeout lims)"
    and "tightened (effectiveMaxBytes lims b p) b (px_maxResponseBytes p) (lim_MaxResponseBytes lims)"
    and "tightened (effectiveInflight lims p) 0 (px_maxInflight p) (lim_MaxConcurrentPerCluster lims)"
  using assms
  by (auto simp: proxy_ok_def tightened_def effectiveTimeout_def effectiveMaxBytes_def effectiveInflight_def Let_def)

lemma Session_live:
  assumes "reg_inv G r" and "Session ended now cid r = (r', Inr s)"
  obtains key q where "slot_at r cid key = Some q" "sl_session (r_heap r q) = s" "\<not> ended s"
proof -
  obtain e where e: "map_of (r_entries r) cid = Some e" "pickLocked ended (r_heap r) e = (fst (pickLocked ended (r_heap r) e), Some s)"
    using assms(2) by (auto simp: Session_def split: option.splits if_splits prod.splits)
  let ?ks = "pick_keys ended (r_heap r) e"
  have wf: "wf_map (e_slots e)" using reg_invD(2) [OF assms(1) e(1)] by (simp add: entry_good_def)
  have ks: "?ks \<noteq> []" using e(2) by (auto simp: pickLocked_def Let_def)
  let ?k = "?ks ! (unat (e_rr e) mod 2 ^ 31 mod length ?ks)"
  have "?k \<in> set ?ks" using ks by simp
  then obtain q where q: "map_of (e_slots e) ?k = Some q" "\<not> ended (sl_session (r_heap r q))"
    using pick_keys_iff [OF wf] by blast
  then have "sl_session (r_heap r q) = s" using e(2) pickLocked_step [OF ks] by simp
  then show thesis using that [of ?k q] q slot_at_entry [OF e(1)] by simp
qed

lemma authorize_ok:
  assumes "authorizeAndBuild rfc pf now who call p = Inr (r, path)"
  obtains c where "Cluster_view now (ca_ClusterID call) (px_reg p) = Some c" "allows who (ca_ClusterID call) (c_Labels c)"
    "Get (ca_Endpoint call) = Inr r" "BuildPath (ca_Endpoint call) (ca_LabelName call) = Inr path"
    "Validate rfc pf (ca_Endpoint call) (ca_Form call) (px_enableConfig p) = None"
  using assms by (auto simp: authorizeAndBuild_def Let_def split: if_splits sum.splits option.splits)

lemma session_ok:
  assumes "session ended clk cid p = (p', Inr s)"
  shows "\<exists>reg. Session ended (clk 1) cid (px_reg p) = (reg, Inr s) \<and> p' = p\<lparr>px_reg := reg\<rparr>"
  using assms by (auto simp: session_def split: prod.splits sum.splits if_splits)

lemma Do_admit_ok:
  assumes "Do_admit rfc pf ended clk who call p = (p', Inr t)"
  shows "authorizeAndBuild rfc pf (clk 7) who call p = Inr (tk_route t, tk_path t)
    \<and> (\<exists>q. session ended clk (ca_ClusterID call) p = (q, Inr (tk_session t)) \<and>
        tk_timeout t = effectiveTimeout (limitsOf who) (ca_Timeout call) q
        \<and> tk_maxBytes t = effectiveMaxBytes (limitsOf who) (ca_MaxBytes call) q)"
  using assms by (auto simp: Do_admit_def Let_def split: sum.splits prod.splits bool.splits)

lemma Do_remote:
  assumes "Do rfc pf ended clk inflate sched remote w gone who call p \<noteq> Do rfc pf ended clk inflate sched remote' w gone who call p"
  obtains p' t where "Do_admit rfc pf ended clk who call p = (p', Inr t)"
    "remote (tk_session t) (tk_timeout t) (request_of call (tk_route t) (tk_path t) (tk_maxBytes t))
     \<noteq> remote' (tk_session t) (tk_timeout t) (request_of call (tk_route t) (tk_path t) (tk_maxBytes t))"
proof -
  obtain q x where adm: "Do_admit rfc pf ended clk who call p = (q, x)" by (cases "Do_admit rfc pf ended clk who call p")
  then obtain t where x: "x = Inr t" using assms by (cases x) (auto simp: Do_def)
  have "remote (tk_session t) (tk_timeout t) (request_of call (tk_route t) (tk_path t) (tk_maxBytes t))
     \<noteq> remote' (tk_session t) (tk_timeout t) (request_of call (tk_route t) (tk_path t) (tk_maxBytes t))"
    using assms adm by (auto simp: Do_def x Let_def)
  then show thesis using that adm x by blast
qed

text \<open>C8. The one thing a call can ask of the fleet. If what \<open>Do\<close> does depends on the remote side at all, then
  through a single request to a live session of the named cluster, which the principal's scope admits under the
  labels the registry holds. The request's route and path are those of an allow-listed endpoint whose
  parameters passed validation: every lookup of the path on the spoke finds that route and that label name, and the form sent is
  the validated one. Its deadline and its byte cap are positive and within the hub's, the caller's and the principal's limits.\<close>

theorem call_is_confined:
  assumes "reg_inv G (px_reg p)" and "proxy_ok p" and "set order = set (map snd routes)"
    and "Do rfc pf ended clk inflate sched remote w gone who call p \<noteq> Do rfc pf ended clk inflate sched remote' w gone who call p"
  shows "\<exists>sess timeout q c r key slot. remote sess timeout q \<noteq> remote' sess timeout q
    \<and> Cluster_view (clk 7) (ca_ClusterID call) (px_reg p) = Some c \<and> allows who (ca_ClusterID call) (c_Labels c)
    \<and> slot_at (px_reg p) (ca_ClusterID call) key = Some slot \<and> sl_session (r_heap (px_reg p) slot) = sess \<and> \<not> ended sess
    \<and> Lookup order (qr_Method q) (qr_Path q) = Some (r, ca_LabelName call) \<and> ro_Endpoint r = ca_Endpoint call
    \<and> Validate rfc pf (ca_Endpoint call) (ca_Form call) (px_enableConfig p) = None \<and> qr_Form q = Values_Encode (ca_Form call)
    \<and> tightened timeout (ca_Timeout call) (px_maxTimeout p) (lim_Timeout (limitsOf who))
    \<and> tightened (qr_MaxResponseBytes q) (ca_MaxBytes call) (px_maxResponseBytes p) (lim_MaxResponseBytes (limitsOf who))"
proof -
  obtain p' t where t: "Do_admit rfc pf ended clk who call p = (p', Inr t)"
    "remote (tk_session t) (tk_timeout t) (request_of call (tk_route t) (tk_path t) (tk_maxBytes t))
     \<noteq> remote' (tk_session t) (tk_timeout t) (request_of call (tk_route t) (tk_path t) (tk_maxBytes t))"
    using assms(4) by (rule Do_remote)
  obtain c where c: "Cluster_view (clk 7) (ca_ClusterID call) (px_reg p) = Some c" "allows who (ca_ClusterID call) (c_Labels c)"
    "Get (ca_Endpoint call) = Inr (tk_route t)" "BuildPath (ca_Endpoint call) (ca_LabelName call) = Inr (tk_path t)"
    "Validate rfc pf (ca_Endpoint call) (ca_Form call) (px_enableConfig p) = None"
    using Do_admit_ok [OF t(1)] by (blast elim: authorize_ok)
  obtain q where q: "session ended clk (ca_ClusterID call) p = (q, Inr (tk_session t))"
    "tk_timeout t = effectiveTimeout (limitsOf who) (ca_Timeout call) q" "tk_maxBytes t = effectiveMaxBytes (limitsOf who) (ca_MaxBytes call) q"
    using Do_admit_ok [OF t(1)] by blast
  obtain reg where sess: "Session ended (clk 1) (ca_ClusterID call) (px_reg p) = (reg, Inr (tk_session t))" "q = p\<lparr>px_reg := reg\<rparr>"
    using session_ok [OF q(1)] by blast
  then have "px_maxTimeout q = px_maxTimeout p" "px_maxResponseBytes q = px_maxResponseBytes p" "proxy_ok q"
    using assms(2) by (simp_all add: proxy_ok_def)
  then have tight: "tightened (tk_timeout t) (ca_Timeout call) (px_maxTimeout p) (lim_Timeout (limitsOf who))"
    "tightened (tk_maxBytes t) (ca_MaxBytes call) (px_maxResponseBytes p) (lim_MaxResponseBytes (limitsOf who))"
    using effective_tightened [of q] q(2,3) by metis+
  obtain key slot where live: "slot_at (px_reg p) (ca_ClusterID call) key = Some slot"
    "sl_session (r_heap (px_reg p) slot) = tk_session t" "\<not> ended (tk_session t)"
    using Session_live [OF assms(1) sess(1)] by blast
  have ep: "ro_Endpoint (tk_route t) = ca_Endpoint call" using c(3) by (simp add: Get_table)
  then have "Lookup order (ro_Method (tk_route t)) (tk_path t) = Some (tk_route t, ca_LabelName call)"
    using Lookup_iff [OF assms(3) [folded table_def]] c(3,4) by (auto simp: EqualFold_def)
  then show ?thesis using t(2) c(1,2,5) live tight ep
    by (intro exI [of _ "tk_session t"] exI [of _ "tk_timeout t"]
        exI [of _ "request_of call (tk_route t) (tk_path t) (tk_maxBytes t)"] exI [of _ c] exI [of _ "tk_route t"] exI [of _ key] exI [of _ slot])
      (simp add: request_of_def)
qed

subsection \<open>A run of the proxy\<close>

definition example_proxy :: Proxy where
  "example_proxy = the (New_Proxy \<lparr>op_Registry = Some example_r1, op_DefaultTimeout = 0, op_MaxTimeout = 0, op_MaxResponseBytes = 0,
     op_GlobalResponseBudget = 0, op_MaxInflightPerCluster = 0, op_EnableStatusConfig = False\<rparr>)"

definition example_caller :: Principal where
  "example_caller = \<lparr>p_KID = ''k'', p_Name = ''n'', p_Class = ClassAgent, p_Role = RoleViewer, p_Scope = Some example_scope, p_Epoch = 0\<rparr>"

definition example_call :: Call where
  "example_call = \<lparr>ca_ClusterID = ''c1'', ca_Endpoint = EndpointLabels, ca_LabelName = '''', ca_Form = [], ca_Timeout = 0, ca_MaxBytes = 0, ca_RequestID = ''r''\<rparr>"

definition example_Do :: "remote \<Rightarrow> Call \<Rightarrow> Proxy \<Rightarrow> Proxy \<times> Result option \<times> call_error option \<times> string" where
  "example_Do remote = Do (\<lambda>_. False) (\<lambda>_. None) (\<lambda>s. s = 3) (\<lambda>i. 11) no_inflater (\<lambda>i. (511, 511)) remote 0 None (Some example_caller)"

lemma default_budgets: "\<not> DefaultGlobalResponseBudget < DefaultMaxResponseBytes" "\<not> DefaultTimeout > DefaultMaxTimeout"
  by (simp_all add: DefaultTimeout_def DefaultMaxTimeout_def DefaultMaxResponseBytes_def DefaultGlobalResponseBudget_def go_defs)

lemma example_proxy_new:
  "New_Proxy \<lparr>op_Registry = Some example_r1, op_DefaultTimeout = 0, op_MaxTimeout = 0, op_MaxResponseBytes = 0,
     op_GlobalResponseBudget = 0, op_MaxInflightPerCluster = 0, op_EnableStatusConfig = False\<rparr> = Some example_proxy"
  by (simp add: example_proxy_def New_Proxy_def or_default_def Let_def default_budgets)

lemma example_proxy_fields [simp]:
  "px_reg example_proxy = example_r1" "px_bytes example_proxy = newByteSem DefaultGlobalResponseBudget" "px_inflight example_proxy = newInflightSem"
  by (simp_all add: example_proxy_def New_Proxy_def or_default_def Let_def default_budgets)

lemma example_answers:
  "fst (snd (example_Do (\<lambda>s t q. Inl [DeadlineExceeded]) example_call example_proxy)) = None"
  "map_option re_Body (fst (snd (example_Do (\<lambda>s t q. Inr example_response) example_call example_proxy))) = Some ''0123456789''"
  "snd (example_Do (\<lambda>s t q. Inr example_response) (example_call\<lparr>ca_ClusterID := ''c2''\<rparr>) example_proxy) = (None, Some (Forbidden ''c2''), CodeForbidden)"
  by code_simp+

theorem denial_hides_existence_witness:
  "example_Do (\<lambda>s t q. Inr example_response) (example_call\<lparr>ca_ClusterID := ''c2'', ca_Endpoint := ''nonsense''\<rparr>) example_proxy
     = (example_proxy, None, Some (Forbidden ''c2''), CodeForbidden)"
proof -
  have "selectors_named (Some example_caller)" by code_simp
  moreover have "Do (\<lambda>_. False) (\<lambda>_. None) (\<lambda>s. s = 3) (\<lambda>i. 11) no_inflater (\<lambda>i. (511, 511)) (\<lambda>s t q. Inr example_response) 0 None
      (Some example_caller) (example_call\<lparr>ca_ClusterID := ''c2''\<rparr>) example_proxy
      = (fst (example_Do (\<lambda>s t q. Inr example_response) (example_call\<lparr>ca_ClusterID := ''c2''\<rparr>) example_proxy), None, Some (Forbidden ''c2''), CodeForbidden)"
    using example_answers(3) by (simp add: example_Do_def prod_eq_iff)
  ultimately show ?thesis unfolding example_Do_def by (intro denial_hides_existence) auto
qed

theorem Do_returns_budgets_witness:
  "px_bytes (fst (example_Do (\<lambda>s t q. Inr example_response) example_call example_proxy)) = newByteSem DefaultGlobalResponseBudget
   \<and> fst (snd (example_Do (\<lambda>s t q. Inr example_response) example_call example_proxy)) \<noteq> None"
proof -
  have "stuck_head (px_bytes example_proxy)" "counters_ok (px_inflight example_proxy)" "0 \<notin> fst ` set (bs_waiters (px_bytes example_proxy))"
    by (simp_all add: stuck_head_def newByteSem_def counters_ok_def newInflightSem_def)
  from Do_returns_budgets [OF this, of "\<lambda>_. False" "\<lambda>_. None" "\<lambda>s. s = 3" "\<lambda>i. 11" no_inflater "\<lambda>i. (511, 511)"
      "\<lambda>s t q. Inr example_response" None "Some example_caller" example_call, OF prod.collapse [symmetric]]
  show ?thesis using example_answers(2) by (auto simp: example_Do_def)
qed

theorem call_is_confined_witness:
  "\<exists>timeout (q :: Request) r. Lookup (map snd routes) (qr_Method q) (qr_Path q) = Some (r, '''') \<and> ro_Endpoint r = EndpointLabels
     \<and> qr_Form q = Values_Encode [] \<and> tightened timeout 0 (px_maxTimeout example_proxy) 0"
proof -
  have "example_Do (\<lambda>s t q. Inl [DeadlineExceeded]) example_call example_proxy \<noteq> example_Do (\<lambda>s t q. Inr example_response) example_call example_proxy"
    using example_answers(1,2) by force
  then have differs: "Do (\<lambda>_. False) (\<lambda>_. None) (\<lambda>s. s = 3) (\<lambda>i. 11) no_inflater (\<lambda>i. (511, 511)) (\<lambda>s t q. Inl [DeadlineExceeded]) 0 None (Some example_caller) example_call example_proxy
      \<noteq> Do (\<lambda>_. False) (\<lambda>_. None) (\<lambda>s. s = 3) (\<lambda>i. 11) no_inflater (\<lambda>i. (511, 511)) (\<lambda>s t q. Inr example_response) 0 None (Some example_caller) example_call example_proxy"
    by (simp add: example_Do_def)
  have inv: "reg_inv (\<lambda>c m. True) (px_reg example_proxy)" using example_inv1 by simp
  have fields: "ca_LabelName example_call = ''''" "ca_Endpoint example_call = EndpointLabels" "ca_Form example_call = []" "ca_Timeout example_call = 0"
    "lim_Timeout (limitsOf (Some example_caller)) = 0"
    by (simp_all add: example_call_def limitsOf_def example_caller_def example_scope_defs)
  show ?thesis using call_is_confined [OF inv New_Proxy_ok [OF example_proxy_new] refl differs] unfolding fields by blast
qed

end
