(* ===== verification/Rotation.thy ===== *)
theory Rotation
  imports Registry
begin

text \<open>
  The rotation of the fleet's certificate authority, \<open>internal/hub/carotation.go\<close>, and the tracker of
  \<open>internal/hub/caissuers.go\<close> that counts the sessions on an outgoing root.

  The CA Secret is its two maps of strings. A root certificate is the text it is stored as. The
  arguments are: \<open>parse\<close> and \<open>fmt\<close>, Go's reading and writing of RFC 3339 times; \<open>fingerprint\<close>, the
  fingerprint of a stored root; \<open>mint\<close>, the successor a poll would generate; the validity of the
  replica's own signer; the holdouts it counts; and the answer of the API server to an update. Reasons,
  which are only logged, and gauges are left out.
\<close>

subsection \<open>The Secret\<close>

record Secret =
  sec_Data :: "(string, string) gomap"
  sec_Annotations :: "(string, string) gomap"

definition secretKeyCACert :: string where "secretKeyCACert = ''ca.crt''"
definition secretKeyCAKey :: string where "secretKeyCAKey = ''ca.key''"
definition secretKeyCANextCert :: string where "secretKeyCANextCert = ''ca-next.crt''"
definition secretKeyCANextKey :: string where "secretKeyCANextKey = ''ca-next.key''"
definition secretKeyCAPrevCert :: string where "secretKeyCAPrevCert = ''ca-previous.crt''"
definition secretKeyRotationPhase :: string where "secretKeyRotationPhase = ''ca-rotation.phase''"
definition secretKeyRotationSince :: string where "secretKeyRotationSince = ''ca-rotation.since''"
definition secretKeyRotationHoldout :: string where "secretKeyRotationHoldout = ''ca-rotation.last-holdout''"
definition secretKeyRotationRetireAfter :: string where "secretKeyRotationRetireAfter = ''ca-rotation.retire-after''"
definition annotationRotateNow :: string where "annotationRotateNow = ''promfleet.io/rotate-now''"
definition annotationRotateAccepted :: string where "annotationRotateAccepted = ''promfleet.io/rotate-accepted''"

named_theorems secret_keys \<open>the names of the Secret's entries\<close>

declare secretKeyCACert_def [secret_keys] secretKeyCAKey_def [secret_keys] secretKeyCANextCert_def [secret_keys]
  secretKeyCANextKey_def [secret_keys] secretKeyCAPrevCert_def [secret_keys] secretKeyRotationPhase_def [secret_keys]
  secretKeyRotationSince_def [secret_keys] secretKeyRotationHoldout_def [secret_keys]
  secretKeyRotationRetireAfter_def [secret_keys] annotationRotateNow_def [secret_keys] annotationRotateAccepted_def [secret_keys]

type_synonym caPhase = string

definition caPhaseSteady :: caPhase where "caPhaseSteady = ''steady''"
definition caPhasePublishing :: caPhase where "caPhasePublishing = ''publishing''"
definition caPhaseSigning :: caPhase where "caPhaseSigning = ''signing''"

definition caPhases :: "caPhase list" where
  "caPhases = [caPhaseSteady, caPhasePublishing, caPhaseSigning]"

lemmas phase_defs = caPhaseSteady_def caPhasePublishing_def caPhaseSigning_def

record caRotationState =
  rs_rawPhase :: string
  rs_phase :: caPhase
  rs_phaseKnown :: bool
  rs_since :: gotime
  rs_sinceOK :: bool
  rs_certPEM :: string
  rs_keyPEM :: string
  rs_nextCertPEM :: string
  rs_nextKeyPEM :: string
  rs_prevCertPEM :: string
  rs_lastHoldout :: gotime
  rs_hasHoldout :: bool
  rs_retireAfter :: gotime
  rs_hasRetireAfter :: bool
  rs_force :: string

definition readCARotation :: "(string \<Rightarrow> gotime option) \<Rightarrow> Secret \<Rightarrow> caRotationState" where
  "readCARotation parse sec =
     (let raw = map_str (sec_Data sec) secretKeyRotationPhase;
          known = (raw \<in> set caPhases);
          since = parse (map_str (sec_Data sec) secretKeyRotationSince);
          holdout = map_str (sec_Data sec) secretKeyRotationHoldout;
          retire = map_str (sec_Data sec) secretKeyRotationRetireAfter
      in \<lparr>rs_rawPhase = raw, rs_phase = (if known then raw else caPhaseSteady), rs_phaseKnown = known,
          rs_since = (case since of Some t \<Rightarrow> t | None \<Rightarrow> 0), rs_sinceOK = (since \<noteq> None),
          rs_certPEM = map_str (sec_Data sec) secretKeyCACert, rs_keyPEM = map_str (sec_Data sec) secretKeyCAKey,
          rs_nextCertPEM = map_str (sec_Data sec) secretKeyCANextCert, rs_nextKeyPEM = map_str (sec_Data sec) secretKeyCANextKey,
          rs_prevCertPEM = map_str (sec_Data sec) secretKeyCAPrevCert,
          rs_lastHoldout = (case parse holdout of Some t \<Rightarrow> t | None \<Rightarrow> 0), rs_hasHoldout = (holdout \<noteq> ''''),
          rs_retireAfter = (case parse retire of Some t \<Rightarrow> t | None \<Rightarrow> 0), rs_hasRetireAfter = (retire \<noteq> ''''),
          rs_force = map_str (sec_Annotations sec) annotationRotateNow\<rparr>)"

definition phase_unknown :: "caRotationState \<Rightarrow> bool" where
  "phase_unknown st \<longleftrightarrow> rs_rawPhase st \<noteq> '''' \<and> \<not> rs_phaseKnown st"

subsection \<open>The roots in force\<close>

text \<open>\<open>bytes.TrimRight(s, "\n")\<close>.\<close>

definition trim_newlines :: "string \<Rightarrow> string" where
  "trim_newlines s = rev (dropWhile (\<lambda>c. c = CHR 0x0A) (rev s))"

definition joinRootsPEM :: "string \<Rightarrow> string \<Rightarrow> string" where
  "joinRootsPEM a b =
     (if TrimSpace a = '''' then b else if TrimSpace b = '''' then a else trim_newlines a @ [CHR 0x0A] @ b)"

definition extra_roots :: "caRotationState \<Rightarrow> string list" where
  "extra_roots s =
     (if phase_unknown s then [rs_nextCertPEM s, rs_prevCertPEM s]
      else if rs_phase s = caPhasePublishing then [rs_nextCertPEM s]
      else if rs_phase s = caPhaseSigning then [rs_prevCertPEM s]
      else [''''])"

definition additionalRoots :: "caRotationState \<Rightarrow> string \<Rightarrow> string" where
  "additionalRoots s base = foldl joinRootsPEM base (extra_roots s)"

text \<open>Every root a replica trusts once it has adopted the state: the signer and the extra ones.\<close>

definition trusted :: "caRotationState \<Rightarrow> string set" where
  "trusted s = {rs_certPEM s} \<union> (set (extra_roots s) - {''''})"

subsection \<open>Plans\<close>

record rotation_config =
  rg_SpokeCertTTL :: duration
  rg_RenewGrace :: duration
  rg_CARotationPollInterval :: duration
  rg_CARotateAtRemainingFraction :: real

definition CARotationRunway :: "rotation_config \<Rightarrow> duration" where
  "CARotationRunway cfg = 2 * rg_SpokeCertTTL cfg + rg_RenewGrace cfg + 4 * rg_CARotationPollInterval cfg"

text \<open>What one poll of one replica sees besides the Secret.\<close>

record rotator_view =
  rv_cfg :: rotation_config
  rv_now :: gotime
  rv_startedAt :: gotime
  rv_notBefore :: gotime
  rv_notAfter :: gotime
  rv_holdouts :: "string \<Rightarrow> int"
  rv_mint :: "(string \<times> string) option"

record caRotationPlan =
  pl_to :: caPhase
  pl_keepSince :: bool
  pl_set :: "(string, string) gomap"
  pl_del :: "string list"
  pl_consumeForce :: bool

definition rotationScratchKeys :: "string list" where
  "rotationScratchKeys = [secretKeyCANextCert, secretKeyCANextKey, secretKeyRotationHoldout, secretKeyRotationRetireAfter]"

definition retirementHold :: "rotation_config \<Rightarrow> duration" where
  "retirementHold cfg = rg_SpokeCertTTL cfg + rg_RenewGrace cfg + 2 * rg_CARotationPollInterval cfg"

definition holdoutQuiet :: "rotation_config \<Rightarrow> duration" where
  "holdoutQuiet cfg = 2 * rg_CARotationPollInterval cfg"

definition repairSince :: "caRotationState \<Rightarrow> caRotationPlan option" where
  "repairSince st =
     (if rs_sinceOK st then None
      else Some \<lparr>pl_to = rs_phase st, pl_keepSince = False, pl_set = [], pl_del = [], pl_consumeForce = False\<rparr>)"

definition strayRotationKeys :: "caRotationState \<Rightarrow> string list" where
  "strayRotationKeys st =
     sort (map fst (filter snd
       [(secretKeyCANextCert, rs_nextCertPEM st \<noteq> ''''), (secretKeyCANextKey, rs_nextKeyPEM st \<noteq> ''''),
        (secretKeyCAPrevCert, rs_prevCertPEM st \<noteq> ''''), (secretKeyRotationHoldout, rs_hasHoldout st),
        (secretKeyRotationRetireAfter, rs_hasRetireAfter st)]))"

text \<open>\<open>time.Duration(f)\<close> of a floating-point product truncates towards zero.\<close>

definition duration_of :: "real \<Rightarrow> duration" where
  "duration_of x = (if x \<ge> 0 then \<lfloor>x\<rfloor> else - \<lfloor>- x\<rfloor>)"

definition rotationDue :: "caRotationState \<Rightarrow> rotator_view \<Rightarrow> bool" where
  "rotationDue st v =
     (if rs_force st \<noteq> '''' then True
      else
        (let remaining = time_Sub (rv_notAfter v) (rv_now v);
             total = time_Sub (rv_notAfter v) (rv_notBefore v);
             threshold = duration_of (real_of_int total * rg_CARotateAtRemainingFraction (rv_cfg v));
             threshold = (if threshold < CARotationRunway (rv_cfg v) then CARotationRunway (rv_cfg v) else threshold)
         in \<not> remaining > threshold))"

text \<open>\<open>Inl ()\<close>: the successor could not be minted.\<close>

definition planSteady :: "caRotationState \<Rightarrow> rotator_view \<Rightarrow> unit + caRotationPlan option" where
  "planSteady st v =
     (if strayRotationKeys st \<noteq> [] then
        Inr (Some \<lparr>pl_to = caPhaseSteady, pl_keepSince = True, pl_set = [], pl_del = strayRotationKeys st, pl_consumeForce = False\<rparr>)
      else if \<not> rotationDue st v then Inr None
      else
        (case rv_mint v of
           None \<Rightarrow> Inl ()
         | Some (certPEM, keyPEM) \<Rightarrow>
             Inr (Some \<lparr>pl_to = caPhasePublishing, pl_keepSince = False,
               pl_set = [(secretKeyCANextCert, certPEM), (secretKeyCANextKey, keyPEM)], pl_del = [],
               pl_consumeForce = (rs_force st \<noteq> '''')\<rparr>)))"

definition planPublishing :: "(gotime \<Rightarrow> string) \<Rightarrow> caRotationState \<Rightarrow> rotator_view \<Rightarrow> caRotationPlan option" where
  "planPublishing fmt st v =
     (if rs_nextCertPEM st = '''' \<or> rs_nextKeyPEM st = '''' then
        Some \<lparr>pl_to = caPhaseSteady, pl_keepSince = False, pl_set = [], pl_del = rotationScratchKeys, pl_consumeForce = False\<rparr>
      else
        (case repairSince st of
           Some plan \<Rightarrow> Some plan
         | None \<Rightarrow>
             if time_Sub (rv_now v) (rs_since st) < rg_SpokeCertTTL (rv_cfg v) \<and> rv_now v < rv_notAfter v then None
             else
               Some \<lparr>pl_to = caPhaseSigning, pl_keepSince = False,
                 pl_set = [(secretKeyCACert, rs_nextCertPEM st), (secretKeyCAKey, rs_nextKeyPEM st),
                   (secretKeyCAPrevCert, rs_certPEM st),
                   (secretKeyRotationRetireAfter, fmt (rv_now v + retirementHold (rv_cfg v)))],
                 pl_del = [secretKeyCANextCert, secretKeyCANextKey, secretKeyRotationHoldout], pl_consumeForce = False\<rparr>))"

definition outgoingFingerprint :: "(string \<Rightarrow> string option) \<Rightarrow> caRotationState \<Rightarrow> string" where
  "outgoingFingerprint fingerprint st =
     (if rs_phase st \<noteq> caPhaseSigning then ''''
      else case fingerprint (rs_prevCertPEM st) of None \<Rightarrow> '''' | Some fp \<Rightarrow> fp)"

definition planSigning ::
    "(gotime \<Rightarrow> string) \<Rightarrow> (string \<Rightarrow> string option) \<Rightarrow> caRotationState \<Rightarrow> rotator_view \<Rightarrow> caRotationPlan option" where
  "planSigning fmt fingerprint st v =
     (if rs_prevCertPEM st = '''' then
        Some \<lparr>pl_to = caPhaseSteady, pl_keepSince = False, pl_set = [], pl_del = rotationScratchKeys, pl_consumeForce = False\<rparr>
      else
        (case repairSince st of
           Some plan \<Rightarrow> Some plan
         | None \<Rightarrow>
             (let gate = rs_since st + retirementHold (rv_cfg v);
                  gate = (if rs_retireAfter st > gate then rs_retireAfter st else gate)
              in if rv_now v < gate then None
                 else if time_Sub (rv_now v) (rv_startedAt v) < holdoutQuiet (rv_cfg v) then None
                 else if rv_holdouts v (outgoingFingerprint fingerprint st) > 0 then
                   (if time_Sub (rv_now v) (rs_lastHoldout st) < rg_CARotationPollInterval (rv_cfg v) then None
                    else
                      Some \<lparr>pl_to = caPhaseSigning, pl_keepSince = True, pl_set = [(secretKeyRotationHoldout, fmt (rv_now v))],
                        pl_del = [], pl_consumeForce = False\<rparr>)
                 else if \<not> IsZero (rs_lastHoldout st) \<and> time_Sub (rv_now v) (rs_lastHoldout st) < holdoutQuiet (rv_cfg v) then None
                 else
                   Some \<lparr>pl_to = caPhaseSteady, pl_keepSince = False, pl_set = [],
                     pl_del = [secretKeyCAPrevCert, secretKeyRotationHoldout, secretKeyRotationRetireAfter], pl_consumeForce = False\<rparr>)))"

definition plan ::
    "(gotime \<Rightarrow> string) \<Rightarrow> (string \<Rightarrow> string option) \<Rightarrow> caRotationState \<Rightarrow> rotator_view \<Rightarrow> unit + caRotationPlan option" where
  "plan fmt fingerprint st v =
     (if phase_unknown st then Inr None
      else if rs_force st \<noteq> '''' \<and> rs_phase st \<noteq> caPhaseSteady then
        Inr (Some \<lparr>pl_to = rs_phase st, pl_keepSince = True, pl_set = [], pl_del = [], pl_consumeForce = True\<rparr>)
      else if rs_phase st = caPhaseSteady then planSteady st v
      else if rs_phase st = caPhasePublishing then Inr (planPublishing fmt st v)
      else Inr (planSigning fmt fingerprint st v))"

subsection \<open>One poll\<close>

text \<open>The Secret a plan asks the API server to store; \<open>now\<close> is the reading \<open>advance\<close> takes itself.\<close>

definition planned :: "(gotime \<Rightarrow> string) \<Rightarrow> gotime \<Rightarrow> caRotationPlan \<Rightarrow> Secret \<Rightarrow> Secret" where
  "planned fmt now p sec =
     (let data = AList.update secretKeyRotationPhase (pl_to p) (sec_Data sec);
          data = (if pl_keepSince p then data else AList.update secretKeyRotationSince (fmt now) data);
          data = maps_Copy data (pl_set p);
          data = fold AList.delete (pl_del p) data;
          ann = (if pl_consumeForce p
                 then AList.update annotationRotateAccepted (fmt now) (AList.delete annotationRotateNow (sec_Annotations sec))
                 else sec_Annotations sec)
      in \<lparr>sec_Data = data, sec_Annotations = ann\<rparr>)"

datatype update_error = ErrConflict | UpdateFailed

datatype rotation_error = MintFailed | RecordFailed | ReadFailed | AdoptFailed

definition advance ::
    "(string \<Rightarrow> gotime option) \<Rightarrow> (gotime \<Rightarrow> string) \<Rightarrow> (string \<Rightarrow> string option) \<Rightarrow> (Secret \<Rightarrow> update_error + Secret) \<Rightarrow> gotime
     \<Rightarrow> Secret \<Rightarrow> caRotationState \<Rightarrow> rotator_view \<Rightarrow> rotation_error + caRotationState option" where
  "advance parse fmt fingerprint update now sec st v =
     (case plan fmt fingerprint st v of
        Inl _ \<Rightarrow> Inl MintFailed
      | Inr None \<Rightarrow> Inr None
      | Inr (Some p) \<Rightarrow>
          (case update (planned fmt now p sec) of
             Inl ErrConflict \<Rightarrow> Inr None
           | Inl UpdateFailed \<Rightarrow> Inl RecordFailed
           | Inr updated \<Rightarrow> Inr (Some (readCARotation parse updated))))"

text \<open>The material a replica runs on: what it last adopted, and the live authority itself.\<close>

record caRotator =
  rt_base :: string
  rt_appliedCert :: string
  rt_appliedRoots :: string
  rt_authority :: "string \<times> string \<times> string"

definition sync :: "(string \<Rightarrow> string \<Rightarrow> string \<Rightarrow> bool) \<Rightarrow> caRotationState \<Rightarrow> caRotator \<Rightarrow> caRotator \<times> rotation_error option" where
  "sync AdoptPEM st r =
     (let certPEM = rs_certPEM st; rootsPEM = additionalRoots st (rt_base r)
      in if certPEM \<noteq> rt_appliedCert r \<or> rootsPEM \<noteq> rt_appliedRoots r then
           (if \<not> AdoptPEM certPEM (rs_keyPEM st) rootsPEM then (r, Some AdoptFailed)
            else (r\<lparr>rt_appliedCert := certPEM, rt_appliedRoots := rootsPEM, rt_authority := (certPEM, rs_keyPEM st, rootsPEM)\<rparr>, None))
         else (r, None))"

text \<open>\<open>view\<close> is what the replica sees once it has adopted the state it read.\<close>

definition step ::
    "(string \<Rightarrow> gotime option) \<Rightarrow> (gotime \<Rightarrow> string) \<Rightarrow> (string \<Rightarrow> string option) \<Rightarrow> (string \<Rightarrow> string \<Rightarrow> string \<Rightarrow> bool)
     \<Rightarrow> (Secret \<Rightarrow> update_error + Secret) \<Rightarrow> gotime \<Rightarrow> (caRotator \<Rightarrow> rotator_view) \<Rightarrow> Secret option \<Rightarrow> caRotator \<Rightarrow> caRotator \<times> rotation_error option" where
  "step parse fmt fingerprint AdoptPEM update now view got r =
     (case got of
        None \<Rightarrow> (r, Some ReadFailed)
      | Some sec \<Rightarrow>
          (let st = readCARotation parse sec
           in case sync AdoptPEM st r of
                (r, Some err) \<Rightarrow> (r, Some err)
              | (r, None) \<Rightarrow>
                  (case advance parse fmt fingerprint update now sec st (view r) of
                     Inl err \<Rightarrow> (r, Some err)
                   | Inr None \<Rightarrow> (r, None)
                   | Inr (Some st') \<Rightarrow> sync AdoptPEM st' r)))"

subsection \<open>Counting the holdouts\<close>

record issuerSighting =
  is_fingerprint :: string
  is_at :: gotime

type_synonym caIssuerTracker = "(string, issuerSighting) gomap"

definition sightingGrace :: duration where "sightingGrace = 2 * Minute"

text \<open>\<open>verified\<close> is the authority's verdict, \<open>issuer\<close> the root of the leaf and \<open>serial\<close> its serial number.\<close>

definition tracker_Verify ::
    "'err + 'id \<Rightarrow> string option \<Rightarrow> string option \<Rightarrow> gotime \<Rightarrow> caIssuerTracker \<Rightarrow> caIssuerTracker \<times> ('err + 'id)" where
  "tracker_Verify verified issuer serial now t =
     (case verified of
        Inl err \<Rightarrow> (t, Inl err)
      | Inr ident \<Rightarrow>
          (case (issuer, serial) of
             (Some fp, Some s) \<Rightarrow> (AList.update s \<lparr>is_fingerprint = fp, is_at = now\<rparr> t, Inr ident)
           | _ \<Rightarrow> (t, Inr ident)))"

definition holdoutsOn :: "string set \<Rightarrow> gotime \<Rightarrow> string \<Rightarrow> caIssuerTracker \<Rightarrow> caIssuerTracker \<times> nat" where
  "holdoutsOn live now fp t =
     (filter (\<lambda>(serial, s). serial \<in> live \<or> \<not> time_Sub now (is_at s) > sightingGrace) t,
      length (filter (\<lambda>(serial, s). serial \<in> live \<and> is_fingerprint s = fp) t))"

subsection \<open>What a plan writes\<close>

lemma map_str_alist [simp]:
  "map_str (AList.update k v m) k' = (if k' = k then v else map_str m k')"
  "map_str (AList.delete k m) k' = (if k' = k then '''' else map_str m k')"
  by (simp_all add: map_str_def)

lemma map_str_deletes: "map_str (fold AList.delete ks m) k = (if k \<in> set ks then '''' else map_str m k)"
  by (induction ks arbitrary: m) auto

lemma map_str_Copy:
  "wf_map src \<Longrightarrow> map_str (maps_Copy m src) k = (case map_of src k of Some v \<Rightarrow> v | None \<Rightarrow> map_str m k)"
  by (simp add: map_str_def map_of_maps_Copy split: option.splits)

lemma planned_data:
  "wf_map (pl_set p) \<Longrightarrow>
   map_str (sec_Data (planned fmt now p sec)) k =
     (if k \<in> set (pl_del p) then ''''
      else case map_of (pl_set p) k of Some v \<Rightarrow> v
        | None \<Rightarrow> if k = secretKeyRotationSince \<and> \<not> pl_keepSince p then fmt now
            else if k = secretKeyRotationPhase then pl_to p else map_str (sec_Data sec) k)"
  by (simp add: planned_def Let_def map_str_deletes map_str_Copy secret_keys split: option.splits)

lemma known_phases [simp]: "caPhaseSteady \<in> set caPhases" "caPhasePublishing \<in> set caPhases" "caPhaseSigning \<in> set caPhases"
  by (simp_all add: caPhases_def)

lemma phases_differ [simp]:
  "caPhaseSteady \<noteq> caPhasePublishing" "caPhasePublishing \<noteq> caPhaseSteady" "caPhaseSteady \<noteq> caPhaseSigning"
  "caPhaseSigning \<noteq> caPhaseSteady" "caPhasePublishing \<noteq> caPhaseSigning" "caPhaseSigning \<noteq> caPhasePublishing"
  "caPhaseSteady \<noteq> ''''" "caPhasePublishing \<noteq> ''''" "caPhaseSigning \<noteq> ''''"
  by (simp_all add: phase_defs)

text \<open>The fields of the state that the safety of a rotation rests on.\<close>

lemma read_fields:
  "rs_rawPhase (readCARotation parse sec) = map_str (sec_Data sec) secretKeyRotationPhase"
  "rs_phaseKnown (readCARotation parse sec) \<longleftrightarrow> map_str (sec_Data sec) secretKeyRotationPhase \<in> set caPhases"
  "rs_phase (readCARotation parse sec) =
     (if map_str (sec_Data sec) secretKeyRotationPhase \<in> set caPhases then map_str (sec_Data sec) secretKeyRotationPhase else caPhaseSteady)"
  "rs_certPEM (readCARotation parse sec) = map_str (sec_Data sec) secretKeyCACert"
  "rs_nextCertPEM (readCARotation parse sec) = map_str (sec_Data sec) secretKeyCANextCert"
  "rs_nextKeyPEM (readCARotation parse sec) = map_str (sec_Data sec) secretKeyCANextKey"
  "rs_prevCertPEM (readCARotation parse sec) = map_str (sec_Data sec) secretKeyCAPrevCert"
  "rs_retireAfter (readCARotation parse sec) = (case parse (map_str (sec_Data sec) secretKeyRotationRetireAfter) of Some t \<Rightarrow> t | None \<Rightarrow> 0)"
  "rs_since (readCARotation parse sec) = (case parse (map_str (sec_Data sec) secretKeyRotationSince) of Some t \<Rightarrow> t | None \<Rightarrow> 0)"
  "rs_sinceOK (readCARotation parse sec) \<longleftrightarrow> parse (map_str (sec_Data sec) secretKeyRotationSince) \<noteq> None"
  "rs_lastHoldout (readCARotation parse sec) = (case parse (map_str (sec_Data sec) secretKeyRotationHoldout) of Some t \<Rightarrow> t | None \<Rightarrow> 0)"
  "rs_force (readCARotation parse sec) = map_str (sec_Annotations sec) annotationRotateNow"
  "rs_keyPEM (readCARotation parse sec) = map_str (sec_Data sec) secretKeyCAKey"
  "rs_hasHoldout (readCARotation parse sec) \<longleftrightarrow> map_str (sec_Data sec) secretKeyRotationHoldout \<noteq> ''''"
  "rs_hasRetireAfter (readCARotation parse sec) \<longleftrightarrow> map_str (sec_Data sec) secretKeyRotationRetireAfter \<noteq> ''''"
  by (simp_all add: readCARotation_def Let_def)

text \<open>The transitions a plan can make, each with what becomes of signer, outgoing root and horizon.\<close>

definition kept :: "caRotationState \<Rightarrow> caRotationState \<Rightarrow> bool" where
  "kept st st' \<longleftrightarrow> rs_phase st' = rs_phase st \<and> rs_certPEM st' = rs_certPEM st \<and> rs_prevCertPEM st' = rs_prevCertPEM st
     \<and> rs_retireAfter st' = rs_retireAfter st"

definition promoted :: "(string \<Rightarrow> gotime option) \<Rightarrow> (gotime \<Rightarrow> string) \<Rightarrow> rotator_view \<Rightarrow> caRotationState \<Rightarrow> caRotationState \<Rightarrow> bool" where
  "promoted parse fmt v st st' \<longleftrightarrow> rs_phase st = caPhasePublishing \<and> rs_phase st' = caPhaseSigning
     \<and> rs_certPEM st' = rs_nextCertPEM st \<and> rs_nextCertPEM st \<noteq> '''' \<and> rs_prevCertPEM st' = rs_certPEM st
     \<and> rs_retireAfter st' = (case parse (fmt (rv_now v + retirementHold (rv_cfg v))) of Some t \<Rightarrow> t | None \<Rightarrow> 0)"

definition retired :: "rotator_view \<Rightarrow> caRotationState \<Rightarrow> caRotationState \<Rightarrow> bool" where
  "retired v st st' \<longleftrightarrow> rs_phase st = caPhaseSigning \<and> rs_phase st' = caPhaseSteady \<and> rs_certPEM st' = rs_certPEM st
     \<and> (rs_prevCertPEM st = '''' \<or> rs_retireAfter st \<le> rv_now v \<and> rs_since st + retirementHold (rv_cfg v) \<le> rv_now v)"

definition widened :: "caRotationState \<Rightarrow> caRotationState \<Rightarrow> bool" where
  "widened st st' \<longleftrightarrow> rs_phase st \<noteq> caPhaseSigning \<and> rs_phase st' \<noteq> caPhaseSigning \<and> rs_certPEM st' = rs_certPEM st"

lemmas transition_defs = kept_def promoted_def retired_def widened_def

lemma phase_cases:
  "\<not> phase_unknown (readCARotation parse sec) \<Longrightarrow>
   rs_phase (readCARotation parse sec) \<in> {caPhaseSteady, caPhasePublishing, caPhaseSigning}"
  by (auto simp: phase_unknown_def read_fields caPhases_def)

lemma planned_known:
  assumes "wf_map (pl_set p)" "pl_to p \<in> set caPhases" "secretKeyRotationPhase \<notin> set (pl_del p)" "map_of (pl_set p) secretKeyRotationPhase = None"
  shows "rs_phase (readCARotation parse (planned fmt now p sec)) = pl_to p \<and> \<not> phase_unknown (readCARotation parse (planned fmt now p sec))"
  using assms by (auto simp: read_fields phase_unknown_def planned_data secret_keys)

lemma stray_deletes: "set (strayRotationKeys st) \<subseteq>
    {secretKeyCANextCert, secretKeyCANextKey, secretKeyCAPrevCert, secretKeyRotationHoldout, secretKeyRotationRetireAfter}"
  by (auto simp: strayRotationKeys_def)

abbreviation after :: "(string \<Rightarrow> gotime option) \<Rightarrow> (gotime \<Rightarrow> string) \<Rightarrow> gotime \<Rightarrow> caRotationPlan \<Rightarrow> Secret \<Rightarrow> caRotationState" where
  "after parse fmt now p sec \<equiv> readCARotation parse (planned fmt now p sec)"

text \<open>A plan that only records: it names a known phase and touches neither roots nor horizon.\<close>

lemma recorded:
  assumes "wf_map (pl_set p)" "pl_to p \<in> set caPhases"
    and "(set (pl_del p) \<union> fst ` set (pl_set p)) \<inter> {secretKeyRotationPhase, secretKeyCACert, secretKeyCAPrevCert, secretKeyRotationRetireAfter} = {}"
  shows "\<not> phase_unknown (after parse fmt now p sec) \<and> rs_phase (after parse fmt now p sec) = pl_to p
    \<and> rs_certPEM (after parse fmt now p sec) = rs_certPEM (readCARotation parse sec)
    \<and> rs_prevCertPEM (after parse fmt now p sec) = rs_prevCertPEM (readCARotation parse sec)
    \<and> rs_retireAfter (after parse fmt now p sec) = rs_retireAfter (readCARotation parse sec)"
proof -
  have none: "map_of (pl_set p) k = None \<and> k \<notin> set (pl_del p)"
    if "k \<in> {secretKeyRotationPhase, secretKeyCACert, secretKeyCAPrevCert, secretKeyRotationRetireAfter}" for k
    using assms(3) that by (auto simp: map_of_eq_None_iff)
  have differ: "secretKeyCACert \<noteq> secretKeyRotationPhase" "secretKeyCAPrevCert \<noteq> secretKeyRotationPhase" "secretKeyRotationRetireAfter \<noteq> secretKeyRotationPhase"
    "secretKeyCACert \<noteq> secretKeyRotationSince" "secretKeyCAPrevCert \<noteq> secretKeyRotationSince" "secretKeyRotationRetireAfter \<noteq> secretKeyRotationSince"
    "secretKeyRotationPhase \<noteq> secretKeyRotationSince"
    by (simp_all add: secret_keys)
  show ?thesis
    using assms(1,2) none [of secretKeyRotationPhase] none [of secretKeyCACert] none [of secretKeyCAPrevCert] none [of secretKeyRotationRetireAfter] differ
    by (simp add: read_fields phase_unknown_def planned_data)
qed

lemma cert_survives:
  assumes "wf_map (pl_set p)" "pl_to p \<in> set caPhases"
    and "(set (pl_del p) \<union> fst ` set (pl_set p)) \<inter> {secretKeyRotationPhase, secretKeyCACert} = {}"
  shows "\<not> phase_unknown (after parse fmt now p sec) \<and> rs_phase (after parse fmt now p sec) = pl_to p
    \<and> rs_certPEM (after parse fmt now p sec) = rs_certPEM (readCARotation parse sec)"
proof -
  have none: "map_of (pl_set p) k = None \<and> k \<notin> set (pl_del p)" if "k \<in> {secretKeyRotationPhase, secretKeyCACert}" for k
    using assms(3) that by (auto simp: map_of_eq_None_iff)
  have differ: "secretKeyCACert \<noteq> secretKeyRotationPhase" "secretKeyCACert \<noteq> secretKeyRotationSince" "secretKeyRotationPhase \<noteq> secretKeyRotationSince"
    by (simp_all add: secret_keys)
  show ?thesis using assms(1,2) none [of secretKeyRotationPhase] none [of secretKeyCACert] differ
    by (simp add: read_fields phase_unknown_def planned_data)
qed

lemma planSteady_transition:
  assumes "rs_phase st = caPhaseSteady" and "st = readCARotation parse sec" and "planSteady st v = Inr (Some p)"
  shows "\<not> phase_unknown (after parse fmt now p sec) \<and> widened st (after parse fmt now p sec)"
proof -
  have "wf_map (pl_set p) \<and> pl_to p \<in> {caPhaseSteady, caPhasePublishing}
      \<and> (set (pl_del p) \<union> fst ` set (pl_set p)) \<inter> {secretKeyRotationPhase, secretKeyCACert} = {}"
    using assms(3) stray_deletes [of st]
    by (auto simp: planSteady_def secret_keys split: if_splits option.splits)
  moreover from this have "pl_to p \<in> set caPhases" by auto
  ultimately show ?thesis using cert_survives [of p parse fmt now sec] assms(1,2) by (auto simp: widened_def)
qed

lemma repair_transition:
  assumes "repairSince st = Some p" and "st = readCARotation parse sec" and "rs_phase st \<in> set caPhases"
  shows "\<not> phase_unknown (after parse fmt now p sec) \<and> kept st (after parse fmt now p sec)"
  using assms recorded [of p parse fmt now sec] by (auto simp: repairSince_def kept_def split: if_splits)

lemma scratch_transition:
  assumes "p = \<lparr>pl_to = caPhaseSteady, pl_keepSince = False, pl_set = [], pl_del = rotationScratchKeys, pl_consumeForce = False\<rparr>"
  shows "\<not> phase_unknown (after parse fmt now p sec) \<and> rs_phase (after parse fmt now p sec) = caPhaseSteady
    \<and> rs_certPEM (after parse fmt now p sec) = rs_certPEM (readCARotation parse sec)"
  using cert_survives [of p parse fmt now sec] assms by (simp add: rotationScratchKeys_def secret_keys)

lemma planPublishing_transition:
  assumes "rs_phase st = caPhasePublishing" and "st = readCARotation parse sec" and "planPublishing fmt st v = Some p"
  shows "\<not> phase_unknown (after parse fmt now p sec)
    \<and> (widened st (after parse fmt now p sec) \<or> kept st (after parse fmt now p sec) \<or> promoted parse fmt v st (after parse fmt now p sec))"
proof (cases "rs_nextCertPEM st = '''' \<or> rs_nextKeyPEM st = '''' \<or> repairSince st \<noteq> None")
  case True
  then show ?thesis
    using assms repair_transition [of st p parse sec fmt now] scratch_transition [of p parse fmt now sec]
    by (auto simp: planPublishing_def widened_def split: if_splits option.splits)
next
  case False
  then have p: "p = \<lparr>pl_to = caPhaseSigning, pl_keepSince = False,
                 pl_set = [(secretKeyCACert, rs_nextCertPEM st), (secretKeyCAKey, rs_nextKeyPEM st),
                   (secretKeyCAPrevCert, rs_certPEM st),
                   (secretKeyRotationRetireAfter, fmt (rv_now v + retirementHold (rv_cfg v)))],
                 pl_del = [secretKeyCANextCert, secretKeyCANextKey, secretKeyRotationHoldout], pl_consumeForce = False\<rparr>"
    using assms(3) by (auto simp: planPublishing_def split: if_splits)
  have wf: "wf_map (pl_set p)" by (simp add: p secret_keys)
  have "promoted parse fmt v st (after parse fmt now p sec) \<and> \<not> phase_unknown (after parse fmt now p sec)"
    unfolding promoted_def phase_unknown_def read_fields planned_data [OF wf]
    using assms(1) False by (simp add: p secret_keys)
  then show ?thesis by blast
qed

lemma planSigning_transition:
  assumes "rs_phase st = caPhaseSigning" and "st = readCARotation parse sec" and "planSigning fmt fingerprint st v = Some p"
  shows "\<not> phase_unknown (after parse fmt now p sec)
    \<and> (kept st (after parse fmt now p sec) \<or> retired v st (after parse fmt now p sec))"
proof (cases "rs_prevCertPEM st = '''' \<or> repairSince st \<noteq> None")
  case True
  then show ?thesis
    using assms repair_transition [of st p parse sec fmt now] scratch_transition [of p parse fmt now sec]
    by (auto simp: planSigning_def retired_def split: if_splits option.splits)
next
  case False
  let ?hold = "\<lparr>pl_to = caPhaseSigning, pl_keepSince = True, pl_set = [(secretKeyRotationHoldout, fmt (rv_now v))], pl_del = [], pl_consumeForce = False\<rparr>"
  let ?drop = "\<lparr>pl_to = caPhaseSteady, pl_keepSince = False, pl_set = [],
      pl_del = [secretKeyCAPrevCert, secretKeyRotationHoldout, secretKeyRotationRetireAfter], pl_consumeForce = False\<rparr>"
  have p: "p = ?hold \<or> p = ?drop \<and> rs_retireAfter st \<le> rv_now v \<and> rs_since st + retirementHold (rv_cfg v) \<le> rv_now v"
    using assms(3) False by (auto simp: planSigning_def Let_def split: if_splits)
  then show ?thesis
  proof
    assume "p = ?hold"
    then show ?thesis using assms(1,2) recorded [of p parse fmt now sec] by (simp add: kept_def secret_keys)
  next
    assume "p = ?drop \<and> rs_retireAfter st \<le> rv_now v \<and> rs_since st + retirementHold (rv_cfg v) \<le> rv_now v"
    then show ?thesis using assms(1,2) cert_survives [of p parse fmt now sec] by (simp add: retired_def secret_keys)
  qed
qed

lemma plan_transition:
  assumes "\<not> phase_unknown st" and "st = readCARotation parse sec" and "plan fmt fingerprint st v = Inr (Some p)"
  shows "\<not> phase_unknown (after parse fmt now p sec)
    \<and> (kept st (after parse fmt now p sec) \<or> widened st (after parse fmt now p sec)
       \<or> promoted parse fmt v st (after parse fmt now p sec) \<or> retired v st (after parse fmt now p sec))"
proof (cases "rs_force st \<noteq> '''' \<and> rs_phase st \<noteq> caPhaseSteady")
  case True
  then have "p = \<lparr>pl_to = rs_phase st, pl_keepSince = True, pl_set = [], pl_del = [], pl_consumeForce = True\<rparr>"
    using assms(1,3) by (simp add: plan_def)
  moreover have "rs_phase st \<in> set caPhases" using phase_cases [of parse sec] assms(1,2) by auto
  ultimately show ?thesis using assms(2) recorded [of p parse fmt now sec] by (simp add: kept_def)
next
  case False
  consider (steady) "rs_phase st = caPhaseSteady" | (publishing) "rs_phase st = caPhasePublishing" | (signing) "rs_phase st = caPhaseSigning"
    using phase_cases [of parse sec] assms(1,2) by blast
  then show ?thesis
  proof cases
    case steady
    then have "planSteady st v = Inr (Some p)" using assms(1,3) False by (simp add: plan_def)
    then show ?thesis using planSteady_transition [OF steady assms(2)] by blast
  next
    case publishing
    then have "planPublishing fmt st v = Some p" using assms(1,3) False by (simp add: plan_def)
    then show ?thesis using planPublishing_transition [OF publishing assms(2)] by blast
  next
    case signing
    then have "planSigning fmt fingerprint st v = Some p" using assms(1,3) False by (simp add: plan_def)
    then show ?thesis using planSigning_transition [OF signing assms(2)] by blast
  qed
qed

subsection \<open>Rotation of a fleet\<close>

text \<open>
  The Secret with what the fleet has in the field. \<open>fl_issued\<close> are the certificates ever issued: the root and the
  last instant at which the hub would still renew one. \<open>fl_until\<close> tells until when a former signer was the
  Secret's signer. A replica signs with the signer it last adopted, so for up to \<open>lag\<close> after a promotion
  certificates of the former one still appear; \<open>lag\<close> covers the poll and the update's own delay.
  A certificate is renewable for at most \<open>life\<close>.

  Every poll of every replica is one step: its update only succeeds on the very Secret it read, so
  losing replicas leave no trace. Their configurations may differ from poll to poll; only a poll that can promote
  must run under a lifetime and grace that cover \<open>life\<close>, and under a poll interval that covers \<open>lag\<close>.
\<close>

record fleet =
  fl_now :: gotime
  fl_secret :: Secret
  fl_issued :: "(string \<times> gotime) list"
  fl_until :: "(string \<times> gotime) list"

definition covers :: "duration \<Rightarrow> duration \<Rightarrow> rotation_config \<Rightarrow> bool" where
  "covers life lag cfg \<longleftrightarrow> life \<le> rg_SpokeCertTTL cfg + rg_RenewGrace cfg \<and> lag + Second \<le> 2 * rg_CARotationPollInterval cfg"

definition may_sign :: "(string \<Rightarrow> gotime option) \<Rightarrow> duration \<Rightarrow> fleet \<Rightarrow> string \<Rightarrow> bool" where
  "may_sign parse lag f issuer \<longleftrightarrow> issuer = rs_certPEM (readCARotation parse (fl_secret f))
     \<or> (\<exists>u. (issuer, u) \<in> set (fl_until f) \<and> fl_now f \<le> u + lag)"

definition write_plan :: "(string \<Rightarrow> gotime option) \<Rightarrow> (gotime \<Rightarrow> string) \<Rightarrow> caRotationPlan \<Rightarrow> fleet \<Rightarrow> fleet" where
  "write_plan parse fmt p f =
     f\<lparr>fl_secret := planned fmt (fl_now f) p (fl_secret f),
       fl_until := (rs_certPEM (readCARotation parse (fl_secret f)), fl_now f) # fl_until f\<rparr>"

inductive fleet_step for parse fmt fingerprint life lag where
  fleet_tick: "fl_now f \<le> t \<Longrightarrow> fleet_step parse fmt fingerprint life lag f (f\<lparr>fl_now := t\<rparr>)"
| fleet_issue: "may_sign parse lag f issuer \<Longrightarrow> d \<le> fl_now f + life \<Longrightarrow>
    fleet_step parse fmt fingerprint life lag f (f\<lparr>fl_issued := (issuer, d) # fl_issued f\<rparr>)"
| fleet_poll: "plan fmt fingerprint (readCARotation parse (fl_secret f)) v = Inr (Some p) \<Longrightarrow> rv_now v = fl_now f \<Longrightarrow>
    (rs_phase (readCARotation parse (fl_secret f)) = caPhasePublishing \<Longrightarrow> covers life lag (rv_cfg v)) \<Longrightarrow>
    fleet_step parse fmt fingerprint life lag f (write_plan parse fmt p f)"

text \<open>Times are written to the second, and read back.\<close>

definition second_clock :: "(string \<Rightarrow> gotime option) \<Rightarrow> (gotime \<Rightarrow> string) \<Rightarrow> bool" where
  "second_clock parse fmt \<longleftrightarrow> (\<forall>t \<ge> 0. parse (fmt t) = Some (t - t mod Second))"

text \<open>\<open>accounted st issuer passed deadline\<close>: the root is the signer, or its deadline has passed, or it is the outgoing
  root and the deadline lies before the horizon.\<close>

definition accounted :: "caRotationState \<Rightarrow> string \<Rightarrow> bool \<Rightarrow> gotime \<Rightarrow> bool" where
  "accounted st issuer passed deadline \<longleftrightarrow> issuer = rs_certPEM st \<or> passed
     \<or> rs_phase st = caPhaseSigning \<and> issuer = rs_prevCertPEM st \<and> deadline < rs_retireAfter st"

definition field_inv ::
    "duration \<Rightarrow> duration \<Rightarrow> gotime \<Rightarrow> caRotationState \<Rightarrow> (string \<times> gotime) list \<Rightarrow> (string \<times> gotime) list \<Rightarrow> bool" where
  "field_inv life lag now st issued until \<longleftrightarrow>
     0 \<le> now \<and> rs_certPEM st \<noteq> '''' \<and> \<not> phase_unknown st \<and> (rs_phase st = caPhaseSigning \<longrightarrow> rs_prevCertPEM st \<noteq> '''')
     \<and> (\<forall>(issuer, d) \<in> set issued. d \<le> now + life \<and> accounted st issuer (d \<le> now) d)
     \<and> (\<forall>(issuer, u) \<in> set until. u \<le> now \<and> accounted st issuer (u + lag < now) (u + lag + life))"

definition fleet_inv :: "(string \<Rightarrow> gotime option) \<Rightarrow> duration \<Rightarrow> duration \<Rightarrow> fleet \<Rightarrow> bool" where
  "fleet_inv parse life lag f = field_inv life lag (fl_now f) (readCARotation parse (fl_secret f)) (fl_issued f) (fl_until f)"

lemma horizon_covers:
  assumes "second_clock parse fmt" and "covers life lag cfg" and "0 \<le> now" "0 \<le> life" "0 \<le> lag"
  shows "\<exists>t. parse (fmt (now + retirementHold cfg)) = Some t \<and> now + lag + life < t"
proof -
  let ?x = "now + retirementHold cfg"
  have hold: "life + lag + Second \<le> retirementHold cfg" using assms(2) by (simp add: covers_def retirementHold_def)
  then have "0 \<le> ?x" using assms(3-5) by (simp add: go_defs)
  then have "parse (fmt ?x) = Some (?x - ?x mod Second)" using assms(1) by (simp add: second_clock_def)
  moreover have "?x mod Second < Second" by (simp add: go_defs)
  ultimately show ?thesis using hold by auto
qed

lemma field_tick:
  assumes "field_inv life lag now st issued until" and "now \<le> t"
  shows "field_inv life lag t st issued until"
  using assms by (fastforce simp: field_inv_def accounted_def)

lemma field_issue:
  assumes "field_inv life lag now st issued until" and "d \<le> now + life"
    and "issuer = rs_certPEM st \<or> (\<exists>u. (issuer, u) \<in> set until \<and> now \<le> u + lag)"
  shows "field_inv life lag now st ((issuer, d) # issued) until"
proof -
  have "accounted st issuer (d \<le> now) d"
    using assms(3)
  proof (elim disjE exE conjE)
    fix u assume "(issuer, u) \<in> set until" "now \<le> u + lag"
    then show ?thesis using assms(1,2) by (fastforce simp: field_inv_def accounted_def)
  qed (simp add: accounted_def)
  then show ?thesis using assms(1,2) by (simp add: field_inv_def)
qed

lemma field_still:
  assumes "field_inv life lag now st issued until" and "0 \<le> life" and "\<not> phase_unknown st'"
    and "kept st st' \<or> widened st st' \<or> retired v st st'" and "rv_now v = now"
  shows "field_inv life lag now st' issued ((rs_certPEM st, now) # until)"
proof -
  have cert: "rs_certPEM st' = rs_certPEM st" using assms(4) by (auto simp: transition_defs)
  have move: "accounted st' issuer (d \<le> now) d" if "accounted st issuer (d \<le> now) d" for issuer d
    using that assms(1,4,5) by (auto simp: accounted_def transition_defs field_inv_def)
  have stop: "accounted st' issuer (u + lag < now) (u + lag + life)" if "accounted st issuer (u + lag < now) (u + lag + life)" for issuer u
    using that assms(1,2,4,5) by (auto simp: accounted_def transition_defs field_inv_def)
  have "rs_phase st' = caPhaseSigning \<longrightarrow> rs_prevCertPEM st' \<noteq> ''''"
    using assms(1,4) by (auto simp: transition_defs field_inv_def)
  moreover have "accounted st' (rs_certPEM st) (now + lag < now) (now + lag + life)" by (simp add: accounted_def cert)
  ultimately show ?thesis using assms(1,3) cert move stop by (auto simp: field_inv_def)
qed

lemma field_promoted:
  assumes "field_inv life lag now st issued until" and "0 \<le> life" "0 \<le> lag" and "\<not> phase_unknown st'"
    and "promoted parse fmt v st st'" and "rv_now v = now" and "second_clock parse fmt" and "covers life lag (rv_cfg v)"
  shows "field_inv life lag now st' issued ((rs_certPEM st, now) # until)"
proof -
  have "0 \<le> now" using assms(1) by (simp add: field_inv_def)
  then have horizon: "now + lag + life < rs_retireAfter st'"
    using horizon_covers [OF assms(7,8) _ assms(2,3), of now] assms(5,6) by (auto simp: promoted_def)
  have move: "accounted st' issuer (d \<le> now) d" if "accounted st issuer (d \<le> now) d" "d \<le> now + life" for issuer d
    using that assms(3,5) horizon by (auto simp: accounted_def promoted_def)
  have stop: "accounted st' issuer (u + lag < now) (u + lag + life)"
    if "accounted st issuer (u + lag < now) (u + lag + life)" "u \<le> now" for issuer u
    using that assms(5) horizon by (auto simp: accounted_def promoted_def)
  have "accounted st' (rs_certPEM st) (now + lag < now) (now + lag + life)"
    using assms(5) horizon by (simp add: accounted_def promoted_def)
  then show ?thesis using assms(1,4,5) move stop by (auto simp: field_inv_def promoted_def)
qed

lemma fleet_step_inv:
  assumes "fleet_step parse fmt fingerprint life lag f f'" and "fleet_inv parse life lag f"
    and "second_clock parse fmt" and "0 \<le> life" and "0 \<le> lag"
  shows "fleet_inv parse life lag f'"
  using assms(1,2)
proof (induction rule: fleet_step.induct)
  case (fleet_tick f t)
  then show ?case by (simp add: fleet_inv_def field_tick)
next
  case (fleet_issue f issuer d)
  then show ?case by (simp add: fleet_inv_def may_sign_def field_issue)
next
  case (fleet_poll f v p)
  let ?st = "readCARotation parse (fl_secret f)"
  let ?st' = "after parse fmt (fl_now f) p (fl_secret f)"
  have inv: "field_inv life lag (fl_now f) ?st (fl_issued f) (fl_until f)" using fleet_poll(4) by (simp add: fleet_inv_def)
  then have "\<not> phase_unknown ?st" by (simp add: field_inv_def)
  from plan_transition [OF this refl fleet_poll(1), of "fl_now f"]
  have "field_inv life lag (fl_now f) ?st' (fl_issued f) ((rs_certPEM ?st, fl_now f) # fl_until f)"
    using field_still [OF inv assms(4), of ?st' v] field_promoted [OF inv assms(4,5), of ?st' parse fmt v] fleet_poll(2,3) assms(3)
    by (auto simp: promoted_def)
  then show ?case by (simp add: fleet_inv_def write_plan_def)
qed

text \<open>A hub that starts in the steady state, with nothing issued yet.\<close>

definition fresh_fleet :: "gotime \<Rightarrow> Secret \<Rightarrow> fleet" where
  "fresh_fleet now sec = \<lparr>fl_now = now, fl_secret = sec, fl_issued = [], fl_until = []\<rparr>"

text \<open>C12. Retiring a root strands nothing that could still come back. Over every interleaving of polls by replicas,
  issuing and the passing of time, a certificate that could still be renewed was issued by a root that the
  Secret's state trusts: the successor is trusted before it signs, promotion keeps both roots, and the outgoing
  one is dropped only when everything it issued, stragglers of slow replicas included, has run out. This
  holds though times are stored to the second and though lifetimes and grace are shortened after the promotion. A poll that promotes
  must run with a lifetime and a grace that cover those certificates were issued under, and a poll interval that covers the lag of signers.\<close>

theorem retirement_strands_nothing:
  assumes "second_clock parse fmt" and "0 \<le> life" and "0 \<le> lag" and "0 \<le> start"
    and "map_str (sec_Data sec) secretKeyCACert \<noteq> ''''" and "map_str (sec_Data sec) secretKeyRotationPhase \<in> {'''', caPhaseSteady}"
    and "(fleet_step parse fmt fingerprint life lag)\<^sup>*\<^sup>* (fresh_fleet start sec) f"
    and "(issuer, deadline) \<in> set (fl_issued f)" and "fl_now f < deadline"
  shows "issuer \<in> trusted (readCARotation parse (fl_secret f))"
proof -
  have "fleet_inv parse life lag (fresh_fleet start sec)"
    using assms(4-6) by (auto simp: fleet_inv_def field_inv_def fresh_fleet_def read_fields phase_unknown_def caPhases_def phase_defs)
  with assms(7) have "fleet_inv parse life lag f"
    by induction (auto intro: fleet_step_inv [OF _ _ assms(1-3)])
  then show ?thesis
    using assms(8,9) by (fastforce simp: fleet_inv_def field_inv_def accounted_def trusted_def extra_roots_def)
qed

subsection \<open>A rotation ends\<close>

lemma promotion_opens:
  assumes "\<not> phase_unknown st" and "rs_phase st = caPhasePublishing" and "rs_force st = ''''" and "rs_sinceOK st"
    and "rs_nextCertPEM st \<noteq> ''''" and "rs_nextKeyPEM st \<noteq> ''''"
    and "rs_since st + rg_SpokeCertTTL (rv_cfg v) \<le> rv_now v" and "in_int64 (rg_SpokeCertTTL (rv_cfg v))"
  shows "plan fmt fingerprint st v = Inr (Some \<lparr>pl_to = caPhaseSigning, pl_keepSince = False,
      pl_set = [(secretKeyCACert, rs_nextCertPEM st), (secretKeyCAKey, rs_nextKeyPEM st), (secretKeyCAPrevCert, rs_certPEM st),
        (secretKeyRotationRetireAfter, fmt (rv_now v + retirementHold (rv_cfg v)))],
      pl_del = [secretKeyCANextCert, secretKeyCANextKey, secretKeyRotationHoldout], pl_consumeForce = False\<rparr>)"
proof -
  have "\<not> time_Sub (rv_now v) (rs_since st) < rg_SpokeCertTTL (rv_cfg v)"
    using assms(7,8) by (auto simp: time_Sub_def in_int64_def)
  then show ?thesis using assms(1-6) by (simp add: plan_def planPublishing_def repairSince_def)
qed

lemma retirement_opens:
  assumes "\<not> phase_unknown st" and "rs_phase st = caPhaseSigning" and "rs_force st = ''''" and "rs_sinceOK st"
    and "rs_prevCertPEM st \<noteq> ''''" and "rs_lastHoldout st = 0" and "\<And>fp. rv_holdouts v fp \<le> 0"
    and "rs_since st + retirementHold (rv_cfg v) \<le> rv_now v" and "rs_retireAfter st \<le> rv_now v"
    and "rv_startedAt v + holdoutQuiet (rv_cfg v) \<le> rv_now v" and "in_int64 (holdoutQuiet (rv_cfg v))"
  shows "plan fmt fingerprint st v = Inr (Some \<lparr>pl_to = caPhaseSteady, pl_keepSince = False, pl_set = [],
      pl_del = [secretKeyCAPrevCert, secretKeyRotationHoldout, secretKeyRotationRetireAfter], pl_consumeForce = False\<rparr>)"
proof -
  have "\<not> time_Sub (rv_now v) (rv_startedAt v) < holdoutQuiet (rv_cfg v)"
    using assms(10,11) by (auto simp: time_Sub_def in_int64_def)
  moreover have "\<not> rv_holdouts v fp > 0" for fp using assms(7) [of fp] by simp
  ultimately show ?thesis using assms(1-6,8,9) by (simp add: plan_def planSigning_def repairSince_def Let_def)
qed

text \<open>C13. A rotation that is published comes to its end. Once a certificate lifetime has passed, the next poll
  promotes the successor; once the promoting replica's hold and the polling one's have passed as well, a poll that
  sees no session on the outgoing root, from a replica that has been up long enough, retires it. What
  remains is the steady state with the successor as the only root and nothing left over. No other
  condition enters: in particular not the lifetime under which the outgoing root's certificates were issued.\<close>

theorem rotation_completes:
  fixes sec :: Secret
  assumes "second_clock parse fmt" and "parse '''' = None" and "0 \<le> rv_now v1" and "rv_now v1 \<le> rv_now v2"
    and "st = readCARotation parse sec" and "rs_phase st = caPhasePublishing" and "rs_force st = ''''" and "rs_sinceOK st"
    and "rs_certPEM st \<noteq> ''''" and "rs_nextCertPEM st \<noteq> ''''" and "rs_nextKeyPEM st \<noteq> ''''"
    and "rs_since st + rg_SpokeCertTTL (rv_cfg v1) \<le> rv_now v1" and "in_int64 (rg_SpokeCertTTL (rv_cfg v1))"
    and "0 \<le> retirementHold (rv_cfg v1)"
    and "\<And>fp. rv_holdouts v2 fp \<le> 0" and "rv_startedAt v2 + holdoutQuiet (rv_cfg v2) \<le> rv_now v2" and "in_int64 (holdoutQuiet (rv_cfg v2))"
    and "rv_now v1 + retirementHold (rv_cfg v1) \<le> rv_now v2" and "rv_now v1 + retirementHold (rv_cfg v2) \<le> rv_now v2"
  shows "\<exists>p1 p2 sec1 sec2. plan fmt fingerprint st v1 = Inr (Some p1) \<and> sec1 = planned fmt (rv_now v1) p1 sec
    \<and> plan fmt fingerprint (readCARotation parse sec1) v2 = Inr (Some p2) \<and> sec2 = planned fmt (rv_now v2) p2 sec1
    \<and> rs_phase (readCARotation parse sec2) = caPhaseSteady \<and> trusted (readCARotation parse sec2) = {rs_nextCertPEM st}
    \<and> rs_keyPEM (readCARotation parse sec2) = rs_nextKeyPEM st \<and> strayRotationKeys (readCARotation parse sec2) = []"
proof -
  let ?p1 = "\<lparr>pl_to = caPhaseSigning, pl_keepSince = False,
      pl_set = [(secretKeyCACert, rs_nextCertPEM st), (secretKeyCAKey, rs_nextKeyPEM st), (secretKeyCAPrevCert, rs_certPEM st),
        (secretKeyRotationRetireAfter, fmt (rv_now v1 + retirementHold (rv_cfg v1)))],
      pl_del = [secretKeyCANextCert, secretKeyCANextKey, secretKeyRotationHoldout], pl_consumeForce = False\<rparr>"
  let ?p2 = "\<lparr>pl_to = caPhaseSteady, pl_keepSince = False, pl_set = [],
      pl_del = [secretKeyCAPrevCert, secretKeyRotationHoldout, secretKeyRotationRetireAfter], pl_consumeForce = False\<rparr>"
  let ?sec1 = "planned fmt (rv_now v1) ?p1 sec"
  let ?st1 = "readCARotation parse ?sec1"
  let ?sec2 = "planned fmt (rv_now v2) ?p2 ?sec1"
  have "\<not> phase_unknown st" using assms(5,6) by (auto simp: phase_unknown_def read_fields split: if_splits)
  then have p1: "plan fmt fingerprint st v1 = Inr (Some ?p1)" using assms(6-8,10-13) by (rule promotion_opens)
  have wf: "wf_map (pl_set ?p1)" "wf_map (pl_set ?p2)" by (simp_all add: secret_keys)
  note data1 = planned_data [OF wf(1), of fmt "rv_now v1" sec]
  have ann: "sec_Annotations ?sec1 = sec_Annotations sec" by (simp add: planned_def Let_def)
  have stamps: "parse (fmt (rv_now v1)) = Some (rv_now v1 - rv_now v1 mod Second)"
    "parse (fmt (rv_now v1 + retirementHold (rv_cfg v1))) = Some (rv_now v1 + retirementHold (rv_cfg v1) - (rv_now v1 + retirementHold (rv_cfg v1)) mod Second)"
    using assms(1,3,14) by (simp_all add: second_clock_def)
  have mods: "0 \<le> x mod Second" for x by (simp add: go_defs)
  have force: "map_str (sec_Annotations sec) annotationRotateNow = ''''" using assms(5,7) by (simp add: read_fields)
  have st1: "rs_phase ?st1 = caPhaseSigning" "\<not> phase_unknown ?st1" "rs_force ?st1 = ''''" "rs_sinceOK ?st1" "rs_prevCertPEM ?st1 \<noteq> ''''"
    "rs_lastHoldout ?st1 = 0" "rs_since ?st1 \<le> rv_now v1" "rs_retireAfter ?st1 \<le> rv_now v1 + retirementHold (rv_cfg v1)"
    using assms(2,9) stamps mods force unfolding read_fields phase_unknown_def data1 ann by (simp_all add: secret_keys)
  have p2: "plan fmt fingerprint ?st1 v2 = Inr (Some ?p2)"
    using st1 assms(15-19) by (intro retirement_opens) auto
  have "rs_phase (readCARotation parse ?sec2) = caPhaseSteady \<and> trusted (readCARotation parse ?sec2) = {rs_nextCertPEM st}
    \<and> rs_keyPEM (readCARotation parse ?sec2) = rs_nextKeyPEM st \<and> strayRotationKeys (readCARotation parse ?sec2) = []"
    unfolding trusted_def extra_roots_def phase_unknown_def strayRotationKeys_def read_fields planned_data [OF wf(2)] data1
    by (simp add: secret_keys)
  then show ?thesis using p1 p2 by blast
qed

subsection \<open>A rotation on a concrete clock\<close>

text \<open>A clock text with the one property the theorems ask of RFC 3339: whole seconds, in decimal.\<close>

definition stamp :: "gotime \<Rightarrow> string" where "stamp t = decimal (nat (t div Second))"

definition unstamp :: "string \<Rightarrow> gotime option" where
  "unstamp s = (if s = '''' then None else Some (int (digits_value s) * Second))"

lemma stamp_clock: "second_clock unstamp stamp"
proof -
  have "unstamp (stamp t) = Some (t - t mod Second)" if "0 \<le> t" for t
  proof -
    have "0 \<le> t div Second" using that by (simp add: go_defs pos_imp_zdiv_nonneg_iff)
    then show ?thesis using decimal_digits [of "nat (t div Second)"] by (simp add: stamp_def unstamp_def minus_mod_eq_div_mult [symmetric])
  qed
  then show ?thesis by (simp add: second_clock_def)
qed

definition example_secret :: Secret where
  "example_secret = \<lparr>sec_Data = [(secretKeyCACert, ''A''), (secretKeyCAKey, ''a'')], sec_Annotations = [(annotationRotateNow, ''leak'')]\<rparr>"

definition example_cfg :: rotation_config where
  "example_cfg = \<lparr>rg_SpokeCertTTL = 2 * Hour, rg_RenewGrace = Hour, rg_CARotationPollInterval = Minute, rg_CARotateAtRemainingFraction = 0\<rparr>"

definition example_poll :: "gotime \<Rightarrow> rotator_view" where
  "example_poll now = \<lparr>rv_cfg = example_cfg, rv_now = now, rv_startedAt = 0, rv_notBefore = 0, rv_notAfter = 1000 * Hour,
     rv_holdouts = (\<lambda>_. 0), rv_mint = Some (''B'', ''b'')\<rparr>"

definition example_plan :: caRotationPlan where
  "example_plan = \<lparr>pl_to = caPhasePublishing, pl_keepSince = False,
     pl_set = [(secretKeyCANextCert, ''B''), (secretKeyCANextKey, ''b'')], pl_del = [], pl_consumeForce = True\<rparr>"

definition example_issued :: fleet where
  "example_issued = (fresh_fleet 0 example_secret)\<lparr>fl_issued := [(''A'', Hour)]\<rparr>"

definition example_published :: fleet where
  "example_published = write_plan unstamp stamp example_plan example_issued"

lemma example_read:
  "rs_certPEM (readCARotation unstamp example_secret) = ''A''" "rs_force (readCARotation unstamp example_secret) = ''leak''"
  "rs_phase (readCARotation unstamp example_secret) = caPhaseSteady" "\<not> phase_unknown (readCARotation unstamp example_secret)"
  "strayRotationKeys (readCARotation unstamp example_secret) = []"
  by code_simp+

lemma rotation_run:
  "(fleet_step unstamp stamp (\<lambda>_. None) (3 * Hour) Minute)\<^sup>*\<^sup>* (fresh_fleet 0 example_secret) example_published"
proof -
  have "may_sign unstamp Minute (fresh_fleet 0 example_secret) ''A''" by (simp add: may_sign_def fresh_fleet_def example_read)
  then have "fleet_step unstamp stamp (\<lambda>_. None) (3 * Hour) Minute (fresh_fleet 0 example_secret) example_issued"
    using fleet_issue [of unstamp Minute "fresh_fleet 0 example_secret" "''A''" Hour "3 * Hour"]
    by (simp add: example_issued_def fresh_fleet_def go_defs)
  moreover have "plan stamp (\<lambda>_. None) (readCARotation unstamp (fl_secret example_issued)) (example_poll 0) = Inr (Some example_plan)"
    by (simp add: plan_def planSteady_def rotationDue_def example_issued_def fresh_fleet_def example_read example_poll_def example_plan_def)
  then have "fleet_step unstamp stamp (\<lambda>_. None) (3 * Hour) Minute example_issued example_published"
    unfolding example_published_def
    by (rule fleet_poll) (simp_all add: example_poll_def example_issued_def fresh_fleet_def example_read)
  ultimately show ?thesis by (meson r_into_rtranclp rtranclp.rtrancl_into_rtrancl)
qed

theorem retirement_strands_nothing_witness:
  "''A'' \<in> trusted (readCARotation unstamp (fl_secret example_published))"
proof -
  have "map_str (sec_Data example_secret) secretKeyCACert \<noteq> ''''" "map_str (sec_Data example_secret) secretKeyRotationPhase \<in> {'''', caPhaseSteady}"
    by code_simp+
  moreover have "(''A'', Hour) \<in> set (fl_issued example_published)" "fl_now example_published < Hour"
    by (simp_all add: example_published_def write_plan_def example_issued_def fresh_fleet_def go_defs)
  moreover have "(0 :: int) \<le> 3 * Hour" "0 \<le> Minute" by (simp_all add: go_defs)
  ultimately show ?thesis using retirement_strands_nothing [OF stamp_clock _ _ order_refl _ _ rotation_run] by blast
qed

theorem rotation_completes_witness:
  "\<exists>p1 p2. plan stamp (\<lambda>_. None) (readCARotation unstamp (fl_secret example_published)) (example_poll (2 * Hour)) = Inr (Some p1)
     \<and> trusted (readCARotation unstamp (planned stamp (6 * Hour) p2 (planned stamp (2 * Hour) p1 (fl_secret example_published)))) = {''B''}"
proof -
  have st: "rs_phase (readCARotation unstamp (fl_secret example_published)) = caPhasePublishing"
    "rs_force (readCARotation unstamp (fl_secret example_published)) = ''''"
    "rs_sinceOK (readCARotation unstamp (fl_secret example_published))" "rs_since (readCARotation unstamp (fl_secret example_published)) = 0"
    "rs_certPEM (readCARotation unstamp (fl_secret example_published)) \<noteq> ''''"
    "rs_nextCertPEM (readCARotation unstamp (fl_secret example_published)) = ''B''"
    "rs_nextKeyPEM (readCARotation unstamp (fl_secret example_published)) = ''b''"
    by code_simp+
  have "\<exists>p1 p2 sec1 sec2. plan stamp (\<lambda>_. None) (readCARotation unstamp (fl_secret example_published)) (example_poll (2 * Hour)) = Inr (Some p1)
    \<and> sec1 = planned stamp (rv_now (example_poll (2 * Hour))) p1 (fl_secret example_published)
    \<and> plan stamp (\<lambda>_. None) (readCARotation unstamp sec1) (example_poll (6 * Hour)) = Inr (Some p2)
    \<and> sec2 = planned stamp (rv_now (example_poll (6 * Hour))) p2 sec1
    \<and> rs_phase (readCARotation unstamp sec2) = caPhaseSteady
    \<and> trusted (readCARotation unstamp sec2) = {rs_nextCertPEM (readCARotation unstamp (fl_secret example_published))}
    \<and> rs_keyPEM (readCARotation unstamp sec2) = rs_nextKeyPEM (readCARotation unstamp (fl_secret example_published))
    \<and> strayRotationKeys (readCARotation unstamp sec2) = []"
    using st
    by (intro rotation_completes [OF stamp_clock])
      (simp_all add: unstamp_def example_poll_def example_cfg_def go_defs retirementHold_def holdoutQuiet_def)
  then show ?thesis unfolding st(6) by (simp add: example_poll_def) blast
qed

end
