(* ===== verification/Secretstore.thy ===== *)
theory Secretstore
  imports Store_State Go_Strings
begin

text \<open>
  The state document in a Kubernetes Secret: \<open>internal/store/secretstore/secretstore.go\<close> over the client of
  \<open>internal/kube/secret.go\<close>. Every mutation is a compare-and-swap on the Secret's resource version, tried
  again after a conflict.

  The API server is an argument, a record of the three requests the client makes over some state
  \<open>'s\<close>; what is relied on is the hypothesis \<open>api_laws\<close>. The JSON codec is an argument as in \<open>Store_State\<close>. What
  other replicas do to the server between two requests of a mutation is given by the functions of \<open>mutate_env\<close>, so
  a theorem about a mutation holds for every interleaving.
\<close>

subsection \<open>The client\<close>

record kubeSecret =
  ks_Name :: string
  ks_ResourceVersion :: string
  ks_Data :: "(string, string) gomap"
  ks_Labels :: labels
  ks_Annotations :: labels

datatype kube_error = KubeNotFound | KubeAlreadyExists | KubeConflict | KubeInvalid | KubeOther string

record 's api =
  api_get :: "'s \<Rightarrow> string \<Rightarrow> kube_error + kubeSecret"
  api_post :: "'s \<Rightarrow> kubeSecret \<Rightarrow> 's \<times> (kube_error + kubeSecret)"
  api_put :: "'s \<Rightarrow> kubeSecret \<Rightarrow> 's \<times> (kube_error + kubeSecret)"

text \<open>The DNS subdomain of \<open>nameRE\<close>: 1 to 253 of \<open>[a-z0-9.-]\<close>, a letter or digit at either end.\<close>

definition name_edge :: "char \<Rightarrow> bool" where
  "name_edge c \<longleftrightarrow> is_digit c \<or> (CHR ''a'' \<le> c \<and> c \<le> CHR ''z'')"

definition nameRE :: "string \<Rightarrow> bool" where
  "nameRE s \<longleftrightarrow> s \<noteq> '''' \<and> length s \<le> 253 \<and> name_edge (hd s) \<and> name_edge (last s)
     \<and> list_all (\<lambda>c. name_edge c \<or> c = CHR ''-'' \<or> c = CHR ''.'') s"

definition ValidateName :: "string \<Rightarrow> bool" where
  "ValidateName name = (if name = '''' then False else nameRE name)"

definition GetSecret :: "'s api \<Rightarrow> string \<Rightarrow> 's \<Rightarrow> kube_error + kubeSecret" where
  "GetSecret api name srv = (if \<not> ValidateName name then Inl KubeInvalid else api_get api srv name)"

definition CreateSecret :: "'s api \<Rightarrow> kubeSecret \<Rightarrow> 's \<Rightarrow> 's \<times> (kube_error + kubeSecret)" where
  "CreateSecret api sec srv =
     (if \<not> ValidateName (ks_Name sec) then (srv, Inl KubeInvalid) else api_post api srv (sec\<lparr>ks_ResourceVersion := ''''\<rparr>))"

definition UpdateSecret :: "'s api \<Rightarrow> kubeSecret \<Rightarrow> 's \<Rightarrow> 's \<times> (kube_error + kubeSecret)" where
  "UpdateSecret api sec srv =
     (if \<not> ValidateName (ks_Name sec) then (srv, Inl KubeInvalid)
      else if ks_ResourceVersion sec = '''' then (srv, Inl KubeInvalid)
      else api_put api srv sec)"

subsection \<open>The store\<close>

definition DefaultSecretName :: string where "DefaultSecretName = ''prometheus-mcp-fleet-state''"
definition DefaultKey :: string where "DefaultKey = ''state.json''"
definition DefaultCacheTTL_store :: duration where "DefaultCacheTTL_store = Second"
definition DefaultMaxAttempts :: int where "DefaultMaxAttempts = 5"
definition DefaultBackoff :: duration where "DefaultBackoff = 20 * Millisecond"
definition maxBackoff :: duration where "maxBackoff = 500 * Millisecond"
definition MaxStateBytes :: int where "MaxStateBytes = push_bit 10 700"

record store_options =
  so_SecretName :: string
  so_Key :: string
  so_Labels :: labels
  so_CacheTTL :: duration
  so_MaxAttempts :: int
  so_MaxBytes :: int
  so_Backoff :: duration

record SecretStore =
  ss_name :: string
  ss_key :: string
  ss_labels :: labels
  ss_ttl :: duration
  ss_maxAttempts :: int
  ss_maxBytes :: int
  ss_backoff :: duration
  ss_cached :: "kubeSecret option"
  ss_cachedAt :: gotime
  ss_size :: nat
  ss_closed :: bool

text \<open>\<open>Open\<close> with a client; \<open>None\<close> is one of its configuration errors.\<close>

definition Open :: "store_options \<Rightarrow> SecretStore option" where
  "Open opts =
     (let name = (if so_SecretName opts = '''' then DefaultSecretName else so_SecretName opts);
          key = (if so_Key opts = '''' then DefaultKey else so_Key opts);
          ttl = (if so_CacheTTL opts = 0 then DefaultCacheTTL_store else so_CacheTTL opts);
          attempts = (if so_MaxAttempts opts = 0 then DefaultMaxAttempts else so_MaxAttempts opts);
          maxBytes = (if so_MaxBytes opts = 0 then MaxStateBytes else so_MaxBytes opts);
          backoff = (if so_Backoff opts = 0 then DefaultBackoff else so_Backoff opts)
      in if \<not> ValidateName name then None
         else if attempts < 1 then None
         else Some \<lparr>ss_name = name, ss_key = key, ss_labels = so_Labels opts, ss_ttl = ttl, ss_maxAttempts = attempts,
                ss_maxBytes = maxBytes, ss_backoff = backoff, ss_cached = None, ss_cachedAt = 0, ss_size = 0, ss_closed = False\<rparr>)"

definition Close_store :: "SecretStore \<Rightarrow> SecretStore" where
  "Close_store st = st\<lparr>ss_closed := True, ss_cached := None\<rparr>"

definition cache :: "gotime \<Rightarrow> kubeSecret \<Rightarrow> SecretStore \<Rightarrow> SecretStore" where
  "cache now sec st = st\<lparr>ss_cached := Some sec, ss_cachedAt := now, ss_size := length (map_str (ks_Data sec) (ss_key st))\<rparr>"

definition invalidate :: "SecretStore \<Rightarrow> SecretStore" where
  "invalidate st = st\<lparr>ss_cached := None\<rparr>"

definition cachedSecret :: "gotime \<Rightarrow> SecretStore \<Rightarrow> kubeSecret option" where
  "cachedSecret now st =
     (case ss_cached st of
        None \<Rightarrow> None
      | Some sec \<Rightarrow> if ss_ttl st \<le> 0 \<or> time_Sub now (ss_cachedAt st) \<ge> ss_ttl st then None else Some sec)"

text \<open>\<open>initial\<close> is the encoding of the empty document, \<open>mid\<close> what others do between the read and the creation.\<close>

definition load ::
    "'s api \<Rightarrow> string \<Rightarrow> ('s \<Rightarrow> 's) \<Rightarrow> bool \<Rightarrow> gotime \<Rightarrow> SecretStore \<Rightarrow> 's \<Rightarrow> SecretStore \<times> 's \<times> (kube_error + kubeSecret)" where
  "load api initial mid fresh now st srv =
     (case (if fresh then None else cachedSecret now st) of
        Some sec \<Rightarrow> (st, srv, Inr sec)
      | None \<Rightarrow>
          (case GetSecret api (ss_name st) srv of
             Inr sec \<Rightarrow> (cache now sec st, srv, Inr sec)
           | Inl KubeNotFound \<Rightarrow>
               (case CreateSecret api \<lparr>ks_Name = ss_name st, ks_ResourceVersion = '''', ks_Data = [(ss_key st, initial)],
                       ks_Labels = ss_labels st, ks_Annotations = []\<rparr> (mid srv) of
                  (srv, Inr created) \<Rightarrow> (cache now created st, srv, Inr created)
                | (srv, Inl KubeAlreadyExists) \<Rightarrow>
                    (case GetSecret api (ss_name st) srv of
                       Inr sec \<Rightarrow> (cache now sec st, srv, Inr sec)
                     | Inl e \<Rightarrow> (st, srv, Inl e))
                | (srv, Inl e) \<Rightarrow> (st, srv, Inl e))
           | Inl e \<Rightarrow> (st, srv, Inl e)))"

record codec =
  cd_unmarshal :: "string \<Rightarrow> State option"
  cd_marshal :: "State \<Rightarrow> string"
  cd_migrations :: "int \<Rightarrow> migration option"

definition decode :: "codec \<Rightarrow> string \<Rightarrow> kubeSecret \<Rightarrow> store_error + State" where
  "decode cd key sec = Decode (cd_unmarshal cd) (cd_migrations cd) (map_str (ks_Data sec) key)"

definition empty_doc :: "codec \<Rightarrow> string" where
  "empty_doc cd = snd (Encode (cd_marshal cd) NewState)"

datatype store_failure = StoreErr store_error | KubeErr kube_error

definition read_doc ::
    "'s api \<Rightarrow> codec \<Rightarrow> ('s \<Rightarrow> 's) \<Rightarrow> store_error option \<Rightarrow> gotime \<Rightarrow> SecretStore \<Rightarrow> 's \<Rightarrow> SecretStore \<times> 's \<times> (store_failure + State)" where
  "read_doc api cd mid ctx now st srv =
     (case CheckContext ctx (ss_closed st) of
        Some e \<Rightarrow> (st, srv, Inl (StoreErr e))
      | None \<Rightarrow>
          (case load api (empty_doc cd) mid False now st srv of
             (st, srv, Inl e) \<Rightarrow> (st, srv, Inl (KubeErr e))
           | (st, srv, Inr sec) \<Rightarrow>
               (st, srv, case decode cd (ss_key st) sec of Inl e \<Rightarrow> Inl (StoreErr e) | Inr d \<Rightarrow> Inr d)))"

text \<open>
  Around the requests of attempt \<open>i\<close>: the clock at the load and inside the mutation, what other replicas do between the
  read and the creation, between the load and the update, and during the pause, and whether the context ends the
  pause.
\<close>

record 's mutate_env =
  me_loadAt :: "nat \<Rightarrow> gotime"
  me_opAt :: "nat \<Rightarrow> gotime"
  me_storedAt :: "nat \<Rightarrow> gotime"
  me_mid :: "nat \<Rightarrow> 's \<Rightarrow> 's"
  me_between :: "nat \<Rightarrow> 's \<Rightarrow> 's"
  me_during :: "nat \<Rightarrow> 's \<Rightarrow> 's"
  me_sleep :: "nat \<Rightarrow> store_error option"

text \<open>A mutation that returns nil stored a document or found that nothing had to change.\<close>

datatype mutate_result = Stored nat | NoChange nat | MutateErr store_failure

fun mutate_loop ::
    "'s api \<Rightarrow> codec \<Rightarrow> 's mutate_env \<Rightarrow> store_op \<Rightarrow> nat \<Rightarrow> nat \<Rightarrow> SecretStore \<Rightarrow> 's \<Rightarrow> SecretStore \<times> 's \<times> mutate_result" where
  "mutate_loop api cd env op 0 attempt st srv = (st, srv, MutateErr (KubeErr KubeConflict))"
| "mutate_loop api cd env op (Suc n) attempt st srv =
     (case load api (empty_doc cd) (me_mid env attempt) (attempt > 0) (me_loadAt env attempt) st srv of
        (st, srv, Inl e) \<Rightarrow> (st, srv, MutateErr (KubeErr e))
      | (st, srv, Inr sec) \<Rightarrow>
          (case decode cd (ss_key st) sec of
             Inl e \<Rightarrow> (st, srv, MutateErr (StoreErr e))
           | Inr d \<Rightarrow>
               (case apply_op (me_opAt env attempt) op d of
                  (_, Inl e) \<Rightarrow> (st, srv, MutateErr (StoreErr e))
                | (_, Inr False) \<Rightarrow> (st, srv, NoChange attempt)
                | (d', Inr True) \<Rightarrow>
                    (case snd (EncodeWithin (cd_marshal cd) (ss_maxBytes st) d') of
                       Inl e \<Rightarrow> (st, srv, MutateErr (StoreErr e))
                     | Inr encoded \<Rightarrow>
                         (case UpdateSecret api (sec\<lparr>ks_Data := AList.update (ss_key st) encoded (ks_Data sec)\<rparr>) (me_between env attempt srv) of
                            (srv, Inr updated) \<Rightarrow> (cache (me_storedAt env attempt) updated st, srv, Stored attempt)
                          | (srv, Inl KubeConflict) \<Rightarrow>
                              (case me_sleep env attempt of
                                 Some e \<Rightarrow> (invalidate st, me_during env attempt srv, MutateErr (StoreErr e))
                               | None \<Rightarrow> mutate_loop api cd env op n (Suc attempt) (invalidate st) (me_during env attempt srv))
                          | (srv, Inl e) \<Rightarrow> (st, srv, MutateErr (KubeErr e)))))))"

definition mutate ::
    "'s api \<Rightarrow> codec \<Rightarrow> 's mutate_env \<Rightarrow> store_error option \<Rightarrow> store_op \<Rightarrow> SecretStore \<Rightarrow> 's \<Rightarrow> SecretStore \<times> 's \<times> mutate_result" where
  "mutate api cd env ctx op st srv =
     (case CheckContext ctx (ss_closed st) of
        Some e \<Rightarrow> (st, srv, MutateErr (StoreErr e))
      | None \<Rightarrow> mutate_loop api cd env op (nat (ss_maxAttempts st)) 0 st srv)"

text \<open>\<open>jitter\<close> is a number of \<open>[0, 1)\<close>.\<close>

definition backoffFor :: "real \<Rightarrow> nat \<Rightarrow> SecretStore \<Rightarrow> duration" where
  "backoffFor jitter attempt st =
     (let d = wrap64 (push_bit attempt (ss_backoff st));
          d = (if d > maxBackoff \<or> d \<le> 0 then maxBackoff else d)
      in \<lfloor>jitter * real_of_int d\<rfloor>)"

subsection \<open>What is relied on\<close>

text \<open>
  \<open>held\<close> is the Secret of that name the server holds, \<open>seen\<close> whether it has ever held one. A write is accepted
  only on the version it names; a version stands for one content; a refusal leaves the Secret alone;
  any other failure may come before or after the write took effect.
\<close>

record 's server =
  sv_held :: "'s \<Rightarrow> kubeSecret option"
  sv_seen :: "'s \<Rightarrow> kubeSecret \<Rightarrow> bool"

definition put_applied :: "'s server \<Rightarrow> 's \<Rightarrow> kubeSecret \<Rightarrow> 's \<Rightarrow> kubeSecret \<Rightarrow> bool" where
  "put_applied sv srv x srv' y \<longleftrightarrow>
     (\<exists>x0. sv_held sv srv = Some x0 \<and> ks_ResourceVersion x0 = ks_ResourceVersion x) \<and> sv_held sv srv' = Some y \<and> ks_Data y = ks_Data x"

definition post_applied :: "'s server \<Rightarrow> 's \<Rightarrow> kubeSecret \<Rightarrow> 's \<Rightarrow> kubeSecret \<Rightarrow> bool" where
  "post_applied sv srv x srv' y \<longleftrightarrow> sv_held sv srv = None \<and> sv_held sv srv' = Some y \<and> ks_Data y = ks_Data x"

definition grows :: "'s server \<Rightarrow> 's \<Rightarrow> 's \<Rightarrow> bool" where
  "grows sv srv srv' \<longleftrightarrow> (\<forall>x. sv_seen sv srv x \<longrightarrow> sv_seen sv srv' x)"

definition api_laws :: "'s api \<Rightarrow> string \<Rightarrow> 's server \<Rightarrow> bool" where
  "api_laws api name sv \<longleftrightarrow>
     (\<forall>srv x. api_get api srv name = Inr x \<longrightarrow> sv_held sv srv = Some x)
     \<and> (\<forall>srv x. sv_held sv srv = Some x \<longrightarrow> sv_seen sv srv x)
     \<and> (\<forall>srv x. sv_seen sv srv x \<longrightarrow> ks_Name x = name)
     \<and> (\<forall>srv x x0. sv_seen sv srv x \<and> sv_held sv srv = Some x0 \<and> ks_ResourceVersion x0 = ks_ResourceVersion x \<longrightarrow> x0 = x)
     \<and> (\<forall>srv x srv' r. ks_Name x = name \<and> api_post api srv x = (srv', r) \<longrightarrow> grows sv srv srv'
          \<and> (case r of Inr y \<Rightarrow> post_applied sv srv x srv' y | Inl e \<Rightarrow> sv_held sv srv' = sv_held sv srv \<or> (\<exists>y. post_applied sv srv x srv' y)))
     \<and> (\<forall>srv x srv' r. ks_Name x = name \<and> api_put api srv x = (srv', r) \<longrightarrow> grows sv srv srv'
          \<and> (case r of Inr y \<Rightarrow> put_applied sv srv x srv' y
             | Inl e \<Rightarrow> srv' = srv \<or> e \<noteq> KubeConflict \<and> (\<exists>y. put_applied sv srv x srv' y)))"

text \<open>The document the server holds; a Secret that does not exist yet reads as the empty one.\<close>

definition doc_at :: "codec \<Rightarrow> string \<Rightarrow> 's server \<Rightarrow> 's \<Rightarrow> store_error + State" where
  "doc_at cd key sv srv = (case sv_held sv srv of None \<Rightarrow> Inr NewState | Some x \<Rightarrow> decode cd key x)"

text \<open>Documents that the mutation writes are read back as they were.\<close>

definition codec_faithful :: "codec \<Rightarrow> int \<Rightarrow> (nat \<Rightarrow> gotime) \<Rightarrow> store_op \<Rightarrow> bool" where
  "codec_faithful cd maxBytes clk op \<longleftrightarrow>
     Decode (cd_unmarshal cd) (cd_migrations cd) (empty_doc cd) = Inr NewState
     \<and> (\<forall>i x d d' b. Decode (cd_unmarshal cd) (cd_migrations cd) x = Inr d \<longrightarrow> apply_op (clk i) op d = (d', Inr True)
          \<longrightarrow> snd (EncodeWithin (cd_marshal cd) maxBytes d') = Inr b \<longrightarrow> Decode (cd_unmarshal cd) (cd_migrations cd) b = Inr d')"

text \<open>The steps of other replicas, and steps of this one that leave the document as it is.\<close>

inductive others :: "codec \<Rightarrow> string \<Rightarrow> 's server \<Rightarrow> 's mutate_env \<Rightarrow> 's \<Rightarrow> 's \<Rightarrow> bool" for cd key sv env where
  others_mid: "others cd key sv env s (me_mid env i s)"
| others_between: "others cd key sv env s (me_between env i s)"
| others_during: "others cd key sv env s (me_during env i s)"
| others_same: "doc_at cd key sv s' = doc_at cd key sv s \<Longrightarrow> grows sv s s' \<Longrightarrow> others cd key sv env s s'"

definition env_grows :: "'s server \<Rightarrow> 's mutate_env \<Rightarrow> bool" where
  "env_grows sv env \<longleftrightarrow> (\<forall>i s. grows sv s (me_mid env i s) \<and> grows sv s (me_between env i s) \<and> grows sv s (me_during env i s))"

definition cache_ok :: "'s server \<Rightarrow> SecretStore \<Rightarrow> 's \<Rightarrow> bool" where
  "cache_ok sv st srv \<longleftrightarrow> (case ss_cached st of None \<Rightarrow> True | Some x \<Rightarrow> sv_seen sv srv x)"

definition same_store :: "SecretStore \<Rightarrow> SecretStore \<Rightarrow> bool" where
  "same_store st st' \<longleftrightarrow> ss_name st' = ss_name st \<and> ss_key st' = ss_key st \<and> ss_maxBytes st' = ss_maxBytes st"

lemma grows_refl [simp]: "grows sv s s"
  by (simp add: grows_def)

lemma grows_trans: "grows sv s s' \<Longrightarrow> grows sv s' s'' \<Longrightarrow> grows sv s s''"
  by (simp add: grows_def)

lemma api_lawsD:
  assumes "api_laws api name sv"
  shows "api_get api srv name = Inr x \<Longrightarrow> sv_held sv srv = Some x" "sv_held sv srv = Some x \<Longrightarrow> sv_seen sv srv x"
    "sv_seen sv srv x \<Longrightarrow> ks_Name x = name"
    "sv_seen sv srv x \<Longrightarrow> sv_held sv srv = Some x0 \<Longrightarrow> ks_ResourceVersion x0 = ks_ResourceVersion x \<Longrightarrow> x0 = x"
    "ks_Name x = name \<Longrightarrow> api_post api srv x = (srv', r) \<Longrightarrow> grows sv srv srv'
      \<and> (case r of Inr y \<Rightarrow> post_applied sv srv x srv' y | Inl e \<Rightarrow> sv_held sv srv' = sv_held sv srv \<or> (\<exists>y. post_applied sv srv x srv' y))"
    "ks_Name x = name \<Longrightarrow> api_put api srv x = (srv', r) \<Longrightarrow> grows sv srv srv'
      \<and> (case r of Inr y \<Rightarrow> put_applied sv srv x srv' y | Inl e \<Rightarrow> srv' = srv \<or> e \<noteq> KubeConflict \<and> (\<exists>y. put_applied sv srv x srv' y))"
  using assms unfolding api_laws_def by blast+

lemma GetSecret_seen:
  assumes "api_laws api name sv" and "GetSecret api name srv = Inr x" shows "sv_seen sv srv x"
  using assms api_lawsD(1,2) [OF assms(1)] by (auto simp: GetSecret_def split: if_splits)

lemma create_keeps_doc:
  assumes "api_laws api name sv" and "ks_Name x = name" and "map_str (ks_Data x) key = empty_doc cd" and "CreateSecret api x srv = (srv', r)"
    and "Decode (cd_unmarshal cd) (cd_migrations cd) (empty_doc cd) = Inr NewState"
  shows "doc_at cd key sv srv' = doc_at cd key sv srv \<and> grows sv srv srv' \<and> (\<forall>y. r = Inr y \<longrightarrow> sv_seen sv srv' y)"
proof (cases "ValidateName (ks_Name x)")
  case True
  then have post: "api_post api srv (x\<lparr>ks_ResourceVersion := ''''\<rparr>) = (srv', r)" using assms(4) by (simp add: CreateSecret_def)
  have applied: "doc_at cd key sv srv' = doc_at cd key sv srv \<and> sv_seen sv srv' y"
    if "post_applied sv srv (x\<lparr>ks_ResourceVersion := ''''\<rparr>) srv' y" for y
    using that assms(3,5) api_lawsD(2) [OF assms(1)] by (simp add: post_applied_def doc_at_def decode_def)
  show ?thesis
    using api_lawsD(5) [OF assms(1) _ post] applied assms(2) by (cases r) (auto simp: doc_at_def)
next
  case False
  then show ?thesis using assms(4) by (auto simp: CreateSecret_def)
qed

lemma cache_ok_grows: "cache_ok sv st srv \<Longrightarrow> grows sv srv srv' \<Longrightarrow> cache_ok sv st srv'"
  by (auto simp: cache_ok_def grows_def split: option.splits)

lemma cache_ok_cache [simp]: "cache_ok sv (cache now x st) srv \<longleftrightarrow> sv_seen sv srv x"
  by (simp add: cache_ok_def cache_def)

lemma same_store_simps [simp]: "same_store st st" "same_store st (cache now x st') \<longleftrightarrow> same_store st st'" "same_store st (invalidate st') \<longleftrightarrow> same_store st st'"
  by (simp_all add: same_store_def cache_def invalidate_def)

definition apart :: "codec \<Rightarrow> string \<Rightarrow> 's server \<Rightarrow> 's mutate_env \<Rightarrow> 's \<Rightarrow> 's \<Rightarrow> bool" where
  "apart cd key sv env s s' \<longleftrightarrow> (others cd key sv env)\<^sup>*\<^sup>* s s' \<and> grows sv s s'"

lemma apart_refl [simp]: "apart cd key sv env s s"
  by (simp add: apart_def)

lemma apart_trans: "apart cd key sv env s s' \<Longrightarrow> apart cd key sv env s' s'' \<Longrightarrow> apart cd key sv env s s''"
  by (auto simp: apart_def intro: grows_trans)

lemma apart_env:
  assumes "env_grows sv env"
  shows "apart cd key sv env s (me_mid env i s)" "apart cd key sv env s (me_between env i s)" "apart cd key sv env s (me_during env i s)"
  using assms by (auto simp: apart_def env_grows_def intro: others.intros)

lemma apart_same: "doc_at cd key sv s' = doc_at cd key sv s \<Longrightarrow> grows sv s s' \<Longrightarrow> apart cd key sv env s s'"
  by (auto simp: apart_def intro: others_same)

lemma load_apart:
  assumes laws: "api_laws api (ss_name st) sv" and env: "env_grows sv env" and ok: "cache_ok sv st srv"
    and init: "Decode (cd_unmarshal cd) (cd_migrations cd) (empty_doc cd) = Inr NewState"
    and ld: "load api (empty_doc cd) (me_mid env i) fresh now st srv = (st', srv', r)"
  shows "apart cd (ss_key st) sv env srv srv' \<and> same_store st st' \<and> cache_ok sv st' srv' \<and> (\<forall>x. r = Inr x \<longrightarrow> sv_seen sv srv' x)"
proof -
  let ?new = "\<lparr>ks_Name = ss_name st, ks_ResourceVersion = '''', ks_Data = [(ss_key st, empty_doc cd)], ks_Labels = ss_labels st, ks_Annotations = []\<rparr>"
  let ?mid = "me_mid env i srv"
  show ?thesis
  proof (cases "if fresh then None else cachedSecret now st")
    case (Some x)
    then have "r = Inr x" "st' = st" "srv' = srv" using ld by (auto simp: load_def)
    moreover have "sv_seen sv srv x" using Some ok by (auto simp: cachedSecret_def cache_ok_def split: if_splits option.splits)
    ultimately show ?thesis using ok by simp
  next
    case None
    obtain s1 r1 where post: "CreateSecret api ?new ?mid = (s1, r1)" by (cases "CreateSecret api ?new ?mid")
    have made: "doc_at cd (ss_key st) sv s1 = doc_at cd (ss_key st) sv ?mid \<and> grows sv ?mid s1 \<and> (\<forall>y. r1 = Inr y \<longrightarrow> sv_seen sv s1 y)"
      using create_keeps_doc [OF laws _ _ post init, of "ss_key st"] by (simp add: map_str_def)
    have far: "apart cd (ss_key st) sv env srv s1"
      using apart_trans [OF apart_env(1) [OF env, of cd "ss_key st" srv i] apart_same] made by blast
    then have ok1: "cache_ok sv st s1" using cache_ok_grows [OF ok] by (simp add: apart_def)
    show ?thesis
    proof (cases "GetSecret api (ss_name st) srv")
      case (Inr x)
      then show ?thesis using ld None GetSecret_seen [OF laws Inr] by (auto simp: load_def)
    next
      case (Inl e)
      show ?thesis
      proof (cases "e = KubeNotFound")
        case True
        then have "(st', srv', r) = (case r1 of Inr created \<Rightarrow> (cache now created st, s1, Inr created)
            | Inl KubeAlreadyExists \<Rightarrow> (case GetSecret api (ss_name st) s1 of Inr sec \<Rightarrow> (cache now sec st, s1, Inr sec) | Inl e \<Rightarrow> (st, s1, Inl e))
            | Inl e \<Rightarrow> (st, s1, Inl e))"
          using ld None Inl post by (auto simp: load_def split: sum.splits kube_error.splits)
        then show ?thesis using far made ok1 GetSecret_seen [OF laws, of s1]
          by (auto split: sum.splits kube_error.splits)
      next
        case False
        then show ?thesis using ld None Inl ok by (auto simp: load_def split: kube_error.splits)
      qed
    qed
  qed
qed

text \<open>What a mutation amounts to: the document moves by the steps of others, and then perhaps by one application of the operation.\<close>

definition applied_at :: "codec \<Rightarrow> string \<Rightarrow> 's server \<Rightarrow> store_op \<Rightarrow> gotime \<Rightarrow> 's \<Rightarrow> 's \<Rightarrow> bool" where
  "applied_at cd key sv op now s s' \<longleftrightarrow>
     (\<exists>d d'. doc_at cd key sv s = Inr d \<and> apply_op now op d = (d', Inr True) \<and> doc_at cd key sv s' = Inr d')"

definition decided_on :: "codec \<Rightarrow> string \<Rightarrow> 's server \<Rightarrow> 's \<Rightarrow> (State \<Rightarrow> bool) \<Rightarrow> bool" where
  "decided_on cd key sv s P \<longleftrightarrow> (\<exists>x d. sv_seen sv s x \<and> decode cd key x = Inr d \<and> P d)"

definition outcome :: "codec \<Rightarrow> string \<Rightarrow> 's server \<Rightarrow> 's mutate_env \<Rightarrow> store_op \<Rightarrow> 's \<Rightarrow> 's \<Rightarrow> mutate_result \<Rightarrow> bool" where
  "outcome cd key sv env op s s' r \<longleftrightarrow>
     (case r of
        Stored i \<Rightarrow> applied_at cd key sv op (me_opAt env i) s s'
      | NoChange i \<Rightarrow> s' = s \<and> decided_on cd key sv s (\<lambda>d. snd (apply_op (me_opAt env i) op d) = Inr False)
      | MutateErr (KubeErr e) \<Rightarrow> s' = s \<or> e \<noteq> KubeConflict \<and> (\<exists>i. applied_at cd key sv op (me_opAt env i) s s')
      | MutateErr (StoreErr e) \<Rightarrow> s' = s)"

lemma update_applies:
  assumes laws: "api_laws api name sv" and seen: "sv_seen sv srv x" and dec: "decode cd key x = Inr d"
    and op: "apply_op now op d = (d', Inr True)" and round: "Decode (cd_unmarshal cd) (cd_migrations cd) b = Inr d'"
    and upd: "UpdateSecret api (x\<lparr>ks_Data := AList.update key b (ks_Data x)\<rparr>) srv = (srv', r)"
  shows "grows sv srv srv' \<and>
    (case r of Inr y \<Rightarrow> applied_at cd key sv op now srv srv' \<and> sv_seen sv srv' y
     | Inl e \<Rightarrow> srv' = srv \<or> e \<noteq> KubeConflict \<and> applied_at cd key sv op now srv srv')"
proof (cases "ValidateName (ks_Name x) \<and> ks_ResourceVersion x \<noteq> ''''")
  case True
  let ?x = "x\<lparr>ks_Data := AList.update key b (ks_Data x)\<rparr>"
  have put: "api_put api srv ?x = (srv', r)" using True upd by (simp add: UpdateSecret_def)
  have applied: "applied_at cd key sv op now srv srv' \<and> sv_seen sv srv' y" if p: "put_applied sv srv ?x srv' y" for y
  proof -
    obtain x0 where x0: "sv_held sv srv = Some x0" "ks_ResourceVersion x0 = ks_ResourceVersion x" and y: "sv_held sv srv' = Some y" "ks_Data y = ks_Data ?x"
      using p by (auto simp: put_applied_def)
    have "x0 = x" using api_lawsD(4) [OF laws seen x0] .
    then have "doc_at cd key sv srv = Inr d" "doc_at cd key sv srv' = Inr d'"
      using x0(1) y dec round by (simp_all add: doc_at_def decode_def map_str_def)
    then show ?thesis using op api_lawsD(2) [OF laws y(1)] by (auto simp: applied_at_def)
  qed
  have "ks_Name ?x = name" using api_lawsD(3) [OF laws seen] by simp
  from api_lawsD(6) [OF laws this put] show ?thesis using applied by (cases r) auto
next
  case False
  then show ?thesis using upd by (auto simp: UpdateSecret_def split: if_splits)
qed

lemma codec_faithfulD:
  assumes "codec_faithful cd maxBytes clk op" and "decode cd key x = Inr d" and "apply_op (clk i) op d = (d', Inr True)"
    and "snd (EncodeWithin (cd_marshal cd) maxBytes d') = Inr b"
  shows "Decode (cd_unmarshal cd) (cd_migrations cd) b = Inr d'"
  using assms unfolding codec_faithful_def decode_def by metis

definition finished ::
    "codec \<Rightarrow> 's server \<Rightarrow> 's mutate_env \<Rightarrow> store_op \<Rightarrow> SecretStore \<Rightarrow> 's \<Rightarrow> SecretStore \<times> 's \<times> mutate_result \<Rightarrow> bool" where
  "finished cd sv env op st srv res \<longleftrightarrow>
     (case res of (st', srv', r) \<Rightarrow>
        \<exists>s. apart cd (ss_key st) sv env srv s \<and> outcome cd (ss_key st) sv env op s srv' r \<and> same_store st st' \<and> cache_ok sv st' srv')"

lemma finished_apart:
  assumes "finished cd sv env op st1 srv1 res" and "apart cd (ss_key st) sv env srv srv1" and "same_store st st1"
  shows "finished cd sv env op st srv res"
proof -
  obtain st' srv' r s where res: "res = (st', srv', r)" and s: "apart cd (ss_key st) sv env srv1 s" "outcome cd (ss_key st) sv env op s srv' r"
    "same_store st1 st'" "cache_ok sv st' srv'"
    using assms(1,3) by (cases res) (auto simp: finished_def same_store_def)
  have "same_store st st'" using s(3) assms(3) by (simp add: same_store_def)
  then show ?thesis unfolding finished_def res using apart_trans [OF assms(2) s(1)] s(2,4) by auto
qed

text \<open>The end of an attempt, from the loaded Secret on.\<close>

definition try_update ::
    "'s api \<Rightarrow> codec \<Rightarrow> 's mutate_env \<Rightarrow> store_op \<Rightarrow> nat \<Rightarrow> nat \<Rightarrow> SecretStore \<Rightarrow> kubeSecret \<Rightarrow> string \<Rightarrow> 's \<Rightarrow> SecretStore \<times> 's \<times> mutate_result" where
  "try_update api cd env op n k st sec encoded srv =
     (case UpdateSecret api (sec\<lparr>ks_Data := AList.update (ss_key st) encoded (ks_Data sec)\<rparr>) (me_between env k srv) of
        (srv, Inr updated) \<Rightarrow> (cache (me_storedAt env k) updated st, srv, Stored k)
      | (srv, Inl KubeConflict) \<Rightarrow>
          (case me_sleep env k of
             Some e \<Rightarrow> (invalidate st, me_during env k srv, MutateErr (StoreErr e))
           | None \<Rightarrow> mutate_loop api cd env op n (Suc k) (invalidate st) (me_during env k srv))
      | (srv, Inl e) \<Rightarrow> (st, srv, MutateErr (KubeErr e)))"

lemma try_update_finishes:
  assumes laws: "api_laws api (ss_name st) sv" and env: "env_grows sv env" and ok: "cache_ok sv st srv" and seen: "sv_seen sv srv sec"
    and dec: "decode cd (ss_key st) sec = Inr d" and ap: "apply_op (me_opAt env k) op d = (d', Inr True)"
    and round: "Decode (cd_unmarshal cd) (cd_migrations cd) b = Inr d'"
    and again: "\<And>s. finished cd sv env op (invalidate st) s (mutate_loop api cd env op n (Suc k) (invalidate st) s)"
  shows "finished cd sv env op st srv (try_update api cd env op n k st sec b srv)"
proof -
  let ?btw = "me_between env k srv"
  obtain srv2 r2 where upd: "UpdateSecret api (sec\<lparr>ks_Data := AList.update (ss_key st) b (ks_Data sec)\<rparr>) ?btw = (srv2, r2)"
    by (cases "UpdateSecret api (sec\<lparr>ks_Data := AList.update (ss_key st) b (ks_Data sec)\<rparr>) ?btw")
  have far: "apart cd (ss_key st) sv env srv ?btw" using apart_env(2) [OF env] .
  have grown: "grows sv srv ?btw" using far by (simp add: apart_def)
  then have "sv_seen sv ?btw sec" using seen by (simp add: grows_def)
  note u = update_applies [OF laws this dec ap round upd]
  have ok2: "cache_ok sv st srv2" using cache_ok_grows [OF ok grows_trans [OF grown]] u by blast
  show ?thesis
  proof (cases "r2 = Inl KubeConflict")
    case True
    then have same: "srv2 = ?btw" using u by simp
    let ?dur = "me_during env k srv2"
    have far': "apart cd (ss_key st) sv env srv ?dur" using apart_trans [OF far [folded same] apart_env(3) [OF env]] .
    have "finished cd sv env op st srv (invalidate st, ?dur, MutateErr (StoreErr e))" for e
      unfolding finished_def using far' by (auto simp: outcome_def cache_ok_def invalidate_def same_store_def)
    then show ?thesis using finished_apart [OF again [of ?dur] far'] True upd
      by (simp add: try_update_def split: option.splits)
  next
    case False
    then have "try_update api cd env op n k st sec b srv =
        (case r2 of Inr y \<Rightarrow> (cache (me_storedAt env k) y st, srv2, Stored k) | Inl e \<Rightarrow> (st, srv2, MutateErr (KubeErr e)))"
      using upd by (auto simp: try_update_def split: sum.splits kube_error.splits)
    then show ?thesis unfolding finished_def using u far ok2 by (cases r2) (auto simp: outcome_def intro!: exI [of _ ?btw])
  qed
qed

definition try_apply ::
    "'s api \<Rightarrow> codec \<Rightarrow> 's mutate_env \<Rightarrow> store_op \<Rightarrow> nat \<Rightarrow> nat \<Rightarrow> SecretStore \<Rightarrow> kubeSecret \<Rightarrow> 's \<Rightarrow> SecretStore \<times> 's \<times> mutate_result" where
  "try_apply api cd env op n k st sec srv =
     (case decode cd (ss_key st) sec of
        Inl e \<Rightarrow> (st, srv, MutateErr (StoreErr e))
      | Inr d \<Rightarrow>
          (case apply_op (me_opAt env k) op d of
             (_, Inl e) \<Rightarrow> (st, srv, MutateErr (StoreErr e))
           | (_, Inr False) \<Rightarrow> (st, srv, NoChange k)
           | (d', Inr True) \<Rightarrow>
               (case snd (EncodeWithin (cd_marshal cd) (ss_maxBytes st) d') of
                  Inl e \<Rightarrow> (st, srv, MutateErr (StoreErr e))
                | Inr encoded \<Rightarrow> try_update api cd env op n k st sec encoded srv)))"

lemma mutate_loop_Suc:
  "mutate_loop api cd env op (Suc n) k st srv =
     (case load api (empty_doc cd) (me_mid env k) (k > 0) (me_loadAt env k) st srv of
        (st, srv, Inl e) \<Rightarrow> (st, srv, MutateErr (KubeErr e))
      | (st, srv, Inr sec) \<Rightarrow> try_apply api cd env op n k st sec srv)"
  unfolding mutate_loop.simps try_apply_def try_update_def ..

lemma finished_here:
  assumes "outcome cd (ss_key st) sv env op srv srv r" and "cache_ok sv st srv"
  shows "finished cd sv env op st srv (st, srv, r)"
  unfolding finished_def using assms by (auto intro!: exI [of _ srv])

lemma try_apply_finishes:
  assumes laws: "api_laws api (ss_name st) sv" and env: "env_grows sv env" and ok: "cache_ok sv st srv" and seen: "sv_seen sv srv sec"
    and faithful: "codec_faithful cd (ss_maxBytes st) (me_opAt env) op"
    and again: "\<And>s. finished cd sv env op (invalidate st) s (mutate_loop api cd env op n (Suc k) (invalidate st) s)"
  shows "finished cd sv env op st srv (try_apply api cd env op n k st sec srv)"
proof (cases "decode cd (ss_key st) sec")
  case (Inl e)
  then show ?thesis using ok by (auto simp: try_apply_def outcome_def intro: finished_here)
next
  case dec: (Inr d)
  obtain d' q where ap: "apply_op (me_opAt env k) op d = (d', q)" by (cases "apply_op (me_opAt env k) op d")
  consider (err) e where "q = Inl e" | (unchanged) "q = Inr False" | (changed) "q = Inr True" by (cases q) auto
  then show ?thesis
  proof cases
    case err
    then show ?thesis using dec ap ok by (auto simp: try_apply_def outcome_def intro: finished_here)
  next
    case unchanged
    then have "decided_on cd (ss_key st) sv srv (\<lambda>d. snd (apply_op (me_opAt env k) op d) = Inr False)"
      using seen dec ap by (auto simp: decided_on_def)
    then show ?thesis using dec ap unchanged ok by (auto simp: try_apply_def outcome_def intro: finished_here)
  next
    case changed
    show ?thesis
    proof (cases "snd (EncodeWithin (cd_marshal cd) (ss_maxBytes st) d')")
      case (Inl e)
      then show ?thesis using dec ap changed ok by (auto simp: try_apply_def outcome_def intro: finished_here)
    next
      case (Inr b)
      then have "finished cd sv env op st srv (try_update api cd env op n k st sec b srv)"
        using ap changed codec_faithfulD [OF faithful dec _ Inr] by (intro try_update_finishes [OF laws env ok seen dec _ _ again]) auto
      then show ?thesis using dec ap changed Inr by (simp add: try_apply_def)
    qed
  qed
qed

lemma mutate_loop_finishes:
  assumes "api_laws api (ss_name st) sv" and "env_grows sv env" and "cache_ok sv st srv"
    and "codec_faithful cd (ss_maxBytes st) (me_opAt env) op"
  shows "finished cd sv env op st srv (mutate_loop api cd env op n k st srv)"
  using assms
proof (induction n arbitrary: k st srv)
  case 0
  then show ?case by (auto simp: outcome_def intro: finished_here)
next
  case (Suc n)
  have init: "Decode (cd_unmarshal cd) (cd_migrations cd) (empty_doc cd) = Inr NewState" using Suc.prems(4) by (simp add: codec_faithful_def)
  obtain st1 srv1 r1 where ld: "load api (empty_doc cd) (me_mid env k) (k > 0) (me_loadAt env k) st srv = (st1, srv1, r1)"
    by (metis prod_cases3)
  note l = load_apart [OF Suc.prems(1-3) init ld]
  then have key: "ss_maxBytes st1 = ss_maxBytes st" "ss_name st1 = ss_name st" by (auto simp: same_store_def)
  have again: "finished cd sv env op (invalidate st1) s (mutate_loop api cd env op n (Suc k) (invalidate st1) s)" for s
    using Suc.prems key by (intro Suc.IH) (simp_all add: invalidate_def cache_ok_def)
  have "finished cd sv env op st1 srv1 (mutate_loop api cd env op (Suc n) k st srv)"
  proof (cases r1)
    case (Inl e)
    then have "mutate_loop api cd env op (Suc n) k st srv = (st1, srv1, MutateErr (KubeErr e))" using ld by simp
    moreover have "finished cd sv env op st1 srv1 (st1, srv1, MutateErr (KubeErr e))" using l by (intro finished_here) (simp_all add: outcome_def)
    ultimately show ?thesis by simp
  next
    case (Inr sec)
    then have "mutate_loop api cd env op (Suc n) k st srv = try_apply api cd env op n k st1 sec srv1" unfolding mutate_loop_Suc using ld by simp
    moreover have "finished cd sv env op st1 srv1 (try_apply api cd env op n k st1 sec srv1)"
      using Inr l Suc.prems key by (intro try_apply_finishes again) simp_all
    ultimately show ?thesis by simp
  qed
  then show ?case using l finished_apart by metis
qed

text \<open>C14. A mutation is a compare-and-swap on the document. Whatever other replicas do between its requests, and however
  stale its cache is, a mutation that reports success changed the document the server then held by exactly one
  application of its operation, or left it alone because a document the server has held called for no change; one
  that fails left the document alone, unless the API server failed in a way that leaves the write in doubt. So no
  update of another replica is ever lost.\<close>

theorem mutate_is_atomic:
  assumes "api_laws api (ss_name st) sv" and "env_grows sv env" and "cache_ok sv st srv"
    and "codec_faithful cd (ss_maxBytes st) (me_opAt env) op"
    and "mutate api cd env ctx op st srv = (st', srv', r)"
  shows "\<exists>s. (others cd (ss_key st) sv env)\<^sup>*\<^sup>* srv s \<and> outcome cd (ss_key st) sv env op s srv' r \<and> cache_ok sv st' srv'"
proof (cases "CheckContext ctx (ss_closed st)")
  case None
  then have "finished cd sv env op st srv (st', srv', r)"
    using mutate_loop_finishes [OF assms(1-4), of "nat (ss_maxAttempts st)" 0] assms(5) by (simp add: mutate_def)
  then show ?thesis unfolding finished_def apart_def by auto
next
  case (Some e)
  then show ?thesis using assms(3,5) by (auto simp: mutate_def outcome_def)
qed

text \<open>An API server that keeps every content the Secret has had; its versions are numbered in unary.\<close>

definition example_secret :: "(string, string) gomap \<Rightarrow> nat \<Rightarrow> kubeSecret" where
  "example_secret d i = \<lparr>ks_Name = ''s'', ks_ResourceVersion = replicate (Suc i) CHR ''v'', ks_Data = d, ks_Labels = [], ks_Annotations = []\<rparr>"

definition example_held :: "(string, string) gomap list \<Rightarrow> kubeSecret option" where
  "example_held h = (if h = [] then None else Some (example_secret (last h) (length h - 1)))"

definition example_server :: "(string, string) gomap list server" where
  "example_server = \<lparr>sv_held = example_held, sv_seen = (\<lambda>h x. \<exists>i < length h. x = example_secret (h ! i) i)\<rparr>"

definition example_append :: "(string, string) gomap list \<Rightarrow> (string, string) gomap \<Rightarrow> (string, string) gomap list \<times> (kube_error + kubeSecret)" where
  "example_append h d = (h @ [d], Inr (example_secret d (length h)))"

definition example_api :: "(string, string) gomap list api" where
  "example_api =
     \<lparr>api_get = (\<lambda>h name. case example_held h of Some x \<Rightarrow> if name = ''s'' then Inr x else Inl KubeNotFound | None \<Rightarrow> Inl KubeNotFound),
      api_post = (\<lambda>h x. if h = [] then example_append h (ks_Data x) else (h, Inl KubeAlreadyExists)),
      api_put = (\<lambda>h x. if h \<noteq> [] \<and> ks_ResourceVersion x = replicate (length h) CHR ''v'' then example_append h (ks_Data x)
                        else (h, Inl KubeConflict))\<rparr>"

lemma example_secret_simps [simp]:
  "ks_Name (example_secret d i) = ''s''" "ks_Data (example_secret d i) = d"
  "ks_ResourceVersion (example_secret d i) = replicate (Suc i) CHR ''v''"
  by (simp_all add: example_secret_def)

lemma example_laws: "api_laws example_api ''s'' example_server"
proof -
  have held: "sv_held example_server h = Some x \<longleftrightarrow> h \<noteq> [] \<and> x = example_secret (last h) (length h - 1)" for h x
    by (auto simp: example_server_def example_held_def)
  have seen: "sv_seen example_server h x \<longleftrightarrow> (\<exists>i < length h. x = example_secret (h ! i) i)" for h x
    by (simp add: example_server_def)
  have add: "grows example_server h (h @ [d])" for h d
    unfolding grows_def seen by (metis length_append_singleton less_SucI nth_append_left)
  have get: "api_get example_api h ''s'' = Inr x \<Longrightarrow> sv_held example_server h = Some x" for h x
    by (auto simp: example_api_def example_server_def split: option.splits)
  have last: "sv_held example_server h = Some x \<Longrightarrow> sv_seen example_server h x" for h x
    unfolding held seen by (auto simp: last_conv_nth intro!: exI [of _ "length h - 1"])
  have same: "sv_seen example_server h x \<and> sv_held example_server h = Some x0 \<and> ks_ResourceVersion x0 = ks_ResourceVersion x \<Longrightarrow> x0 = x" for h x x0
    unfolding held seen by (auto simp: last_conv_nth replicate_eq_replicate simp del: replicate_Suc)
  have names: "sv_seen example_server h x \<Longrightarrow> ks_Name x = ''s''" for h x
    unfolding seen by auto
  have post: "grows example_server h h' \<and> (case r of Inr y \<Rightarrow> post_applied example_server h x h' y
      | Inl e \<Rightarrow> sv_held example_server h' = sv_held example_server h \<or> (\<exists>y. post_applied example_server h x h' y))"
    if "api_post example_api h x = (h', r)" for h x h' r
    using that add [of h "ks_Data x"]
    by (auto simp: example_api_def example_append_def post_applied_def example_server_def example_held_def split: if_splits)
  have put: "grows example_server h h' \<and> (case r of Inr y \<Rightarrow> put_applied example_server h x h' y
      | Inl e \<Rightarrow> h' = h \<or> e \<noteq> KubeConflict \<and> (\<exists>y. put_applied example_server h x h' y))"
    if "api_put example_api h x = (h', r)" for h x h' r
    using that add [of h "ks_Data x"]
    by (auto simp: example_api_def example_append_def put_applied_def example_server_def example_held_def replicate_Suc [symmetric]
        simp del: replicate_Suc split: if_splits)
  show ?thesis unfolding api_laws_def using get last names same post put by (intro conjI allI impI) blast+
qed

definition example_codec :: codec where
  "example_codec =
     \<lparr>cd_unmarshal = (\<lambda>b. if b = ''n'' then Some NewState else if b = ''a'' then Some example_state
                           else if b = ''d'' then Some (fst (DeleteKey ''k1'' example_state)) else None),
      cd_marshal = (\<lambda>s. if s = NewState then ''n'' else if s = example_state then ''a'' else ''d''),
      cd_migrations = (\<lambda>_. None)\<rparr>"

text \<open>Another replica writes the same Secret again during the first attempt.\<close>

definition example_env :: "(string, string) gomap list mutate_env" where
  "example_env =
     \<lparr>me_loadAt = (\<lambda>_. 0), me_opAt = (\<lambda>_. 0), me_storedAt = (\<lambda>_. 0), me_mid = (\<lambda>_ h. h),
      me_between = (\<lambda>i h. if i = 0 then h @ [last h] else h), me_during = (\<lambda>_ h. h), me_sleep = (\<lambda>_. None)\<rparr>"

definition example_store :: SecretStore where
  "example_store = \<lparr>ss_name = ''s'', ss_key = ''k'', ss_labels = [], ss_ttl = 1, ss_maxAttempts = 2, ss_maxBytes = 10, ss_backoff = 1,
     ss_cached = None, ss_cachedAt = 0, ss_size = 0, ss_closed = False\<rparr>"

lemma example_documents:
  "example_state \<noteq> NewState" "st_SchemaVersion example_state = SchemaVersion" "fst (DeleteKey ''k1'' example_state) \<noteq> example_state"
  "fst (DeleteKey ''k1'' example_state) \<noteq> NewState" "st_SchemaVersion (fst (DeleteKey ''k1'' example_state)) = SchemaVersion"
  "snd (DeleteKey ''k1'' example_state) = Inr True" "DeleteKey ''k1'' NewState = (NewState, Inl ErrNotFound)"
  "snd (DeleteKey ''k1'' (fst (DeleteKey ''k1'' example_state))) = Inl ErrNotFound"
  by (simp_all add: DeleteKey_def example_state_lookup bump_def)
     (simp_all add: example_state_defs PutKey_def validateKey_def putKey_def bump_def)

lemma example_decode:
  "Decode (cd_unmarshal example_codec) (cd_migrations example_codec) b =
     (if b = '''' \<or> b = ''n'' then Inr NewState else if b = ''a'' then Inr example_state
      else if b = ''d'' then Inr (fst (DeleteKey ''k1'' example_state)) else Inl ErrCorrupt)"
proof -
  have "st_SchemaVersion NewState = SchemaVersion" by (simp add: NewState_def)
  then show ?thesis using example_documents by (simp add: Decode_def example_codec_def migrateTo_current)
qed

lemma example_encode:
  "snd (Encode (cd_marshal example_codec) NewState) = ''n''"
  "snd (EncodeWithin (cd_marshal example_codec) 10 (fst (DeleteKey ''k1'' example_state))) = Inr ''d''"
proof -
  have v: "s\<lparr>st_SchemaVersion := SchemaVersion\<rparr> = s" if "st_SchemaVersion s = SchemaVersion" for s :: State
    using that by (cases s) simp
  have "st_SchemaVersion NewState = SchemaVersion" by (simp add: NewState_def)
  then show "snd (Encode (cd_marshal example_codec) NewState) = ''n''" by (simp add: Encode_def example_codec_def v)
  show "snd (EncodeWithin (cd_marshal example_codec) 10 (fst (DeleteKey ''k1'' example_state))) = Inr ''d''"
    using example_documents(3,4) by (simp add: EncodeWithin_def Encode_def example_codec_def v example_documents(5))
qed

lemma example_faithful: "codec_faithful example_codec 10 clk (OpDeleteKey ''k1'')"
proof -
  have "d = example_state \<and> d' = fst (DeleteKey ''k1'' example_state)"
    if "Decode (cd_unmarshal example_codec) (cd_migrations example_codec) x = Inr d" and "DeleteKey ''k1'' d = (d', Inr True)" for x d d'
    using that example_documents by (auto simp: example_decode split: if_splits)
  then have "Decode (cd_unmarshal example_codec) (cd_migrations example_codec) b = Inr d'"
    if "Decode (cd_unmarshal example_codec) (cd_migrations example_codec) x = Inr d" and "DeleteKey ''k1'' d = (d', Inr True)"
      and "snd (EncodeWithin (cd_marshal example_codec) 10 d') = Inr b" for x d d' b
    using that example_encode(2) by (fastforce simp: example_decode [of "''d''"])
  moreover have "Decode (cd_unmarshal example_codec) (cd_migrations example_codec) (empty_doc example_codec) = Inr NewState"
    by (simp add: empty_doc_def example_encode example_decode)
  ultimately show ?thesis unfolding codec_faithful_def apply_op.simps by blast
qed

theorem mutate_is_atomic_witness:
  "\<exists>st' h' s. mutate example_api example_codec example_env None (OpDeleteKey ''k1'') example_store [[(''k'', ''a'')]] = (st', h', Stored 1)
     \<and> (others example_codec ''k'' example_server example_env)\<^sup>*\<^sup>* [[(''k'', ''a'')]] s
     \<and> outcome example_codec ''k'' example_server example_env (OpDeleteKey ''k1'') s h' (Stored 1)"
proof -
  have v: "ValidateName ''s''" by code_simp
  obtain gone where d: "DeleteKey ''k1'' example_state = (gone, Inr True)" using example_documents(6) by (metis prod.collapse)
  then have enc: "snd (EncodeWithin (cd_marshal example_codec) 10 gone) = Inr ''d''" using example_encode(2) by simp
  have "\<exists>st' h'. mutate example_api example_codec example_env None (OpDeleteKey ''k1'') example_store [[(''k'', ''a'')]] = (st', h', Stored 1)"
    by (simp add: v d enc mutate_def CheckContext_def example_store_def numeral_2_eq_2 load_def cachedSecret_def GetSecret_def UpdateSecret_def
        example_api_def example_held_def example_env_def decode_def map_str_def cache_def invalidate_def example_decode example_append_def)
  then obtain st' h' where run: "mutate example_api example_codec example_env None (OpDeleteKey ''k1'') example_store [[(''k'', ''a'')]] = (st', h', Stored 1)"
    by blast
  have env: "env_grows example_server example_env"
    by (auto simp: env_grows_def grows_def example_env_def example_server_def nth_append intro: less_SucI)
  have store: "ss_name example_store = ''s''" "ss_key example_store = ''k''" "ss_maxBytes example_store = 10" "cache_ok example_server example_store h" for h
    by (simp_all add: example_store_def cache_ok_def)
  have "\<exists>s. (others example_codec ''k'' example_server example_env)\<^sup>*\<^sup>* [[(''k'', ''a'')]] s
     \<and> outcome example_codec ''k'' example_server example_env (OpDeleteKey ''k1'') s h' (Stored 1)"
    using mutate_is_atomic [OF _ env store(4) _ run] example_laws example_faithful by (auto simp: store)
  then show ?thesis using run by blast
qed

subsection \<open>Configuration and pauses\<close>

lemma Open_bounds: "Open opts = Some st \<Longrightarrow> 1 \<le> ss_maxAttempts st \<and> ValidateName (ss_name st) \<and> \<not> ss_closed st \<and> cache_ok sv st srv"
  by (auto simp: Open_def Let_def cache_ok_def split: if_splits)

lemma backoffFor_bounds:
  assumes "0 \<le> jitter" and "jitter < 1"
  shows "0 \<le> backoffFor jitter k st" "backoffFor jitter k st \<le> maxBackoff"
proof -
  define d where "d = (if wrap64 (push_bit k (ss_backoff st)) > maxBackoff \<or> wrap64 (push_bit k (ss_backoff st)) \<le> 0 then maxBackoff
    else wrap64 (push_bit k (ss_backoff st)))"
  have d: "0 < d" "d \<le> maxBackoff" by (auto simp: d_def maxBackoff_def Second_def Millisecond_def)
  have e: "backoffFor jitter k st = \<lfloor>jitter * real_of_int d\<rfloor>" by (simp add: backoffFor_def d_def Let_def)
  show "0 \<le> backoffFor jitter k st" using assms d by (simp add: e)
  have "jitter * real_of_int d \<le> 1 * real_of_int d" using assms d by (intro mult_right_mono) auto
  then show "backoffFor jitter k st \<le> maxBackoff" unfolding e using d by linarith
qed

end
