(* ===== verification/Certproof.thy ===== *)
theory Certproof
  imports Token
begin

text \<open>
  Proof of possession, \<open>internal/certproof/certproof.go\<close>: the transcript a spoke signs and the hub verifies, in the
  tunnel handshake and in certificate renewal.

  SHA-256 and the two signature schemes are arguments. A public key is what \<open>crypto/x509\<close> hands
  out: an elliptic curve key, an RSA key or anything else.
\<close>

unbundle bit_operations_syntax

datatype proof_error = ErrBadSignature | ErrFieldTooLarge | ErrSigner string

definition RenewProtocolVersion :: string where "RenewProtocolVersion = ''renew-v2''"
definition domainTag :: string where "domainTag = ''prometheus-mcp-fleet/tunnel-auth'' @ [CHR 0x00]"
definition MaxFieldBytes :: nat where "MaxFieldBytes = push_bit 10 64"

text \<open>\<open>binary.BigEndian.PutUint32\<close>: the four bytes of a word, the highest first.\<close>

definition PutUint32 :: "32 word \<Rightarrow> string" where
  "PutUint32 w = map (\<lambda>k. char_of (unat (drop_bit k w))) [24, 16, 8, 0]"

fun transcript_fields :: "string list \<Rightarrow> string" where
  "transcript_fields [] = ''''"
| "transcript_fields (f # fs) = PutUint32 (word_of_nat (length f)) @ f @ transcript_fields fs"

definition Transcript :: "string \<Rightarrow> string \<Rightarrow> string \<Rightarrow> string list \<Rightarrow> proof_error + string" where
  "Transcript nonce protocolVersion clusterID bindings =
     (let fields = [nonce, protocolVersion, clusterID] @ bindings
      in if \<exists>f \<in> set fields. length f > MaxFieldBytes then Inl ErrFieldTooLarge
         else Inr (domainTag @ transcript_fields fields))"

datatype PublicKey = ECDSAKey string string | RSAKey nat string | OtherKey string

record crypto =
  cy_sha256 :: "string \<Rightarrow> string"
  cy_ecdsa :: "PublicKey \<Rightarrow> string \<Rightarrow> string \<Rightarrow> bool"
  cy_rsa :: "PublicKey \<Rightarrow> string \<Rightarrow> string \<Rightarrow> bool"

definition Sign :: "crypto \<Rightarrow> (string \<Rightarrow> string option) \<Rightarrow> string \<Rightarrow> string \<Rightarrow> string \<Rightarrow> string list \<Rightarrow> proof_error + string" where
  "Sign cy signer nonce protocolVersion clusterID bindings =
     (case Transcript nonce protocolVersion clusterID bindings of
        Inl e \<Rightarrow> Inl e
      | Inr t \<Rightarrow> (case signer (cy_sha256 cy t) of None \<Rightarrow> Inl (ErrSigner ''sign'') | Some sig \<Rightarrow> Inr sig))"

text \<open>The result is the error, if any. \<open>leaf\<close> is the key of the presented certificate.\<close>

definition Verify_proof :: "crypto \<Rightarrow> PublicKey option \<Rightarrow> string \<Rightarrow> string \<Rightarrow> string \<Rightarrow> string \<Rightarrow> string list \<Rightarrow> proof_error option" where
  "Verify_proof cy leaf sig nonce protocolVersion clusterID bindings =
     (case leaf of
        None \<Rightarrow> Some ErrBadSignature
      | Some pub \<Rightarrow>
          (case Transcript nonce protocolVersion clusterID bindings of
             Inl e \<Rightarrow> Some e
           | Inr t \<Rightarrow>
               (let digest = cy_sha256 cy t
                in case pub of
                     ECDSAKey _ _ \<Rightarrow> if \<not> cy_ecdsa cy pub digest sig then Some ErrBadSignature else None
                   | RSAKey _ _ \<Rightarrow> if \<not> cy_rsa cy pub digest sig then Some ErrBadSignature else None
                   | OtherKey _ \<Rightarrow> Some ErrBadSignature)))"

definition CSRBinding :: "crypto \<Rightarrow> string \<Rightarrow> string" where
  "CSRBinding cy csrDER = cy_sha256 cy csrDER"

subsection \<open>The transcript determines its fields\<close>

lemma length_PutUint32 [simp]: "length (PutUint32 w) = 4"
  by (simp add: PutUint32_def)

lemma SetBytes_PutUint32: "SetBytes (PutUint32 w) = unat w"
proof -
  have "PutUint32 w = fill_loop (Suc (Suc (Suc (Suc 0)))) (unat w) []"
    by (simp add: PutUint32_def unat_drop_bit_eq) (simp add: drop_bit_eq_div div_mult2_eq [symmetric])
  moreover have "unat w < 256 ^ 4" by (rule order.strict_trans2 [OF unsigned_less]) simp
  ultimately show ?thesis by (simp only: SetBytes_fill_loop) (simp add: SetBytes_def)
qed

lemma PutUint32_length:
  assumes "length f \<le> MaxFieldBytes" and "length g \<le> MaxFieldBytes" and "PutUint32 (word_of_nat (length f)) = PutUint32 (word_of_nat (length g))"
  shows "length f = length g"
proof -
  have "unat (word_of_nat (length f) :: 32 word) = length f" "unat (word_of_nat (length g) :: 32 word) = length g"
    using assms(1,2) by (simp_all add: MaxFieldBytes_def unat_of_nat push_bit_eq_mult)
  then show ?thesis using assms(3) SetBytes_PutUint32 by metis
qed

lemma transcript_fields_empty [simp]: "transcript_fields fs = [] \<longleftrightarrow> fs = []" "[] = transcript_fields fs \<longleftrightarrow> fs = []"
  by (cases fs; simp add: PutUint32_def)+

lemma transcript_fields_inj:
  assumes "\<forall>f \<in> set fs. length f \<le> MaxFieldBytes" and "\<forall>f \<in> set gs. length f \<le> MaxFieldBytes" and "transcript_fields fs = transcript_fields gs"
  shows "fs = gs"
  using assms
proof (induction fs arbitrary: gs)
  case Nil
  then show ?case by simp
next
  case (Cons f fs)
  have "transcript_fields (f # fs) \<noteq> []" unfolding transcript_fields_empty by simp
  then have "gs \<noteq> []" using Cons.prems(3) transcript_fields_empty by metis
  then obtain g gs' where gs: "gs = g # gs'" by (cases gs) simp_all
  have heads: "PutUint32 (word_of_nat (length f)) = PutUint32 (word_of_nat (length g)) \<and> f @ transcript_fields fs = g @ transcript_fields gs'"
    using Cons.prems(3) unfolding gs transcript_fields.simps by (subst (asm) append_eq_append_conv) simp_all
  then have "length f = length g" using Cons.prems(1,2) gs by (intro PutUint32_length) simp_all
  then have "f = g" "transcript_fields fs = transcript_fields gs'" using heads append_eq_append_conv by blast+
  moreover from this have "fs = gs'" using Cons.prems(1,2) gs by (intro Cons.IH) simp_all
  ultimately show ?case using gs by simp
qed

lemma Transcript_Inr:
  "Transcript n v c bs = Inr t \<longleftrightarrow> (\<forall>f \<in> set ([n, v, c] @ bs). length f \<le> MaxFieldBytes) \<and> t = domainTag @ transcript_fields ([n, v, c] @ bs)"
  unfolding Transcript_def Let_def by (auto simp del: transcript_fields.simps simp: not_less [symmetric])

text \<open>C23. A transcript determines the nonce, the protocol version, the cluster and every bound field: no other combination of
  values gives the same bytes, so a signature over one exchange says nothing about another.\<close>

theorem Transcript_injective:
  assumes "Transcript nonce version clusterID bindings = Inr t"
  shows "Transcript nonce' version' clusterID' bindings' = Inr t
     \<longleftrightarrow> nonce' = nonce \<and> version' = version \<and> clusterID' = clusterID \<and> bindings' = bindings"
proof
  assume "Transcript nonce' version' clusterID' bindings' = Inr t"
  then have "[nonce', version', clusterID'] @ bindings' = [nonce, version, clusterID] @ bindings"
    using assms unfolding Transcript_Inr by (intro transcript_fields_inj) auto
  then show "nonce' = nonce \<and> version' = version \<and> clusterID' = clusterID \<and> bindings' = bindings" by simp
qed (use assms in simp)

theorem Transcript_injective_witness:
  "(\<exists>t. Transcript ''n'' RenewProtocolVersion ''c1'' [''h''] = Inr t \<and> Transcript ''n'' ''renew-v1'' ''c1'' [''h''] \<noteq> Inr t
     \<and> Transcript ''n'' RenewProtocolVersion ''c'' [''1h''] \<noteq> Inr t \<and> Transcript ''n'' RenewProtocolVersion ''c1'' [''h'', ''''] \<noteq> Inr t)"
proof -
  have "\<exists>t. Transcript ''n'' RenewProtocolVersion ''c1'' [''h''] = Inr t"
    by (simp add: Transcript_Inr MaxFieldBytes_def RenewProtocolVersion_def push_bit_eq_mult)
  then obtain t where t: "Transcript ''n'' RenewProtocolVersion ''c1'' [''h''] = Inr t" by blast
  show ?thesis by (rule exI [of _ t]) (use t in \<open>simp add: Transcript_injective [OF t]; simp add: RenewProtocolVersion_def\<close>)
qed

subsection \<open>Signing and verifying\<close>

definition checks :: "crypto \<Rightarrow> PublicKey \<Rightarrow> string \<Rightarrow> string \<Rightarrow> bool" where
  "checks cy pub digest sig =
     (case pub of ECDSAKey _ _ \<Rightarrow> cy_ecdsa cy pub digest sig | RSAKey _ _ \<Rightarrow> cy_rsa cy pub digest sig | OtherKey _ \<Rightarrow> False)"

lemma Verify_proof_None:
  "Verify_proof cy leaf sig n v c bs = None \<longleftrightarrow> (\<exists>pub t. leaf = Some pub \<and> Transcript n v c bs = Inr t \<and> checks cy pub (cy_sha256 cy t) sig)"
  by (auto simp: Verify_proof_def checks_def Let_def split: option.splits sum.splits PublicKey.splits)

text \<open>What the holder of a key signs, the other side accepts.\<close>

lemma Sign_Verify_proof:
  assumes "Sign cy signer n v c bs = Inr sig" and "\<And>d s. signer d = Some s \<Longrightarrow> checks cy pub d s"
  shows "Verify_proof cy (Some pub) sig n v c bs = None"
  using assms by (auto simp: Sign_def Verify_proof_None split: sum.splits option.splits)

text \<open>An oversized field is not reported as a bad signature.\<close>

lemma Verify_proof_oversize:
  "length n > MaxFieldBytes \<Longrightarrow> Verify_proof cy (Some pub) sig n v c bs = Some ErrFieldTooLarge"
  by (simp add: Verify_proof_def Transcript_def)

end
