(* ===== verification/Authority.thy ===== *)
theory Authority
  imports Certproof Registry
begin

text \<open>
  The certificate authority of the fleet, \<open>internal/ca\<close>: which material it accepts, what it issues, and what identity it reads from
  a certificate that is presented.

  \<open>crypto/x509\<close>, \<open>encoding/pem\<close> and the random source are arguments, gathered in the record \<open>x509\<close>. An error is the
  list of the sentinels that it wraps. Creating and loading the two files of a development set-up is not modelled:
  the material of a deployed hub comes from a Secret.
\<close>

subsection \<open>Types\<close>

datatype ca_sentinel = ErrNoIdentity | ErrWrongTrustDomain | ErrCSRInvalid | ErrInvalidCA | ErrCAExpired | ErrInvalidClusterID
  | ErrInvalidOptions | ErrUntrustedChain | ErrGraceExhausted | CAOther string

type_synonym ca_error = "ca_sentinel list"

record url =
  ur_Scheme :: string
  ur_Opaque :: string
  ur_User :: "string option"
  ur_Host :: string
  ur_Path :: string
  ur_RawQuery :: string
  ur_Fragment :: string

datatype ext_usage = ClientAuth | OtherUsage

definition KeyUsageDigitalSignature :: int where "KeyUsageDigitalSignature = push_bit 0 1"
definition KeyUsageCertSign :: int where "KeyUsageCertSign = push_bit 5 1"

record Certificate =
  xc_Raw :: string
  xc_SerialNumber :: "int option"
  xc_CommonName :: string
  xc_URIs :: "url list"
  xc_NotBefore :: gotime
  xc_NotAfter :: gotime
  xc_KeyUsage :: int
  xc_ExtKeyUsage :: "ext_usage list"
  xc_BasicConstraintsValid :: bool
  xc_IsCA :: bool
  xc_PublicKey :: PublicKey

datatype PrivateKey = ECPrivateKey string string | OtherPrivateKey string

text \<open>
  \<open>x5_verify leaf roots intermediates t\<close> is \<open>Certificate.Verify\<close> for client authentication at time \<open>t\<close>. \<open>x5_csr\<close> parses a
  signing request into its public key and whether its own signature checks. \<open>x5_pem\<close> is \<open>pem.Decode\<close>: type, bytes and rest.
\<close>

record x509 =
  x5_parse :: "string \<Rightarrow> Certificate option"
  x5_create :: "Certificate \<Rightarrow> Certificate \<Rightarrow> PublicKey \<Rightarrow> PrivateKey \<Rightarrow> string option"
  x5_verify :: "Certificate \<Rightarrow> Certificate list \<Rightarrow> Certificate list \<Rightarrow> gotime \<Rightarrow> bool"
  x5_csr :: "string \<Rightarrow> (PublicKey \<times> bool) option"
  x5_pem :: "string \<Rightarrow> (string \<times> string \<times> string) option"
  x5_pemEncode :: "string \<Rightarrow> string \<Rightarrow> string"
  x5_pkcs8 :: "string \<Rightarrow> PrivateKey option"
  x5_sec1 :: "string \<Rightarrow> PrivateKey option"
  x5_public :: "PrivateKey \<Rightarrow> PublicKey"
  x5_signedBy :: "Certificate \<Rightarrow> Certificate \<Rightarrow> bool"

text \<open>A grammar of names: \<open>edge\<close> at either end, \<open>edge\<close> or \<open>inner\<close> between, at most \<open>n\<close> bytes.\<close>

definition shaped_name :: "(char \<Rightarrow> bool) \<Rightarrow> string \<Rightarrow> nat \<Rightarrow> string \<Rightarrow> bool" where
  "shaped_name edge inner n s \<longleftrightarrow>
     s \<noteq> '''' \<and> length s \<le> n \<and> edge (hd s) \<and> edge (last s) \<and> list_all (\<lambda>c. edge c \<or> c \<in> set inner) s"

definition lower_alnum :: "char \<Rightarrow> bool" where
  "lower_alnum c \<longleftrightarrow> is_digit c \<or> CHR ''a'' \<le> c \<and> c \<le> CHR ''z''"

definition trustDomainRE :: "string \<Rightarrow> bool" where
  "trustDomainRE = shaped_name lower_alnum ''-.'' 253"

definition ValidClusterID :: "string \<Rightarrow> bool" where
  "ValidClusterID = shaped_name lower_alnum ''-'' 63"

definition DefaultTrustDomain :: string where "DefaultTrustDomain = ''fleet.local''"
definition DefaultSpokeCertTTL :: duration where "DefaultSpokeCertTTL = 14 * 24 * Hour"
definition DefaultCATTL :: duration where "DefaultCATTL = 10 * 365 * 24 * Hour"
definition clockSkew :: duration where "clockSkew = 5 * Minute"

record ca_options =
  co_TrustDomain :: string
  co_SpokeCertTTL :: duration
  co_CATTL :: duration
  co_AdditionalRootsPEM :: string

definition ca_withDefaults :: "ca_options \<Rightarrow> ca_options" where
  "ca_withDefaults c =
     (let c = (if co_TrustDomain c = '''' then c\<lparr>co_TrustDomain := DefaultTrustDomain\<rparr> else c);
          c = (if co_SpokeCertTTL c = 0 then c\<lparr>co_SpokeCertTTL := DefaultSpokeCertTTL\<rparr> else c)
      in (if co_CATTL c = 0 then c\<lparr>co_CATTL := DefaultCATTL\<rparr> else c))"

definition ca_validate :: "ca_options \<Rightarrow> ca_error option" where
  "ca_validate c =
     (if \<not> trustDomainRE (co_TrustDomain c) then Some [ErrInvalidOptions]
      else if co_SpokeCertTTL c \<le> 0 then Some [ErrInvalidOptions]
      else if co_CATTL c \<le> 0 then Some [ErrInvalidOptions]
      else None)"

record caMaterial =
  cm_cert :: Certificate
  cm_key :: PrivateKey
  cm_roots :: "Certificate list"
  cm_bundlePEM :: string

record CA =
  ca_opts :: ca_options
  ca_material :: caMaterial

subsection \<open>Material\<close>

definition pemTypeCertificate :: string where "pemTypeCertificate = ''CERTIFICATE''"
definition pemTypePrivateKey :: string where "pemTypePrivateKey = ''PRIVATE KEY''"
definition pemTypeECKeyLegacy :: string where "pemTypeECKeyLegacy = ''EC PRIVATE KEY''"
definition P256 :: string where "P256 = ''P-256''"

definition caSigningDefect :: "Certificate \<Rightarrow> bool" where
  "caSigningDefect cert = (if \<not> xc_IsCA cert then True else xc_KeyUsage cert AND KeyUsageCertSign = 0)"

definition checkCAUsable :: "x509 \<Rightarrow> Certificate \<Rightarrow> PrivateKey \<Rightarrow> ca_error option" where
  "checkCAUsable x cert key =
     (if caSigningDefect cert then Some [ErrInvalidCA]
      else case xc_PublicKey cert of
             ECDSAKey _ _ \<Rightarrow> if xc_PublicKey cert \<noteq> x5_public x key then Some [ErrInvalidCA] else None
           | _ \<Rightarrow> Some [ErrInvalidCA])"

definition parseCertificatePEM :: "x509 \<Rightarrow> string \<Rightarrow> ca_error + Certificate" where
  "parseCertificatePEM x b =
     (case x5_pem x b of
        None \<Rightarrow> Inl [ErrInvalidCA]
      | Some (typ, bytes, rest) \<Rightarrow>
          if typ \<noteq> pemTypeCertificate then Inl [ErrInvalidCA]
          else if x5_pem x rest \<noteq> None then Inl [ErrInvalidCA]
          else (case x5_parse x bytes of None \<Rightarrow> Inl [ErrInvalidCA] | Some cert \<Rightarrow> Inr cert))"

definition parsePrivateKeyPEM :: "x509 \<Rightarrow> string \<Rightarrow> ca_error + PrivateKey" where
  "parsePrivateKeyPEM x b =
     (case x5_pem x b of
        None \<Rightarrow> Inl [ErrInvalidCA]
      | Some (typ, bytes, _) \<Rightarrow>
          (case (if typ = pemTypePrivateKey then x5_pkcs8 x bytes else if typ = pemTypeECKeyLegacy then x5_sec1 x bytes else None) of
             Some (ECPrivateKey curve d) \<Rightarrow> if curve \<noteq> P256 then Inl [ErrInvalidCA] else Inr (ECPrivateKey curve d)
           | _ \<Rightarrow> Inl [ErrInvalidCA]))"

text \<open>
  The loop over the blocks of a bundle. \<open>pem.Decode\<close> consumes at least one byte of what it decodes, so the length of the
  bundle bounds the number of rounds; the counter is that length.
\<close>

fun trust_bundle_loop :: "x509 \<Rightarrow> nat \<Rightarrow> Certificate list \<Rightarrow> string \<Rightarrow> ca_error + Certificate list" where
  "trust_bundle_loop x 0 roots rest = Inr roots"
| "trust_bundle_loop x (Suc n) roots rest =
     (case x5_pem x rest of
        None \<Rightarrow> Inr roots
      | Some (typ, bytes, rest) \<Rightarrow>
          if typ \<noteq> pemTypeCertificate then Inl [ErrInvalidCA]
          else (case x5_parse x bytes of
                  None \<Rightarrow> Inl [ErrInvalidCA]
                | Some cert \<Rightarrow>
                    if caSigningDefect cert then Inl [ErrInvalidCA]
                    else trust_bundle_loop x n (roots @ [cert]) rest))"

definition ParseTrustBundlePEM :: "x509 \<Rightarrow> string \<Rightarrow> ca_error + Certificate list" where
  "ParseTrustBundlePEM x b =
     (case trust_bundle_loop x (Suc (length b)) [] b of
        Inl e \<Rightarrow> Inl e
      | Inr roots \<Rightarrow> if roots = [] then Inl [ErrInvalidCA] else Inr roots)"

definition ca_additionalRoots :: "x509 \<Rightarrow> ca_options \<Rightarrow> ca_error + Certificate list" where
  "ca_additionalRoots x c =
     (if TrimSpace (co_AdditionalRootsPEM c) = '''' then Inr [] else ParseTrustBundlePEM x (co_AdditionalRootsPEM c))"

definition parseMaterial :: "x509 \<Rightarrow> string \<Rightarrow> string \<Rightarrow> ca_options \<Rightarrow> ca_error + Certificate \<times> PrivateKey \<times> Certificate list" where
  "parseMaterial x certPEM keyPEM c =
     (case parseCertificatePEM x certPEM of
        Inl e \<Rightarrow> Inl e
      | Inr cert \<Rightarrow>
          (case parsePrivateKeyPEM x keyPEM of
             Inl e \<Rightarrow> Inl e
           | Inr key \<Rightarrow>
               (case checkCAUsable x cert key of
                  Some e \<Rightarrow> Inl e
                | None \<Rightarrow> (case ca_additionalRoots x c of Inl e \<Rightarrow> Inl e | Inr additional \<Rightarrow> Inr (cert, key, additional)))))"

definition appendRoot :: "x509 \<Rightarrow> Certificate \<Rightarrow> Certificate list \<times> string \<Rightarrow> Certificate list \<times> string" where
  "appendRoot x r = (\<lambda>(roots, bundle).
     if list_ex (\<lambda>h. xc_Raw h = xc_Raw r) roots then (roots, bundle)
     else (roots @ [r], bundle @ x5_pemEncode x pemTypeCertificate (xc_Raw r)))"

definition newMaterial :: "x509 \<Rightarrow> Certificate \<Rightarrow> PrivateKey \<Rightarrow> Certificate list \<Rightarrow> caMaterial" where
  "newMaterial x cert key additional =
     (let (roots, bundle) = fold (appendRoot x) additional (appendRoot x cert ([], ''''))
      in \<lparr>cm_cert = cert, cm_key = key, cm_roots = roots, cm_bundlePEM = bundle\<rparr>)"

definition Parse_CA :: "x509 \<Rightarrow> string \<Rightarrow> string \<Rightarrow> ca_options \<Rightarrow> ca_error + CA" where
  "Parse_CA x certPEM keyPEM c =
     (let c = ca_withDefaults c
      in case ca_validate c of
           Some e \<Rightarrow> Inl e
         | None \<Rightarrow>
             (case parseMaterial x certPEM keyPEM c of
                Inl e \<Rightarrow> Inl e
              | Inr (cert, key, additional) \<Rightarrow> Inr \<lparr>ca_opts = c, ca_material = newMaterial x cert key additional\<rparr>))"

definition AdoptPEM :: "x509 \<Rightarrow> string \<Rightarrow> string \<Rightarrow> string \<Rightarrow> CA \<Rightarrow> CA \<times> ca_error option" where
  "AdoptPEM x certPEM keyPEM additionalRootsPEM c =
     (case parseMaterial x certPEM keyPEM ((ca_opts c)\<lparr>co_AdditionalRootsPEM := additionalRootsPEM\<rparr>) of
        Inl e \<Rightarrow> (c, Some e)
      | Inr (cert, key, additional) \<Rightarrow> (c\<lparr>ca_material := newMaterial x cert key additional\<rparr>, None))"

subsection \<open>Issuing\<close>

definition serialBits :: nat where "serialBits = 128"
definition minRSABits :: nat where "minRSABits = 2048"
definition maxRSABits :: nat where "maxRSABits = 8192"
definition uriScheme :: string where "uriScheme = ''pmf''"
definition spokePathPrefix :: string where "spokePathPrefix = ''/spoke/''"

text \<open>\<open>big.Int.Text(16)\<close> of a natural number, and \<open>SerialHex\<close>, which drops the sign.\<close>

definition lower_hex :: "nat \<Rightarrow> char" where
  "lower_hex n = (if n < 10 then char_of (48 + n) else char_of (87 + n))"

fun hex_text :: "nat \<Rightarrow> string" where
  "hex_text n = (if n < 16 then [lower_hex n] else hex_text (n div 16) @ [lower_hex (n mod 16)])"

declare hex_text.simps [simp del]

definition SerialHex :: "int option \<Rightarrow> string" where
  "SerialHex n = (case n of None \<Rightarrow> '''' | Some i \<Rightarrow> hex_text (nat \<bar>i\<bar>))"

text \<open>\<open>draw limit\<close> is \<open>rand.Int\<close>, a number below \<open>limit\<close>.\<close>

definition newSerial :: "(int \<Rightarrow> int option) \<Rightarrow> ca_error + int" where
  "newSerial draw =
     (case draw (push_bit serialBits 1 - 1) of None \<Rightarrow> Inl [CAOther ''generate serial''] | Some n \<Rightarrow> Inr (n + 1))"

definition SpokeURI :: "string \<Rightarrow> CA \<Rightarrow> url" where
  "SpokeURI clusterID c =
     \<lparr>ur_Scheme = uriScheme, ur_Opaque = '''', ur_User = None, ur_Host = co_TrustDomain (ca_opts c),
      ur_Path = ''/spoke/'' @ clusterID, ur_RawQuery = '''', ur_Fragment = ''''\<rparr>"

definition checkCSRPublicKey :: "PublicKey \<Rightarrow> ca_error option" where
  "checkCSRPublicKey pub =
     (case pub of
        ECDSAKey curve _ \<Rightarrow> if curve \<noteq> P256 then Some [ErrCSRInvalid] else None
      | RSAKey n _ \<Rightarrow> (let bits = BitLen n in if bits < minRSABits \<or> bits > maxRSABits then Some [ErrCSRInvalid] else None)
      | OtherKey _ \<Rightarrow> Some [ErrCSRInvalid])"

text \<open>The certificate that \<open>ParseCertificate\<close> reads back from the new encoding; Go ignores its error.\<close>

definition sign :: "x509 \<Rightarrow> gotime \<Rightarrow> (int \<Rightarrow> int option) \<Rightarrow> Certificate \<Rightarrow> PublicKey \<Rightarrow> duration \<Rightarrow> CA \<Rightarrow> ca_error + string \<times> Certificate option" where
  "sign x now draw tmpl pub ttl c =
     (let m = ca_material c
      in if \<not> now < xc_NotAfter (cm_cert m) then Inl [ErrCAExpired]
         else case newSerial draw of
                Inl e \<Rightarrow> Inl e
              | Inr serial \<Rightarrow>
                  (let notAfter = now + ttl;
                       notAfter = (if notAfter > xc_NotAfter (cm_cert m) then xc_NotAfter (cm_cert m) else notAfter);
                       tmpl = tmpl\<lparr>xc_SerialNumber := Some serial, xc_NotBefore := now - clockSkew, xc_NotAfter := notAfter\<rparr>
                   in case x5_create x tmpl (cm_cert m) pub (cm_key m) of
                        None \<Rightarrow> Inl [CAOther ''sign certificate'']
                      | Some der \<Rightarrow> Inr (der, x5_parse x der)))"

definition spoke_template :: "string \<Rightarrow> CA \<Rightarrow> Certificate" where
  "spoke_template clusterID c =
     \<lparr>xc_Raw = '''', xc_SerialNumber = None, xc_CommonName = ''spoke:'' @ clusterID, xc_URIs = [SpokeURI clusterID c], xc_NotBefore = 0,
      xc_NotAfter = 0, xc_KeyUsage = KeyUsageDigitalSignature, xc_ExtKeyUsage = [ClientAuth], xc_BasicConstraintsValid = True,
      xc_IsCA = False, xc_PublicKey = OtherKey ''''\<rparr>"

definition IssueSpokeFromCSR ::
    "x509 \<Rightarrow> gotime \<Rightarrow> (int \<Rightarrow> int option) \<Rightarrow> string \<Rightarrow> string \<Rightarrow> CA \<Rightarrow> ca_error + string \<times> Certificate option" where
  "IssueSpokeFromCSR x now draw csrDER clusterID c =
     (if \<not> ValidClusterID clusterID then Inl [ErrInvalidClusterID]
      else case x5_csr x csrDER of
             None \<Rightarrow> Inl [ErrCSRInvalid]
           | Some (pub, selfSigned) \<Rightarrow>
               if \<not> selfSigned then Inl [ErrCSRInvalid]
               else (case checkCSRPublicKey pub of
                       Some e \<Rightarrow> Inl e
                     | None \<Rightarrow>
                         (case sign x now draw (spoke_template clusterID c) pub (co_SpokeCertTTL (ca_opts c)) c of
                            Inl e \<Rightarrow> Inl e
                          | Inr (der, leaf) \<Rightarrow> Inr (x5_pemEncode x pemTypeCertificate der, leaf))))"

subsection \<open>Identity and verification\<close>

definition IdentityFromCert :: "Certificate option \<Rightarrow> CA \<Rightarrow> ca_error + Identity" where
  "IdentityFromCert cert c =
     (case cert of
        None \<Rightarrow> Inl [ErrNoIdentity]
      | Some cert \<Rightarrow>
          (case xc_URIs cert of
             [u] \<Rightarrow>
               if ur_Scheme u \<noteq> uriScheme then Inl [ErrNoIdentity]
               else if ur_User u \<noteq> None \<or> ur_RawQuery u \<noteq> '''' \<or> ur_Fragment u \<noteq> '''' \<or> ur_Opaque u \<noteq> '''' then Inl [ErrNoIdentity]
               else if ur_Host u \<noteq> co_TrustDomain (ca_opts c) then Inl [ErrWrongTrustDomain]
               else if \<not> HasPrefix (ur_Path u) spokePathPrefix then Inl [ErrNoIdentity]
               else
                 (let cid = drop (length spokePathPrefix) (ur_Path u)
                  in if \<not> ValidClusterID cid then Inl [ErrNoIdentity, ErrInvalidClusterID]
                     else Inr \<lparr>id_ClusterID = cid, id_CertSerial = SerialHex (xc_SerialNumber cert), id_CertNotAfter = xc_NotAfter cert,
                            id_RemoteAddr = '''', id_InstanceID = ''''\<rparr>)
           | _ \<Rightarrow> Inl [ErrNoIdentity]))"

definition VerifyChain :: "x509 \<Rightarrow> gotime \<Rightarrow> Certificate list \<Rightarrow> CA \<Rightarrow> ca_error + Identity" where
  "VerifyChain x now chain c =
     (case chain of
        [] \<Rightarrow> Inl [ErrUntrustedChain]
      | leaf # intermediates \<Rightarrow>
          if \<not> x5_verify x leaf (cm_roots (ca_material c)) intermediates now then Inl [ErrUntrustedChain]
          else IdentityFromCert (Some leaf) c)"

text \<open>\<open>None\<close> is the panic of \<open>chain[0]\<close> on an empty chain. The clock is read twice.\<close>

definition VerifyChainAllowingExpiry ::
    "x509 \<Rightarrow> gotime \<Rightarrow> gotime \<Rightarrow> Certificate list \<Rightarrow> duration \<Rightarrow> CA \<Rightarrow> (ca_error + Identity \<times> bool) option" where
  "VerifyChainAllowingExpiry x now0 now chain grace c =
     (case VerifyChain x now0 chain c of
        Inr i \<Rightarrow> Some (Inr (i, False))
      | Inl err \<Rightarrow>
          (case chain of
             [] \<Rightarrow> None
           | leaf # intermediates \<Rightarrow>
               Some (if grace \<le> 0 \<or> \<not> now > xc_NotAfter leaf then Inl err
                     else if now > xc_NotAfter leaf + grace then Inl [ErrGraceExhausted]
                     else if \<not> x5_verify x leaf (cm_roots (ca_material c)) intermediates (xc_NotAfter leaf) then Inl [ErrUntrustedChain]
                     else (case IdentityFromCert (Some leaf) c of Inl e \<Rightarrow> Inl e | Inr i \<Rightarrow> Inr (i, True)))))"

definition IssuerFingerprint :: "x509 \<Rightarrow> (Certificate \<Rightarrow> string) \<Rightarrow> Certificate option \<Rightarrow> CA \<Rightarrow> string option" where
  "IssuerFingerprint x fingerprint leaf c =
     (case leaf of
        None \<Rightarrow> None
      | Some leaf \<Rightarrow> map_option fingerprint (find (\<lambda>r. x5_signedBy x leaf r) (cm_roots (ca_material c))))"

subsection \<open>Revocation lists\<close>

definition hex_value :: "char \<Rightarrow> nat option" where
  "hex_value ch =
     (if is_digit ch then Some (byte ch - 48) else if CHR ''a'' \<le> ch \<and> ch \<le> CHR ''f'' then Some (byte ch - 87)
      else if CHR ''A'' \<le> ch \<and> ch \<le> CHR ''F'' then Some (byte ch - 55) else None)"

fun hex_fold :: "nat \<Rightarrow> string \<Rightarrow> nat option" where
  "hex_fold n [] = Some n"
| "hex_fold n (ch # s) = (case hex_value ch of None \<Rightarrow> None | Some d \<Rightarrow> hex_fold (n * 16 + d) s)"

text \<open>\<open>big.Int.SetString(s, 16)\<close>: an optional sign and at least one digit.\<close>

definition SetString16 :: "string \<Rightarrow> int option" where
  "SetString16 s =
     (case s of
        [] \<Rightarrow> None
      | ch # t \<Rightarrow>
          let ds = (if ch = CHR ''-'' \<or> ch = CHR ''+'' then t else s)
          in if ds = '''' then None
             else map_option (\<lambda>n. if ch = CHR ''-'' then - int n else int n) (hex_fold 0 ds))"

record RevokedEntry =
  re_Serial :: string
  re_RevokedAt :: gotime

fun crl_entries :: "gotime \<Rightarrow> RevokedEntry list \<Rightarrow> ca_error + (int \<times> gotime) list" where
  "crl_entries thisUpdate [] = Inr []"
| "crl_entries thisUpdate (r # rs) =
     (case SetString16 (re_Serial r) of
        None \<Rightarrow> Inl [ErrInvalidOptions]
      | Some serial \<Rightarrow>
          if serial \<le> 0 then Inl [ErrInvalidOptions]
          else (case crl_entries thisUpdate rs of
                  Inl e \<Rightarrow> Inl e
                | Inr es \<Rightarrow> Inr ((serial, if IsZero (re_RevokedAt r) then thisUpdate else re_RevokedAt r) # es)))"

text \<open>\<open>createList\<close> is \<open>x509.CreateRevocationList\<close> on entries, issue time and next update, signer and key.\<close>

definition CRL ::
    "((int \<times> gotime) list \<Rightarrow> gotime \<Rightarrow> gotime \<Rightarrow> Certificate \<Rightarrow> PrivateKey \<Rightarrow> string option) \<Rightarrow> gotime \<Rightarrow> RevokedEntry list \<Rightarrow> gotime \<Rightarrow> duration \<Rightarrow> CA \<Rightarrow> ca_error + string" where
  "CRL createList now revoked thisUpdate validity c =
     (if validity \<le> 0 then Inl [ErrInvalidOptions]
      else
        (let m = ca_material c;
             thisUpdate = (if IsZero thisUpdate then now else thisUpdate)
         in case crl_entries thisUpdate revoked of
              Inl e \<Rightarrow> Inl e
            | Inr entries \<Rightarrow>
                (case createList entries thisUpdate (thisUpdate + validity) (cm_cert m) (cm_key m) of
                   None \<Rightarrow> Inl [CAOther ''sign crl'']
                 | Some der \<Rightarrow> Inr der)))"

subsection \<open>Serials\<close>

lemma hex_value_lower_hex: "n < 16 \<Longrightarrow> hex_value (lower_hex n) = Some n"
  by (simp add: hex_value_def lower_hex_def is_digit_def byte_def less_eq_char_def)

lemma hex_fold_append: "hex_fold n (s @ t) = (case hex_fold n s of None \<Rightarrow> None | Some m \<Rightarrow> hex_fold m t)"
  by (induction s arbitrary: n) (auto split: option.splits)

lemma hex_fold_hex_text: "hex_fold 0 (hex_text n) = Some n"
proof (induction n rule: hex_text.induct)
  case (1 n)
  then show ?case
    by (cases "n < 16") (simp_all add: hex_text.simps [of n] hex_fold_append hex_value_lower_hex)
qed

lemma hex_text_hd: "hex_text n \<noteq> [] \<and> hd (hex_text n) \<noteq> CHR ''-'' \<and> hd (hex_text n) \<noteq> CHR ''+''"
proof (induction n rule: hex_text.induct)
  case (1 n)
  show ?case
  proof (cases "n < 16")
    case True
    moreover have "hex_value CHR ''-'' = None" "hex_value CHR ''+'' = None" by (simp_all add: hex_value_def is_digit_def byte_def less_eq_char_def)
    ultimately have "lower_hex n \<noteq> CHR ''-''" "lower_hex n \<noteq> CHR ''+''" using hex_value_lower_hex [of n] by auto
    then show ?thesis using True by (simp add: hex_text.simps [of n])
  next
    case False
    then show ?thesis using 1 by (simp add: hex_text.simps [of n])
  qed
qed

lemma SerialHex_SetString16: "0 < s \<Longrightarrow> SetString16 (SerialHex (Some s)) = Some s"
  using hex_text_hd [of "nat s"] hex_fold_hex_text [of "nat s"] by (cases "hex_text (nat s)") (auto simp: SetString16_def SerialHex_def)

lemma SerialHex_inj: "0 < s \<Longrightarrow> 0 < t \<Longrightarrow> SerialHex (Some s) = SerialHex (Some t) \<longleftrightarrow> s = t"
  using SerialHex_SetString16 by (metis option.inject)

subsection \<open>What is issued is what is read back\<close>

definition whole_seconds :: "gotime \<Rightarrow> gotime" where
  "whole_seconds t = t - t mod Second"

text \<open>A URI of the shape the authority writes.\<close>

definition plain_uri :: "url \<Rightarrow> bool" where
  "plain_uri u \<longleftrightarrow> ur_Scheme u = uriScheme \<and> ur_Opaque u = '''' \<and> ur_User u = None \<and> ur_RawQuery u = '''' \<and> ur_Fragment u = ''''
     \<and> trustDomainRE (ur_Host u) \<and> (\<exists>cid. ValidClusterID cid \<and> ur_Path u = spokePathPrefix @ cid)"

text \<open>
  What is relied on of \<open>crypto/x509\<close>: a certificate that was created parses to its template with the public key that was
  certified, and times in whole seconds.
\<close>

definition x509_laws :: "x509 \<Rightarrow> bool" where
  "x509_laws x \<longleftrightarrow>
     (\<forall>tmpl parent pub key der. x5_create x tmpl parent pub key = Some der \<and> list_all plain_uri (xc_URIs tmpl) \<longrightarrow>
        x5_parse x der = Some (tmpl\<lparr>xc_Raw := der, xc_PublicKey := pub,
          xc_NotBefore := whole_seconds (xc_NotBefore tmpl), xc_NotAfter := whole_seconds (xc_NotAfter tmpl)\<rparr>))"

lemma SpokeURI_plain: "trustDomainRE (co_TrustDomain (ca_opts c)) \<Longrightarrow> ValidClusterID cid \<Longrightarrow> plain_uri (SpokeURI cid c)"
  by (auto simp: plain_uri_def SpokeURI_def spokePathPrefix_def)

lemma whole_seconds_le: "whole_seconds t \<le> t"
  by (simp add: whole_seconds_def Second_def)

lemma IdentityFromCert_SpokeURI:
  "ValidClusterID cid \<Longrightarrow> xc_URIs cert = [SpokeURI cid c] \<Longrightarrow> IdentityFromCert (Some cert) c
     = Inr \<lparr>id_ClusterID = cid, id_CertSerial = SerialHex (xc_SerialNumber cert), id_CertNotAfter = xc_NotAfter cert, id_RemoteAddr = '''', id_InstanceID = ''''\<rparr>"
  by (simp add: IdentityFromCert_def SpokeURI_def spokePathPrefix_def)

text \<open>An identity names the cluster of the one URI the certificate has.\<close>

lemma IdentityFromCert_Inr:
  assumes "IdentityFromCert leaf c = Inr i"
  shows "\<exists>cert u. leaf = Some cert \<and> xc_URIs cert = [u] \<and> ur_Host u = co_TrustDomain (ca_opts c) \<and> ur_Path u = spokePathPrefix @ id_ClusterID i
    \<and> ValidClusterID (id_ClusterID i) \<and> id_CertSerial i = SerialHex (xc_SerialNumber cert) \<and> id_CertNotAfter i = xc_NotAfter cert"
  using assms by (auto simp: IdentityFromCert_def Let_def HasPrefix_iff split: option.splits list.splits if_splits)

lemma IssueSpokeFromCSR_leaf:
  assumes "x509_laws x" and "ca_validate (ca_opts c) = None" and "IssueSpokeFromCSR x now draw csrDER cid c = Inr (pem, leaf)"
  shows "\<exists>cert n pub. leaf = Some cert \<and> ValidClusterID cid \<and> xc_URIs cert = [SpokeURI cid c] \<and> draw (push_bit serialBits 1 - 1) = Some n
     \<and> xc_SerialNumber cert = Some (n + 1) \<and> x5_csr x csrDER = Some (pub, True) \<and> xc_PublicKey cert = pub \<and> \<not> xc_IsCA cert
     \<and> xc_NotAfter cert \<le> xc_NotAfter (cm_cert (ca_material c)) \<and> xc_NotAfter cert \<le> now + co_SpokeCertTTL (ca_opts c)"
proof -
  from assms(3) obtain pub where ok: "ValidClusterID cid" "x5_csr x csrDER = Some (pub, True)"
    by (auto simp: IssueSpokeFromCSR_def split: if_splits option.splits)
  from assms(3) ok obtain der where signed: "sign x now draw (spoke_template cid c) pub (co_SpokeCertTTL (ca_opts c)) c = Inr (der, leaf)"
    by (auto simp: IssueSpokeFromCSR_def split: if_splits option.splits sum.splits)
  then obtain n tmpl where n: "draw (push_bit serialBits 1 - 1) = Some n"
    and tmpl: "tmpl = (spoke_template cid c)\<lparr>xc_SerialNumber := Some (n + 1), xc_NotBefore := now - clockSkew,
        xc_NotAfter := min (now + co_SpokeCertTTL (ca_opts c)) (xc_NotAfter (cm_cert (ca_material c)))\<rparr>"
    and made: "x5_create x tmpl (cm_cert (ca_material c)) pub (cm_key (ca_material c)) = Some der" "leaf = x5_parse x der"
    by (auto simp: sign_def newSerial_def Let_def min_def not_le split: if_splits option.splits)
  have "trustDomainRE (co_TrustDomain (ca_opts c))" using assms(2) by (auto simp: ca_validate_def split: if_splits)
  then have "list_all plain_uri (xc_URIs tmpl)" using ok(1) SpokeURI_plain by (simp add: tmpl spoke_template_def)
  then have leaf: "leaf = Some (tmpl\<lparr>xc_Raw := der, xc_PublicKey := pub, xc_NotBefore := whole_seconds (xc_NotBefore tmpl), xc_NotAfter := whole_seconds (xc_NotAfter tmpl)\<rparr>)"
    (is "_ = Some ?cert") using assms(1) made unfolding x509_laws_def by blast
  have "xc_NotAfter ?cert \<le> xc_NotAfter tmpl" using whole_seconds_le by simp
  then have "xc_NotAfter ?cert \<le> xc_NotAfter (cm_cert (ca_material c))" "xc_NotAfter ?cert \<le> now + co_SpokeCertTTL (ca_opts c)"
    by (simp_all add: tmpl)
  then show ?thesis using leaf ok n by (intro exI [of _ ?cert] exI [of _ n] exI [of _ pub]) (simp add: tmpl spoke_template_def)
qed

text \<open>C22. A certificate issued for a cluster carries exactly that identity. Whatever the request asks for, the certificate the hub
  reads back names the cluster the hub decided on, certifies the key that signed the request, is not an authority, expires
  no later than its issuer or its lifetime, and has a positive serial whose text is the one under which it can be revoked.\<close>

theorem issued_certificate_names_its_cluster:
  assumes "x509_laws x" and "ca_validate (ca_opts c) = None" and "\<And>limit n. draw limit = Some n \<Longrightarrow> 0 \<le> n \<and> n < limit"
    and "IssueSpokeFromCSR x now draw csrDER cid c = Inr (pem, leaf)"
  shows "\<exists>cert serial pub. leaf = Some cert
     \<and> IdentityFromCert leaf c = Inr \<lparr>id_ClusterID = cid, id_CertSerial = SerialHex (Some serial), id_CertNotAfter = xc_NotAfter cert,
          id_RemoteAddr = '''', id_InstanceID = ''''\<rparr>
     \<and> x5_csr x csrDER = Some (pub, True) \<and> xc_PublicKey cert = pub \<and> \<not> xc_IsCA cert
     \<and> xc_NotAfter cert \<le> xc_NotAfter (cm_cert (ca_material c)) \<and> xc_NotAfter cert \<le> now + co_SpokeCertTTL (ca_opts c)
     \<and> 0 < serial \<and> serial < 2 ^ 128 \<and> SetString16 (SerialHex (Some serial)) = Some serial"
proof -
  obtain cert n pub where cert: "leaf = Some cert" "ValidClusterID cid" "xc_URIs cert = [SpokeURI cid c]" "xc_SerialNumber cert = Some (n + 1)"
    and n: "draw (push_bit serialBits 1 - 1) = Some n"
    and rest: "x5_csr x csrDER = Some (pub, True)" "xc_PublicKey cert = pub" "\<not> xc_IsCA cert"
      "xc_NotAfter cert \<le> xc_NotAfter (cm_cert (ca_material c))" "xc_NotAfter cert \<le> now + co_SpokeCertTTL (ca_opts c)"
    using IssueSpokeFromCSR_leaf [OF assms(1,2,4)] by blast
  have "0 \<le> n \<and> n < push_bit serialBits 1 - 1" using assms(3) n by blast
  then have serial: "0 < n + 1" "n + 1 < 2 ^ 128" by (simp_all add: serialBits_def push_bit_eq_mult)
  show ?thesis using cert rest serial SerialHex_SetString16 [OF serial(1)] IdentityFromCert_SpokeURI [OF cert(2,3)]
    by (intro exI [of _ cert] exI [of _ "n + 1"] exI [of _ pub]) simp
qed

definition example_pub :: PublicKey where "example_pub = ECDSAKey P256 ''k''"

definition example_ca :: CA where
  "example_ca = (let opts = \<lparr>co_TrustDomain = ''fleet.local'', co_SpokeCertTTL = 10 * Second, co_CATTL = 100 * Second, co_AdditionalRootsPEM = ''''\<rparr>;
     signer = \<lparr>xc_Raw = ''r'', xc_SerialNumber = Some 1, xc_CommonName = ''ca'', xc_URIs = [], xc_NotBefore = 0, xc_NotAfter = 100 * Second,
       xc_KeyUsage = KeyUsageCertSign, xc_ExtKeyUsage = [], xc_BasicConstraintsValid = True, xc_IsCA = True, xc_PublicKey = ECDSAKey P256 ''r''\<rparr>
     in \<lparr>ca_opts = opts, ca_material = \<lparr>cm_cert = signer, cm_key = ECPrivateKey P256 ''r'', cm_roots = [signer], cm_bundlePEM = ''b''\<rparr>\<rparr>)"

definition example_issued :: Certificate where
  "example_issued = (spoke_template ''c1'' example_ca)\<lparr>xc_SerialNumber := Some 42, xc_NotBefore := 10 * Second - clockSkew, xc_NotAfter := 20 * Second\<rparr>"

text \<open>A library that certifies one key, for one cluster.\<close>

definition example_x509 :: x509 where
  "example_x509 =
     \<lparr>x5_parse = (\<lambda>_. Some (example_issued\<lparr>xc_Raw := ''d'', xc_PublicKey := example_pub, xc_NotBefore := whole_seconds (xc_NotBefore example_issued)\<rparr>)),
      x5_create = (\<lambda>tmpl _ pub _. if tmpl = example_issued \<and> pub = example_pub then Some ''d'' else None),
      x5_verify = (\<lambda>leaf roots _ t. roots \<noteq> [] \<and> t \<le> xc_NotAfter leaf), x5_csr = (\<lambda>_. Some (example_pub, True)), x5_pem = (\<lambda>_. None), x5_pemEncode = (\<lambda>_ d. d),
      x5_pkcs8 = (\<lambda>_. None), x5_sec1 = (\<lambda>_. None), x5_public = (\<lambda>_. example_pub), x5_signedBy = (\<lambda>_ _. True)\<rparr>"

lemma example_laws_x509: "x509_laws example_x509"
proof -
  have "whole_seconds (20 * Second) = 20 * Second" by (simp add: whole_seconds_def Second_def)
  then show ?thesis by (auto simp: x509_laws_def example_x509_def example_issued_def split: if_splits)
qed

lemma example_ca_simps [simp]:
  "xc_NotAfter (cm_cert (ca_material example_ca)) = 100 * Second" "co_SpokeCertTTL (ca_opts example_ca) = 10 * Second"
  "ca_validate (ca_opts example_ca) = None" "cm_roots (ca_material example_ca) = [cm_cert (ca_material example_ca)]"
proof -
  have "trustDomainRE ''fleet.local''" by code_simp
  then show "ca_validate (ca_opts example_ca) = None" by (simp add: ca_validate_def example_ca_def Second_def Let_def)
qed (simp_all add: example_ca_def Let_def)

definition example_draw :: "int \<Rightarrow> int option" where
  "example_draw limit = (if limit > 41 then Some 41 else None)"

lemma example_issue:
  "IssueSpokeFromCSR example_x509 (10 * Second) example_draw ''csr'' ''c1'' example_ca
     = Inr (''d'', Some (example_issued\<lparr>xc_Raw := ''d'', xc_PublicKey := example_pub, xc_NotBefore := whole_seconds (xc_NotBefore example_issued)\<rparr>))"
proof -
  have "newSerial example_draw = Inr 42" by (simp add: newSerial_def example_draw_def serialBits_def push_bit_eq_mult)
  then have "sign example_x509 (10 * Second) example_draw (spoke_template ''c1'' example_ca) example_pub (10 * Second) example_ca
     = Inr (''d'', Some (example_issued\<lparr>xc_Raw := ''d'', xc_PublicKey := example_pub, xc_NotBefore := whole_seconds (xc_NotBefore example_issued)\<rparr>))"
    by (simp add: sign_def Second_def) (simp add: example_x509_def example_issued_def Second_def)
  moreover have "ValidClusterID ''c1''" by code_simp
  ultimately show ?thesis by (simp add: IssueSpokeFromCSR_def checkCSRPublicKey_def example_x509_def example_pub_def)
qed

theorem issued_certificate_names_its_cluster_witness:
  "\<exists>leaf cert. IssueSpokeFromCSR example_x509 (10 * Second) example_draw ''csr'' ''c1'' example_ca = Inr (''d'', leaf)
     \<and> leaf = Some cert \<and> map_sum id id_ClusterID (IdentityFromCert leaf example_ca) = Inr ''c1'' \<and> xc_NotAfter cert \<le> 20 * Second"
proof -
  have "example_draw limit = Some n \<Longrightarrow> 0 \<le> n \<and> n < limit" for limit n by (auto simp: example_draw_def split: if_splits)
  from issued_certificate_names_its_cluster [OF example_laws_x509 _ this example_issue] show ?thesis using example_issue by auto
qed

subsection \<open>Verifying a chain\<close>

lemma VerifyChain_Inr:
  "VerifyChain x now chain c = Inr i \<Longrightarrow> \<exists>leaf ims. chain = leaf # ims \<and> x5_verify x leaf (cm_roots (ca_material c)) ims now \<and> IdentityFromCert (Some leaf) c = Inr i"
  by (auto simp: VerifyChain_def split: list.splits if_splits)

lemma VerifyChainAllowingExpiry_returns: "chain \<noteq> [] \<Longrightarrow> VerifyChainAllowingExpiry x now0 now chain grace c \<noteq> None"
  by (auto simp: VerifyChainAllowingExpiry_def split: sum.splits list.splits)

text \<open>Only expiry is forgiven, and only within the grace.\<close>

lemma VerifyChainAllowingExpiry_Inr:
  assumes "VerifyChainAllowingExpiry x now0 now chain grace c = Some (Inr (i, expired))"
  shows "\<exists>leaf ims. chain = leaf # ims \<and> IdentityFromCert (Some leaf) c = Inr i
     \<and> (if expired then xc_NotAfter leaf < now \<and> now \<le> xc_NotAfter leaf + grace \<and> x5_verify x leaf (cm_roots (ca_material c)) ims (xc_NotAfter leaf)
        else x5_verify x leaf (cm_roots (ca_material c)) ims now0)"
proof (cases "VerifyChain x now0 chain c")
  case (Inr j)
  then show ?thesis using assms VerifyChain_Inr [OF Inr] by (auto simp: VerifyChainAllowingExpiry_def)
next
  case (Inl e)
  then show ?thesis using assms
    by (cases chain) (auto simp: VerifyChainAllowingExpiry_def not_less not_le split: if_splits sum.splits)
qed

subsection \<open>Adopting material\<close>

lemma fold_appendRoot: "\<exists>rest. fst (fold (appendRoot x) rs (roots, b)) = roots @ rest"
proof (induction rs arbitrary: roots b)
  case (Cons r rs)
  have "\<exists>more b'. appendRoot x r (roots, b) = (roots @ more, b')" by (simp add: appendRoot_def)
  then obtain more b' where step: "appendRoot x r (roots, b) = (roots @ more, b')" by blast
  then show ?case using Cons.IH [of "roots @ more" b'] by auto
qed simp

text \<open>Whatever roots are configured, the signer comes first among those that are trusted.\<close>

lemma newMaterial_trusts_signer: "\<exists>rest. cm_roots (newMaterial x cert key additional) = cert # rest"
  using fold_appendRoot [of x additional "[cert]" "x5_pemEncode x pemTypeCertificate (xc_Raw cert)"]
  by (auto simp: newMaterial_def appendRoot_def split: prod.splits)

text \<open>Adopting either takes over everything it was given or changes nothing.\<close>

lemma AdoptPEM_whole:
  assumes "AdoptPEM x certPEM keyPEM extra c = (c', r)"
  shows "case r of Some _ \<Rightarrow> c' = c
    | None \<Rightarrow> ca_opts c' = ca_opts c \<and> parseCertificatePEM x certPEM = Inr (cm_cert (ca_material c')) \<and> parsePrivateKeyPEM x keyPEM = Inr (cm_key (ca_material c'))
        \<and> checkCAUsable x (cm_cert (ca_material c')) (cm_key (ca_material c')) = None \<and> cm_cert (ca_material c') \<in> set (cm_roots (ca_material c'))"
proof (cases "parseMaterial x certPEM keyPEM ((ca_opts c)\<lparr>co_AdditionalRootsPEM := extra\<rparr>)")
  case (Inl e)
  then show ?thesis using assms by (auto simp: AdoptPEM_def)
next
  case (Inr m)
  obtain cert key additional where m: "m = (cert, key, additional)" by (cases m)
  then have parts: "parseCertificatePEM x certPEM = Inr cert" "parsePrivateKeyPEM x keyPEM = Inr key" "checkCAUsable x cert key = None"
    using Inr by (auto simp: parseMaterial_def split: sum.splits option.splits)
  have new: "cm_cert (newMaterial x cert key additional) = cert" "cm_key (newMaterial x cert key additional) = key"
    by (simp_all add: newMaterial_def split: prod.splits)
  then show ?thesis using assms Inr m parts newMaterial_trusts_signer [of x cert key additional] by (auto simp: AdoptPEM_def)
qed

end
