(* ===== verification/Hub_Admin.thy ===== *)
theory Hub_Admin
  imports Authority Store_State
begin

text \<open>
  The admin API of the hub, \<open>internal/hubapi\<close>: minting, listing, rotating and revoking credentials, enrollment tokens and certificates.

  A handler takes the parsed request, the hub's document and what surrounds the request: \<open>api_env\<close> holds the readings of the
  clock, the operations that other replicas commit before each access to the store, and the failures of the backend. It returns
  the document it leaves behind, the answer and the audit events. Decoding of a JSON body is given by its outcome. Log lines,
  counters and headers are left out.
\<close>

subsection \<open>Answers\<close>

datatype api_code = InvalidRequest | NotFound | Conflict | ForbiddenRequest | Unauthenticated | Unavailable | PayloadTooLarge | InternalError

definition httpStatus :: "api_code \<Rightarrow> int" where
  "httpStatus code =
     (case code of InvalidRequest \<Rightarrow> 400 | NotFound \<Rightarrow> 404 | Conflict \<Rightarrow> 409 | ForbiddenRequest \<Rightarrow> 403 | Unauthenticated \<Rightarrow> 401
      | Unavailable \<Rightarrow> 503 | PayloadTooLarge \<Rightarrow> 413 | InternalError \<Rightarrow> 500)"

datatype event = EventKeyMinted | EventKeyRevoked | EventKeyDeleted | EventKeyRotated | EventEnrollmentMinted | EventEnrollmentBurned
  | EventEnrollmentReplay | EventCertIssued | EventCertRevoked | EventSessionRevoked | EventCertRenewed | EventRenewalUnproven | EventCertRenewedExpired

datatype body_error = BodyTooLarge | BodyInvalid

definition readBody :: "body_error + 'a \<Rightarrow> api_code + 'a" where
  "readBody body = (case body of Inr x \<Rightarrow> Inr x | Inl BodyTooLarge \<Rightarrow> Inl PayloadTooLarge | Inl BodyInvalid \<Rightarrow> Inl InvalidRequest)"

text \<open>\<open>None\<close> is a request with neither content length nor content type.\<close>

definition readOptionalBody :: "'a \<Rightarrow> (body_error + 'a) option \<Rightarrow> api_code + 'a" where
  "readOptionalBody dst body = (case body of None \<Rightarrow> Inr dst | Some b \<Rightarrow> readBody b)"

subsection \<open>Validation\<close>

definition MaxNameBytes :: nat where "MaxNameBytes = 128"
definition MaxOwnerBytes :: nat where "MaxOwnerBytes = 256"
definition MaxReasonBytes :: nat where "MaxReasonBytes = 256"
definition MaxLabels :: nat where "MaxLabels = 32"
definition MaxLabelKeyBytes :: nat where "MaxLabelKeyBytes = 63"
definition MaxLabelValueBytes :: nat where "MaxLabelValueBytes = 253"

definition labelKeyRE :: "string \<Rightarrow> bool" where
  "labelKeyRE = shaped_name (\<lambda>c. is_digit c \<or> is_letter c) ''-_.'' 63"

definition serialRE :: "string \<Rightarrow> bool" where
  "serialRE s \<longleftrightarrow> 1 \<le> length s \<and> length s \<le> 64 \<and> list_all (\<lambda>c. is_digit c \<or> CHR ''a'' \<le> c \<and> c \<le> CHR ''f'') s"

text \<open>\<open>strings.Trim(s, "0") != ""\<close>: some byte is not a zero.\<close>

definition validSerial :: "string \<Rightarrow> bool" where
  "validSerial s \<longleftrightarrow> serialRE s \<and> list_ex (\<lambda>c. c \<noteq> CHR ''0'') s"

definition IsControl :: "nat \<Rightarrow> bool" where
  "IsControl r \<longleftrightarrow> r < 0x20 \<or> 0x7F \<le> r \<and> r < 0xA0"

definition printable :: "string \<Rightarrow> bool" where
  "printable s \<longleftrightarrow> \<not> list_ex IsControl (runes s)"

definition validateName :: "string \<Rightarrow> bool" where
  "validateName name = (if TrimSpace name = '''' then False else if length name > MaxNameBytes then False else printable name)"

definition validateOwner :: "string \<Rightarrow> bool" where
  "validateOwner owner = (if length owner > MaxOwnerBytes then False else printable owner)"

definition validateReason :: "string \<Rightarrow> bool" where
  "validateReason reason = (if TrimSpace reason = '''' then False else if length reason > MaxReasonBytes then False else printable reason)"

definition validateLabels :: "labels \<Rightarrow> bool" where
  "validateLabels lbls =
     (if length lbls > MaxLabels then False
      else list_all (\<lambda>(k, v). \<not> (length k > MaxLabelKeyBytes \<or> \<not> labelKeyRE k) \<and> \<not> length v > MaxLabelValueBytes \<and> printable v) lbls)"

definition resolveTTL :: "duration \<Rightarrow> duration \<Rightarrow> duration option" where
  "resolveTTL d def = (if d = 0 then Some def else if d < 0 then None else if d > def then None else Some d)"

definition resolveExpiry :: "duration \<Rightarrow> bool \<Rightarrow> KeyClass \<Rightarrow> duration \<Rightarrow> gotime \<Rightarrow> gotime option" where
  "resolveExpiry want noExpiry class maxTTL now =
     (if \<not> noExpiry then map_option (\<lambda>ttl. now + ttl) (resolveTTL want maxTTL)
      else if class \<noteq> ClassAgent then None
      else if want \<noteq> 0 then None
      else Some 0)"

definition kidRE :: "string \<Rightarrow> bool" where
  "kidRE kid \<longleftrightarrow> length kid = KIDLen \<and> list_all (\<lambda>c. is_digit c \<or> is_letter c) kid"

text \<open>\<open>strconv.ParseBool\<close> on a query parameter that may be absent.\<close>

definition boolParam :: "string \<Rightarrow> bool option" where
  "boolParam v =
     (if v = '''' then Some False
      else if v \<in> set [''1'', ''t'', ''T'', ''TRUE'', ''true'', ''True''] then Some True
      else if v \<in> set [''0'', ''f'', ''F'', ''FALSE'', ''false'', ''False''] then Some False
      else None)"

subsection \<open>The server\<close>

definition DefaultAgentKeyTTL :: duration where "DefaultAgentKeyTTL = 2160 * Hour"
definition DefaultAdminKeyTTL :: duration where "DefaultAdminKeyTTL = 2160 * Hour"
definition DefaultEnrollmentTTL :: duration where "DefaultEnrollmentTTL = 15 * Minute"
definition DefaultCRLValidity :: duration where "DefaultCRLValidity = 24 * Hour"

record api_server =
  sr_hasher :: "Hasher option"
  sr_ca :: CA
  sr_agentKeyTTL :: duration
  sr_adminKeyTTL :: duration
  sr_enrollmentTTL :: duration
  sr_spokeCertTTL :: duration
  sr_crlValidity :: duration
  sr_renewGrace :: duration
  sr_enrollmentEnabled :: bool
  sr_draining :: bool

record api_options =
  ao_Store :: bool
  ao_Hasher :: "Hasher option"
  ao_CA :: "CA option"
  ao_Verifier :: bool
  ao_AgentKeyTTL :: duration
  ao_AdminKeyTTL :: duration
  ao_EnrollmentTTL :: duration
  ao_SpokeCertTTL :: duration
  ao_CRLValidity :: duration
  ao_RenewGrace :: duration
  ao_EnrollmentEnabled :: bool
  ao_Draining :: "bool option"

text \<open>\<open>draining\<close> is the answer of the callback for one request; a nil callback never drains.\<close>

definition newServer :: "api_options \<Rightarrow> api_server option" where
  "newServer opts =
     (case (ao_Store opts, ao_Hasher opts, ao_CA opts, ao_Verifier opts) of
        (True, Some h, Some c, True) \<Rightarrow>
          (let dflt = (\<lambda>d x. if x \<le> 0 then d else x)
           in Some \<lparr>sr_hasher = Some h, sr_ca = c, sr_agentKeyTTL = dflt DefaultAgentKeyTTL (ao_AgentKeyTTL opts),
                sr_adminKeyTTL = dflt DefaultAdminKeyTTL (ao_AdminKeyTTL opts), sr_enrollmentTTL = dflt DefaultEnrollmentTTL (ao_EnrollmentTTL opts),
                sr_spokeCertTTL = dflt DefaultSpokeCertTTL (ao_SpokeCertTTL opts), sr_crlValidity = dflt DefaultCRLValidity (ao_CRLValidity opts),
                sr_renewGrace = ao_RenewGrace opts, sr_enrollmentEnabled = ao_EnrollmentEnabled opts,
                sr_draining = (case ao_Draining opts of None \<Rightarrow> False | Some d \<Rightarrow> d)\<rparr>)
      | _ \<Rightarrow> None)"

definition isNotFound :: "store_error \<Rightarrow> bool" where "isNotFound e \<longleftrightarrow> e = ErrNotFound"
definition isConflict :: "store_error \<Rightarrow> bool" where "isConflict e \<longleftrightarrow> e = ErrEnrollmentUsed \<or> e = ErrAlreadyExists"

text \<open>
  What surrounds a request. \<open>ae_others n\<close> are the operations of other replicas and requests before the \<open>n\<close>th access to the store, and
  \<open>ae_copy n\<close> is the copy of the document that the store has kept and that is still young enough to be served; without one the store
  fetches the document. \<open>ae_fault n\<close> is a failure of the backend; its flag tells whether a write took effect all the same.
\<close>

record api_env =
  ae_clock :: "nat \<Rightarrow> gotime"
  ae_opClock :: "nat \<Rightarrow> gotime"
  ae_others :: "nat \<Rightarrow> (gotime \<times> store_op) list"
  ae_copy :: "nat \<Rightarrow> State option"
  ae_fault :: "nat \<Rightarrow> (store_error \<times> bool) option"

definition served :: "api_env \<Rightarrow> nat \<Rightarrow> State \<Rightarrow> State" where
  "served env n s = (case ae_copy env n of None \<Rightarrow> s | Some d \<Rightarrow> d)"

definition store_read :: "api_env \<Rightarrow> nat \<Rightarrow> (State \<Rightarrow> store_error + 'a) \<Rightarrow> State \<Rightarrow> State \<times> (store_error + 'a)" where
  "store_read env n f s =
     (let s = fst (run_ops (ae_others env n) s)
      in (s, case ae_fault env n of Some (e, _) \<Rightarrow> Inl e | None \<Rightarrow> f (served env n s)))"

text \<open>
  A write first works on the copy. An operation that fails there, or finds nothing to change, is over; any other is written on condition that
  the copy is the current document, and otherwise tried again on that.
\<close>

definition store_write :: "api_env \<Rightarrow> nat \<Rightarrow> store_op \<Rightarrow> State \<Rightarrow> State \<times> (store_error + bool)" where
  "store_write env n op s =
     (let s = fst (run_ops (ae_others env n) s)
      in case ae_fault env n of
           Some (e, False) \<Rightarrow> (s, Inl e)
         | Some (e, True) \<Rightarrow> (fst (apply_op (ae_opClock env n) op s), Inl e)
         | None \<Rightarrow>
             (case snd (apply_op (ae_opClock env n) op (served env n s)) of
                Inl e \<Rightarrow> (s, Inl e)
              | Inr False \<Rightarrow> (s, Inr False)
              | Inr True \<Rightarrow> apply_op (ae_opClock env n) op s))"

subsection \<open>Views\<close>

record EnrollmentView =
  ev_ClusterID :: string
  ev_Labels :: labels
  ev_UsedAt :: "gotime option"
  ev_CertSerial :: string
  ev_Reusable :: bool
  ev_Redemptions :: int
  ev_MaxRedemptions :: int

record KeyView =
  kv_KID :: string
  kv_Class :: KeyClass
  kv_Name :: string
  kv_Owner :: string
  kv_Scope :: "Scope option"
  kv_Enrollment :: "EnrollmentView option"
  kv_CreatedAt :: gotime
  kv_ExpiresAt :: gotime
  kv_LastUsedAt :: "gotime option"
  kv_RevokedAt :: "gotime option"
  kv_RevokedReason :: string
  kv_Expired :: bool
  kv_Revoked :: bool

definition viewKey :: "gotime \<Rightarrow> Key \<Rightarrow> KeyView" where
  "viewKey now k =
     \<lparr>kv_KID = k_KID k, kv_Class = k_Class k, kv_Name = k_Name k, kv_Owner = k_Owner k, kv_Scope = k_Scope k,
      kv_Enrollment = map_option (\<lambda>g. \<lparr>ev_ClusterID = eg_ClusterID g, ev_Labels = eg_Labels g, ev_UsedAt = eg_UsedAt g, ev_CertSerial = eg_CertSerial g,
        ev_Reusable = eg_Reusable g, ev_Redemptions = eg_Redemptions g, ev_MaxRedemptions = eg_MaxRedemptions g\<rparr>) (k_Enrollment k),
      kv_CreatedAt = k_CreatedAt k, kv_ExpiresAt = k_ExpiresAt k, kv_LastUsedAt = k_LastUsed k, kv_RevokedAt = k_RevokedAt k,
      kv_RevokedReason = k_RevokedReason k, kv_Expired = Expired k now, kv_Revoked = Revoked k\<rparr>"

definition viewKeys :: "gotime \<Rightarrow> Key list \<Rightarrow> KeyView list" where
  "viewKeys now keys = map (viewKey now) keys"

record MintedKeyResponse =
  mk_Key :: KeyView
  mk_Token :: string

subsection \<open>Minting\<close>

definition mintRetries :: nat where "mintRetries = 3"

datatype mint_error = MintToken token_error | MintStore store_error | MintNeedsExpiry

text \<open>
  The attempts of \<open>mintKeyWith\<close>; \<open>commit n k\<close> stores the record at the \<open>n\<close>th access. \<open>None\<close> is an entropy source that never
  yields an identifier.
\<close>

fun mint_loop ::
    "mac \<Rightarrow> Hasher option \<Rightarrow> 'r entropy \<Rightarrow> (nat \<Rightarrow> Key \<Rightarrow> State \<Rightarrow> State \<times> (store_error + bool)) \<Rightarrow> Key \<Rightarrow> nat \<Rightarrow> nat \<Rightarrow> store_error \<Rightarrow> 'r \<Rightarrow> State
     \<Rightarrow> (State \<times> 'r \<times> (mint_error + Key \<times> string)) option" where
  "mint_loop hmac h read commit k 0 n lastErr r s = Some (s, r, Inl (MintStore lastErr))"
| "mint_loop hmac h read commit k (Suc m) n lastErr r s =
     (case Mint (k_Class k) read r of
        None \<Rightarrow> None
      | Some (Inl e, r) \<Rightarrow> Some (s, r, Inl (MintToken e))
      | Some (Inr minted, r) \<Rightarrow>
          (let key = k\<lparr>k_KID := mt_KID minted, k_SecretHMAC := Hasher_Sum hmac h (mt_Secret minted)\<rparr>
           in case commit n key s of
                (s, Inl e) \<Rightarrow> if isConflict e then mint_loop hmac h read commit k m (Suc n) e r s else Some (s, r, Inl (MintStore e))
              | (s, Inr _) \<Rightarrow> Some (s, r, Inr (key, mt_Raw minted))))"

definition mintKeyWith ::
    "mac \<Rightarrow> Hasher option \<Rightarrow> 'r entropy \<Rightarrow> (nat \<Rightarrow> Key \<Rightarrow> State \<Rightarrow> State \<times> (store_error + bool)) \<Rightarrow> nat \<Rightarrow> gotime \<Rightarrow> KeyClass \<Rightarrow> string \<Rightarrow> string \<Rightarrow> gotime
     \<Rightarrow> Scope option \<Rightarrow> EnrollmentGrant option \<Rightarrow> 'r \<Rightarrow> State \<Rightarrow> (State \<times> 'r \<times> (mint_error + Key \<times> string)) option" where
  "mintKeyWith hmac h read commit n now class name owner expiresAt scope grant r s =
     (if IsZero expiresAt \<and> class \<noteq> ClassAgent then Some (s, r, Inl MintNeedsExpiry)
      else mint_loop hmac h read commit
             \<lparr>k_KID = '''', k_Class = class, k_Name = name, k_Owner = owner, k_SecretHMAC = '''', k_Scope = scope, k_Enrollment = grant,
              k_CreatedAt = now, k_ExpiresAt = expiresAt, k_LastUsed = None, k_RevokedAt = None, k_RevokedReason = ''''\<rparr>
             mintRetries n ErrInvalid r s)"

definition mintKey ::
    "mac \<Rightarrow> 'r entropy \<Rightarrow> api_env \<Rightarrow> nat \<Rightarrow> gotime \<Rightarrow> api_server \<Rightarrow> KeyClass \<Rightarrow> string \<Rightarrow> string \<Rightarrow> gotime \<Rightarrow> Scope option \<Rightarrow> EnrollmentGrant option \<Rightarrow> 'r \<Rightarrow> State
     \<Rightarrow> (State \<times> 'r \<times> (mint_error + Key \<times> string)) option" where
  "mintKey hmac read env n now sr = mintKeyWith hmac (sr_hasher sr) read (\<lambda>n k. store_write env n (OpPutKey (Some k))) n now"

definition mintedResponse :: "gotime \<Rightarrow> Key \<Rightarrow> string \<Rightarrow> MintedKeyResponse" where
  "mintedResponse now key raw = \<lparr>mk_Key = viewKey now key, mk_Token = raw\<rparr>"

subsection \<open>Credentials\<close>

definition loadKey :: "api_env \<Rightarrow> nat \<Rightarrow> string \<Rightarrow> KeyClass \<Rightarrow> State \<Rightarrow> State \<times> (api_code + Key)" where
  "loadKey env n kid want s =
     (case store_read env n (\<lambda>s. GetKey s kid) s of
        (s, Inl e) \<Rightarrow> (s, Inl (if isNotFound e then NotFound else InternalError))
      | (s, Inr key) \<Rightarrow> (s, if want \<noteq> '''' \<and> k_Class key \<noteq> want then Inl NotFound else Inr key))"

record CreateKeyRequest =
  cq_Class :: KeyClass
  cq_Name :: string
  cq_Owner :: string
  cq_TTL :: duration
  cq_NoExpiry :: bool
  cq_Scope :: "Scope option"

definition handleCreateKey ::
    "mac \<Rightarrow> 'r entropy \<Rightarrow> api_env \<Rightarrow> api_server \<Rightarrow> (body_error + CreateKeyRequest) \<Rightarrow> 'r \<Rightarrow> State
     \<Rightarrow> (State \<times> 'r \<times> (api_code + MintedKeyResponse) \<times> event list) option" where
  "handleCreateKey hmac read env sr body r s =
     (let refuse = (\<lambda>code. Some (s, r, Inl code, []))
      in if sr_draining sr then refuse Unavailable
         else case readBody body of
                Inl code \<Rightarrow> refuse code
              | Inr req \<Rightarrow>
                  if cq_Class req \<noteq> ClassAgent \<and> cq_Class req \<noteq> ClassAdmin then refuse InvalidRequest
                  else if \<not> validateName (cq_Name req) then refuse InvalidRequest
                  else if \<not> validateOwner (cq_Owner req) then refuse InvalidRequest
                  else if cq_Class req = ClassAgent \<and> Scope_Validate (cq_Scope req) \<noteq> None then refuse InvalidRequest
                  else if cq_Class req = ClassAdmin \<and> cq_Scope req \<noteq> None then refuse InvalidRequest
                  else
                    (let maxTTL = (if cq_Class req = ClassAgent then sr_agentKeyTTL sr else sr_adminKeyTTL sr)
                     in case resolveExpiry (cq_TTL req) (cq_NoExpiry req) (cq_Class req) maxTTL (ae_clock env 0) of
                          None \<Rightarrow> refuse InvalidRequest
                        | Some expiresAt \<Rightarrow>
                            (case mintKey hmac read env 0 (ae_clock env 1) sr (cq_Class req) (cq_Name req) (cq_Owner req) expiresAt (cq_Scope req) None r s of
                               None \<Rightarrow> None
                             | Some (s, r, Inl _) \<Rightarrow> Some (s, r, Inl InternalError, [])
                             | Some (s, r, Inr (key, raw)) \<Rightarrow> Some (s, r, Inr (mintedResponse (ae_clock env 2) key raw), [EventKeyMinted]))))"

definition handleListKeys :: "api_env \<Rightarrow> KeyClass \<Rightarrow> State \<Rightarrow> State \<times> (api_code + KeyView list)" where
  "handleListKeys env class s =
     (if class \<noteq> '''' \<and> \<not> KeyClass_Valid class then (s, Inl InvalidRequest)
      else case store_read env 0 (\<lambda>s. Inr (ListKeys class s)) s of
             (s, Inl _) \<Rightarrow> (s, Inl InternalError)
           | (s, Inr keys) \<Rightarrow> (s, Inr (viewKeys (ae_clock env 0) keys)))"

definition handleGetKey :: "api_env \<Rightarrow> string \<Rightarrow> State \<Rightarrow> State \<times> (api_code + KeyView)" where
  "handleGetKey env kid s =
     (if \<not> kidRE kid then (s, Inl InvalidRequest)
      else case loadKey env 0 kid '''' s of
             (s, Inl code) \<Rightarrow> (s, Inl code)
           | (s, Inr key) \<Rightarrow> (s, Inr (viewKey (ae_clock env 0) key)))"

definition handleRevokeKey :: "api_env \<Rightarrow> api_server \<Rightarrow> string \<Rightarrow> string \<Rightarrow> string \<Rightarrow> State \<Rightarrow> State \<times> (api_code + unit) \<times> event list" where
  "handleRevokeKey env sr kid reason purge s =
     (if sr_draining sr then (s, Inl Unavailable, [])
      else if \<not> kidRE kid then (s, Inl InvalidRequest, [])
      else if \<not> validateReason reason then (s, Inl InvalidRequest, [])
      else case boolParam purge of
             None \<Rightarrow> (s, Inl InvalidRequest, [])
           | Some purge \<Rightarrow>
               (case loadKey env 0 kid '''' s of
                  (s, Inl code) \<Rightarrow> (s, Inl code, [])
                | (s, Inr _) \<Rightarrow>
                    if purge then
                      (case store_write env 1 (OpDeleteKey kid) s of
                         (s, Inl _) \<Rightarrow> (s, Inl InternalError, [])
                       | (s, Inr _) \<Rightarrow> (s, Inr (), [EventKeyDeleted]))
                    else
                      (case store_write env 1 (OpRevokeKey kid reason (ae_clock env 0)) s of
                         (s, Inl _) \<Rightarrow> (s, Inl InternalError, [])
                       | (s, Inr _) \<Rightarrow> (s, Inr (), [EventKeyRevoked]))))"

record rotateRequest =
  rr_TTL :: duration
  rr_NoExpiry :: bool
  rr_Reason :: string

definition handleRotateKey ::
    "mac \<Rightarrow> 'r entropy \<Rightarrow> api_env \<Rightarrow> api_server \<Rightarrow> string \<Rightarrow> (body_error + rotateRequest) option \<Rightarrow> 'r \<Rightarrow> State
     \<Rightarrow> (State \<times> 'r \<times> (api_code + MintedKeyResponse) \<times> event list) option" where
  "handleRotateKey hmac read env sr kid body r s =
     (let refuse = (\<lambda>s code. Some (s, r, Inl code, []))
      in if sr_draining sr then refuse s Unavailable
         else if \<not> kidRE kid then refuse s InvalidRequest
         else case readOptionalBody \<lparr>rr_TTL = 0, rr_NoExpiry = False, rr_Reason = ''''\<rparr> body of
                Inl code \<Rightarrow> refuse s code
              | Inr req \<Rightarrow>
                  (case loadKey env 0 kid '''' s of
                     (s, Inl code) \<Rightarrow> refuse s code
                   | (s, Inr old) \<Rightarrow>
                       if k_Class old = ClassEnrollment then refuse s InvalidRequest
                       else if Revoked old then refuse s Conflict
                       else
                         (let maxTTL = (if k_Class old = ClassAdmin then sr_adminKeyTTL sr else sr_agentKeyTTL sr);
                              reason = (if rr_Reason req = '''' then ''rotated'' else rr_Reason req)
                          in case resolveExpiry (rr_TTL req) (rr_NoExpiry req) (k_Class old) maxTTL (ae_clock env 0) of
                               None \<Rightarrow> refuse s InvalidRequest
                             | Some expiresAt \<Rightarrow>
                                 if \<not> validateReason reason then refuse s InvalidRequest
                                 else
                                   (case mintKeyWith hmac (sr_hasher sr) read
                                           (\<lambda>n k. store_write env n (OpReplaceKey (Some k) (k_KID old) (reason @ '' (replaced by '' @ k_KID k @ '')'') (ae_clock env (n + 1))))
                                           1 (ae_clock env 1) (k_Class old) (k_Name old) (k_Owner old) expiresAt (k_Scope old) None r s of
                                      None \<Rightarrow> None
                                    | Some (s, r, Inr (fresh, raw)) \<Rightarrow> Some (s, r, Inr (mintedResponse (ae_clock env 5) fresh raw), [EventKeyRotated])
                                    | Some (s, r, Inl e) \<Rightarrow>
                                        Some (s, r, Inl (if e = MintStore ErrRevoked then Conflict
                                                         else if e = MintStore ErrNotFound then NotFound
                                                         else InternalError), [])))))"

subsection \<open>Enrollment tokens\<close>

record CreateEnrollmentRequest =
  ce_ClusterID :: string
  ce_Labels :: labels
  ce_Name :: string
  ce_Owner :: string
  ce_TTL :: duration
  ce_Reusable :: bool
  ce_MaxRedemptions :: int

definition handleCreateEnrollment ::
    "mac \<Rightarrow> 'r entropy \<Rightarrow> api_env \<Rightarrow> api_server \<Rightarrow> (body_error + CreateEnrollmentRequest) \<Rightarrow> 'r \<Rightarrow> State
     \<Rightarrow> (State \<times> 'r \<times> (api_code + MintedKeyResponse) \<times> event list) option" where
  "handleCreateEnrollment hmac read env sr body r s =
     (let refuse = (\<lambda>code. Some (s, r, Inl code, []))
      in if sr_draining sr then refuse Unavailable
         else case readBody body of
                Inl code \<Rightarrow> refuse code
              | Inr req \<Rightarrow>
                  if \<not> ValidClusterID (ce_ClusterID req) then refuse InvalidRequest
                  else if \<not> validateLabels (ce_Labels req) then refuse InvalidRequest
                  else
                    (let name = (if ce_Name req = '''' then ''enroll:'' @ ce_ClusterID req else ce_Name req)
                     in if \<not> validateName name then refuse InvalidRequest
                        else if \<not> validateOwner (ce_Owner req) then refuse InvalidRequest
                        else case resolveTTL (ce_TTL req) (sr_enrollmentTTL sr) of
                               None \<Rightarrow> refuse InvalidRequest
                             | Some ttl \<Rightarrow>
                                 if ce_MaxRedemptions req < 0 then refuse InvalidRequest
                                 else if ce_MaxRedemptions req > 0 \<and> \<not> ce_Reusable req then refuse InvalidRequest
                                 else
                                   (let grant = \<lparr>eg_ClusterID = ce_ClusterID req, eg_Labels = ce_Labels req, eg_UsedAt = None, eg_CertSerial = '''',
                                                 eg_Reusable = ce_Reusable req, eg_Redemptions = 0, eg_MaxRedemptions = ce_MaxRedemptions req\<rparr>
                                    in case mintKey hmac read env 0 (ae_clock env 1) sr ClassEnrollment name (ce_Owner req) (ae_clock env 0 + ttl) None (Some grant) r s of
                                         None \<Rightarrow> None
                                       | Some (s, r, Inl _) \<Rightarrow> Some (s, r, Inl InternalError, [])
                                       | Some (s, r, Inr (key, raw)) \<Rightarrow> Some (s, r, Inr (mintedResponse (ae_clock env 2) key raw), [EventEnrollmentMinted]))))"

definition handleListEnrollments :: "api_env \<Rightarrow> State \<Rightarrow> State \<times> (api_code + KeyView list)" where
  "handleListEnrollments env s =
     (case store_read env 0 (\<lambda>s. Inr (ListKeys ClassEnrollment s)) s of
        (s, Inl _) \<Rightarrow> (s, Inl InternalError)
      | (s, Inr keys) \<Rightarrow> (s, Inr (viewKeys (ae_clock env 0) keys)))"

definition handleRevokeEnrollment :: "api_env \<Rightarrow> api_server \<Rightarrow> string \<Rightarrow> string \<Rightarrow> State \<Rightarrow> State \<times> (api_code + unit) \<times> event list" where
  "handleRevokeEnrollment env sr kid reason s =
     (if sr_draining sr then (s, Inl Unavailable, [])
      else if \<not> kidRE kid then (s, Inl InvalidRequest, [])
      else
        (let reason = (if reason = '''' then ''enrollment window closed'' else reason)
         in if \<not> validateReason reason then (s, Inl InvalidRequest, [])
            else case loadKey env 0 kid ClassEnrollment s of
                   (s, Inl code) \<Rightarrow> (s, Inl code, [])
                 | (s, Inr key) \<Rightarrow>
                     (case store_write env 1 (OpRevokeKey (k_KID key) reason (ae_clock env 0)) s of
                        (s, Inl _) \<Rightarrow> (s, Inl InternalError, [])
                      | (s, Inr _) \<Rightarrow> (s, Inr (), [EventKeyRevoked]))))"

subsection \<open>Certificates\<close>

record RevokeCertRequest =
  rv_Reason :: string
  rv_NotAfter :: gotime

text \<open>\<open>reg\<close> is the registry of live sessions, if the hub has one, at the time \<open>now\<close> of the close.\<close>

definition closeRevokedSessions :: "gotime \<Rightarrow> string \<Rightarrow> Registry option \<Rightarrow> Registry option \<times> event list" where
  "closeRevokedSessions now serial reg =
     (case reg of
        None \<Rightarrow> (None, [])
      | Some r \<Rightarrow> (let (r, closed) = CloseRevoked now [serial] r in (Some r, if closed = [] then [] else [EventSessionRevoked])))"

definition handleRevokeCert ::
    "api_env \<Rightarrow> gotime \<Rightarrow> api_server \<Rightarrow> string \<Rightarrow> (body_error + RevokeCertRequest) option \<Rightarrow> Registry option \<Rightarrow> State
     \<Rightarrow> State \<times> Registry option \<times> (api_code + unit) \<times> event list" where
  "handleRevokeCert env closeAt sr serial body reg s =
     (if sr_draining sr then (s, reg, Inl Unavailable, [])
      else if \<not> validSerial serial then (s, reg, Inl InvalidRequest, [])
      else case readOptionalBody \<lparr>rv_Reason = '''', rv_NotAfter = 0\<rparr> body of
             Inl code \<Rightarrow> (s, reg, Inl code, [])
           | Inr req \<Rightarrow>
               if \<not> validateReason (rv_Reason req) then (s, reg, Inl InvalidRequest, [])
               else
                 (let now = ae_clock env 0;
                      notAfter = (if IsZero (rv_NotAfter req) then now + sr_spokeCertTTL sr else rv_NotAfter req)
                  in if notAfter < now then (s, reg, Inl InvalidRequest, [])
                     else
                       (case store_write env 0 (OpRevokeCert \<lparr>rc_Serial = serial, rc_RevokedAt = now, rc_NotAfter = notAfter, rc_Reason = rv_Reason req\<rparr>) s of
                          (s, Inl _) \<Rightarrow> (s, reg, Inl InternalError, [])
                        | (s, Inr _) \<Rightarrow>
                            (let (reg, evs) = closeRevokedSessions closeAt serial reg in (s, reg, Inr (), EventCertRevoked # evs)))))"

definition handleListRevokedCerts :: "api_env \<Rightarrow> State \<Rightarrow> State \<times> (api_code + RevokedCert list)" where
  "handleListRevokedCerts env s =
     (case store_read env 0 (\<lambda>s. Inr (ListRevokedCerts s)) s of
        (s, Inl _) \<Rightarrow> (s, Inl InternalError)
      | (s, Inr revoked) \<Rightarrow> (s, Inr revoked))"

subsection \<open>What minting leaves behind\<close>

lemma mint_loop_Inr:
  assumes "mint_loop hmac h read commit k m n lastErr r s = Some (s', r', Inr (key, raw))"
  shows "\<exists>i r0 r1 minted s0 b. Mint (k_Class k) read r0 = Some (Inr minted, r1) \<and> raw = mt_Raw minted
    \<and> key = k\<lparr>k_KID := mt_KID minted, k_SecretHMAC := Hasher_Sum hmac h (mt_Secret minted)\<rparr> \<and> commit i key s0 = (s', Inr b)"
  using assms
proof (induction hmac h read commit k m n lastErr r s rule: mint_loop.induct)
  case (2 hmac h read commit k m n lastErr r s)
  then obtain minted r1 where minted: "Mint (k_Class k) read r = Some (Inr minted, r1)" by (auto split: option.splits prod.splits sum.splits)
  let ?key = "k\<lparr>k_KID := mt_KID minted, k_SecretHMAC := Hasher_Sum hmac h (mt_Secret minted)\<rparr>"
  obtain s1 res where commit: "commit n ?key s = (s1, res)" by (cases "commit n ?key s")
  show ?case
  proof (cases res)
    case (Inl e)
    then have "isConflict e" "mint_loop hmac h read commit k m (Suc n) e r1 s1 = Some (s', r', Inr (key, raw))"
      using 2(2) minted commit by (auto simp: Let_def split: if_splits)
    then show ?thesis using 2(1) [OF minted refl refl refl commit [symmetric] Inl] by blast
  next
    case (Inr b)
    then have "s1 = s'" "key = ?key" "raw = mt_Raw minted" using 2(2) minted commit by (simp_all add: Let_def)
    then show ?thesis using minted commit Inr by blast
  qed
qed simp

text \<open>Whatever copy it starts from, a write leaves the current document alone or applies the operation to it.\<close>

lemma store_write_effect:
  fixes env n op s
  defines "cur \<equiv> fst (run_ops (ae_others env n) s)" and "run \<equiv> apply_op (ae_opClock env n) op"
  assumes "store_write env n op s = (s', q)" and "\<And>d. snd (run d) \<noteq> Inr False"
  shows "s' = cur \<and> isl q \<or> s' = fst (run cur) \<and> (isl q \<or> q = snd (run cur))"
proof (cases "ae_fault env n")
  case None
  then have "store_write env n op s = (case snd (run (served env n cur)) of Inl e \<Rightarrow> (cur, Inl e) | Inr False \<Rightarrow> (cur, Inr False) | Inr True \<Rightarrow> run cur)"
    unfolding store_write_def Let_def cur_def run_def by (simp del: apply_op.simps)
  then show ?thesis using assms(3) assms(4) [of "served env n cur"] by (cases "snd (run (served env n cur))") (auto simp: prod_eq_iff split: bool.splits)
next
  case (Some e)
  then show ?thesis using assms(3) by (cases e; cases "snd e") (auto simp: store_write_def Let_def cur_def run_def simp del: apply_op.simps)
qed

lemma store_write_Inr:
  assumes "store_write env n op s = (s', Inr b)" and "\<And>d. snd (apply_op (ae_opClock env n) op d) \<noteq> Inr False"
  shows "apply_op (ae_opClock env n) op (fst (run_ops (ae_others env n) s)) = (s', Inr b)"
  using store_write_effect [OF assms] by (simp add: prod_eq_iff)

lemma always_changes: "snd (apply_op t (OpPutKey k) d) \<noteq> Inr False" "snd (apply_op t (OpRevokeCert rc) d) \<noteq> Inr False"
    "snd (apply_op t (OpBurnEnrollment kid serial tm) d) \<noteq> Inr False"
  by (auto simp: PutKey_def RevokeCert_def changed_only_def Let_def split: option.splits sum.splits)

lemma resolveExpiry_Some:
  "resolveExpiry want noExpiry class maxTTL now = Some t \<longleftrightarrow>
     (if noExpiry then class = ClassAgent \<and> want = 0 \<and> t = 0
      else 0 \<le> want \<and> want \<le> max 0 maxTTL \<and> t = now + (if want = 0 then maxTTL else want))"
  by (auto simp: resolveExpiry_def resolveTTL_def max_def split: if_splits)

lemma wf_store_write: "wf_state s \<Longrightarrow> wf_state (fst (store_write env n op s))"
  by (auto simp: store_write_def Let_def wf_run_ops wf_apply_op simp del: apply_op.simps split: option.splits bool.splits sum.splits)

lemma wf_mint_loop:
  assumes "mint_loop hmac h read commit k m n lastErr r s = Some (s', r', q)" and "wf_state s" and "\<And>n k s. wf_state s \<Longrightarrow> wf_state (fst (commit n k s))"
  shows "wf_state s'"
  using assms
proof (induction m arbitrary: n lastErr r s)
  case (Suc m)
  have step: "wf_state s1" if "commit n key s = (s1, res)" for key s1 res using Suc.prems(2,3) that by (metis fst_conv)
  show ?case using Suc.prems(1,2) Suc.IH [OF _ _ Suc.prems(3)] step
    by (auto simp: Let_def split: option.splits prod.splits sum.splits if_splits)
qed simp

lemma wf_handleCreateKey:
  assumes "handleCreateKey hmac read env sr body r s = Some (s', r', q, evs)" and "wf_state s"
  shows "wf_state s'"
proof -
  have "s' = s \<or> (\<exists>now class name owner t scope r' q. mintKey hmac read env 0 now sr class name owner t scope None r s = Some (s', r', q))"
    using assms(1) by (fastforce simp: handleCreateKey_def Let_def split: if_splits option.splits sum.splits prod.splits)
  then show ?thesis using assms(2) wf_mint_loop [OF _ assms(2) wf_store_write]
    by (auto simp: mintKey_def mintKeyWith_def split: if_splits)
qed

lemma handleCreateKey_Inr:
  assumes "handleCreateKey hmac read env sr (Inr req) r s = Some (s', r', Inr resp, evs)"
  shows "\<exists>key r0 r1 minted. Mint (cq_Class req) read r0 = Some (Inr minted, r1) \<and> mk_Token resp = mt_Raw minted \<and> GetKey s' (mt_KID minted) = Inr key
    \<and> k_KID key = mt_KID minted \<and> k_SecretHMAC key = Hasher_Sum hmac (sr_hasher sr) (mt_Secret minted)
    \<and> k_Class key = cq_Class req \<and> k_Name key = cq_Name req \<and> k_Scope key = cq_Scope req \<and> \<not> Revoked key
    \<and> mk_Key resp = viewKey (ae_clock env 2) key
    \<and> (cq_Class req = ClassAgent \<and> Scope_Validate (cq_Scope req) = None \<or> cq_Class req = ClassAdmin \<and> cq_Scope req = None)
    \<and> (k_ExpiresAt key = 0 \<longrightarrow> cq_Class req = ClassAgent)
    \<and> resolveExpiry (cq_TTL req) (cq_NoExpiry req) (cq_Class req)
        (if cq_Class req = ClassAgent then sr_agentKeyTTL sr else sr_adminKeyTTL sr) (ae_clock env 0) = Some (k_ExpiresAt key)"
proof -
  let ?k = "\<lambda>t. \<lparr>k_KID = '''', k_Class = cq_Class req, k_Name = cq_Name req, k_Owner = cq_Owner req, k_SecretHMAC = '''', k_Scope = cq_Scope req,
    k_Enrollment = None, k_CreatedAt = ae_clock env 1, k_ExpiresAt = t, k_LastUsed = None, k_RevokedAt = None, k_RevokedReason = ''''\<rparr>"
  obtain t key raw where ok: "cq_Class req = ClassAgent \<and> Scope_Validate (cq_Scope req) = None \<or> cq_Class req = ClassAdmin \<and> cq_Scope req = None"
    and t: "resolveExpiry (cq_TTL req) (cq_NoExpiry req) (cq_Class req)
        (if cq_Class req = ClassAgent then sr_agentKeyTTL sr else sr_adminKeyTTL sr) (ae_clock env 0) = Some t"
    and mint: "mintKey hmac read env 0 (ae_clock env 1) sr (cq_Class req) (cq_Name req) (cq_Owner req) t (cq_Scope req) None r s = Some (s', r', Inr (key, raw))"
    and resp: "resp = mintedResponse (ae_clock env 2) key raw"
    using assms by (auto simp: handleCreateKey_def readBody_def Let_def split: if_splits option.splits sum.splits prod.splits)
  have zero: "t = 0 \<longrightarrow> cq_Class req = ClassAgent"
    and loop: "mint_loop hmac (sr_hasher sr) read (\<lambda>n k. store_write env n (OpPutKey (Some k))) (?k t) mintRetries 0 ErrInvalid r s = Some (s', r', Inr (key, raw))"
    using mint by (auto simp: mintKey_def mintKeyWith_def split: if_splits)
  from mint_loop_Inr [OF loop] obtain i r0 r1 minted s0 b where minted: "Mint (cq_Class req) read r0 = Some (Inr minted, r1)" "raw = mt_Raw minted"
    and key: "key = (?k t)\<lparr>k_KID := mt_KID minted, k_SecretHMAC := Hasher_Sum hmac (sr_hasher sr) (mt_Secret minted)\<rparr>"
    and put: "store_write env i (OpPutKey (Some key)) s0 = (s', Inr b)" by auto
  have "PutKey (Some key) (fst (run_ops (ae_others env i) s0)) = (s', Inr b)" using store_write_Inr [OF put always_changes(1)] by simp
  from GetKey_PutKey [OF this, of "k_KID key"] have "GetKey s' (mt_KID minted) = Inr key" by (simp add: key)
  then show ?thesis using minted ok t zero by (intro exI [of _ key] exI [of _ r0] exI [of _ r1] exI [of _ minted]) (simp add: key resp mintedResponse_def Revoked_def)
qed

end
