(* ===== verification/Hub_Public.thy ===== *)
theory Hub_Public
  imports Hub_Admin
begin

text \<open>
  The public routes of the hub, \<open>internal/hubapi/public.go\<close> and \<open>renewnonce.go\<close>: redeeming an enrollment token, renewing a certificate, and the
  published revocation list; with the enforcer of \<open>revocation.go\<close>.

  A handler that would dereference nil returns \<open>None\<close>. The clock of the authority is an argument of its own, as in the
  code; base64, SHA-256, HMAC and the signature schemes are arguments.
\<close>

subsection \<open>Renewal challenges\<close>

definition RenewChallengeTTL :: duration where "RenewChallengeTTL = 60 * Second"
definition renewNonceRandomBytes :: nat where "renewNonceRandomBytes = 16"
definition renewNonceExpiryBytes :: nat where "renewNonceExpiryBytes = 8"
definition renewNonceBodyBytes :: nat where "renewNonceBodyBytes = renewNonceRandomBytes + renewNonceExpiryBytes"
definition sha256_Size :: nat where "sha256_Size = 32"
definition renewNonceLen :: nat where "renewNonceLen = renewNonceBodyBytes + sha256_Size"
definition renewNonceDomain :: string where "renewNonceDomain = ''prometheus-mcp-fleet/renew-nonce/v1'' @ [CHR 0x00]"


datatype nonce_error = RenewNonceInvalid | RenewNonceExpired

text \<open>\<open>binary.BigEndian\<close> on eight bytes.\<close>

definition PutUint64 :: "64 word \<Rightarrow> string" where
  "PutUint64 w = map (\<lambda>k. char_of (unat (drop_bit k w))) [56, 48, 40, 32, 24, 16, 8, 0]"

definition Uint64 :: "string \<Rightarrow> 64 word" where
  "Uint64 b = word_of_nat (SetBytes b)"

text \<open>\<open>Time.Truncate\<close>, \<open>Time.Unix\<close> and \<open>time.Unix\<close>: Unix time starts 62135596800 seconds after Go's zero time.\<close>

definition time_Truncate :: "gotime \<Rightarrow> duration \<Rightarrow> gotime" where
  "time_Truncate t d = (if d \<le> 0 then t else t - t mod d)"

definition to_Unix :: "gotime \<Rightarrow> int" where
  "to_Unix t = t div Second - 62135596800"

definition from_Unix :: "int \<Rightarrow> gotime" where
  "from_Unix sec = wrap64 (sec + 62135596800) * Second"

definition renewNonceMACInput :: "string \<Rightarrow> string" where
  "renewNonceMACInput body = renewNonceDomain @ body"

text \<open>\<open>copy(dst, src)\<close> over a buffer.\<close>

definition copy_over :: "string \<Rightarrow> string \<Rightarrow> string" where
  "copy_over dst src = take (length dst) src @ drop (length src) dst"

definition issueRenewNonce :: "mac \<Rightarrow> Hasher option \<Rightarrow> string \<Rightarrow> gotime \<Rightarrow> string \<times> gotime" where
  "issueRenewNonce hmac h rnd now =
     (let expiresAt = time_Truncate (now + RenewChallengeTTL) Second;
          body = rnd @ PutUint64 (word_of_int (to_Unix expiresAt))
      in (body @ copy_over (replicate sha256_Size CHR 0x00) (Hasher_Sum hmac h (renewNonceMACInput body)), expiresAt))"

definition verifyRenewNonce :: "mac \<Rightarrow> Hasher option \<Rightarrow> string \<Rightarrow> gotime \<Rightarrow> nonce_error option" where
  "verifyRenewNonce hmac h nonce now =
     (if length nonce \<noteq> renewNonceLen then Some RenewNonceInvalid
      else
        (let body = take renewNonceBodyBytes nonce
         in if \<not> Hasher_Equal hmac h (drop renewNonceBodyBytes nonce) (renewNonceMACInput body) then Some RenewNonceInvalid
            else
              (let expiresAt = from_Unix (sint (Uint64 (drop renewNonceRandomBytes body)))
               in if now > expiresAt then Some RenewNonceExpired else None)))"

subsection \<open>Signing requests and chains\<close>

definition MaxCSRBytes :: nat where "MaxCSRBytes = push_bit 10 32"
definition MaxChainCerts :: nat where "MaxChainCerts = 8"

text \<open>\<open>b64 padded s\<close> is the standard decoder with or without padding.\<close>

definition decodeCSR :: "(bool \<Rightarrow> string \<Rightarrow> string option) \<Rightarrow> string \<Rightarrow> string option" where
  "decodeCSR b64 s =
     (let trimmed = TrimSpace s
      in case b64 True trimmed of Some der \<Rightarrow> Some der | None \<Rightarrow> b64 False trimmed)"

definition decodeCSRField :: "(bool \<Rightarrow> string \<Rightarrow> string option) \<Rightarrow> string \<Rightarrow> api_code + string" where
  "decodeCSRField b64 csr =
     (if csr = '''' then Inl InvalidRequest
      else if length csr > MaxCSRBytes then Inl InvalidRequest
      else case decodeCSR b64 csr of None \<Rightarrow> Inl InvalidRequest | Some der \<Rightarrow> Inr der)"

fun parse_chain :: "x509 \<Rightarrow> string list \<Rightarrow> Certificate list option" where
  "parse_chain x [] = Some []"
| "parse_chain x (b # bs) =
     (case x5_parse x b of
        None \<Rightarrow> None
      | Some cert \<Rightarrow> map_option (\<lambda>cs. cert # cs) (parse_chain x bs))"

definition readChain :: "x509 \<Rightarrow> string list \<Rightarrow> api_code + Certificate list" where
  "readChain x der =
     (if der = [] then Inl Unauthenticated
      else if length der > MaxChainCerts then Inl InvalidRequest
      else case parse_chain x der of None \<Rightarrow> Inl InvalidRequest | Some chain \<Rightarrow> Inr chain)"

definition readCSR :: "(bool \<Rightarrow> string \<Rightarrow> string option) \<Rightarrow> (body_error + string) \<Rightarrow> api_code + string" where
  "readCSR b64 body = (case readBody body of Inl code \<Rightarrow> Inl code | Inr csr \<Rightarrow> decodeCSRField b64 csr)"

record EnrollResponse =
  er_Certificate :: string
  er_CABundle :: string
  er_NotAfter :: gotime
  er_ClusterID :: string
  er_Serial :: string

subsection \<open>Enrollment\<close>

record pending =
  pe_KID :: string
  pe_ClusterID :: string
  pe_PEM :: string
  pe_Cert :: Certificate

text \<open>
  \<open>handleEnroll\<close> in two halves, up to the certificate that is signed and from the redemption on; other requests may run between them.
\<close>

definition enroll_begin ::
    "x509 \<Rightarrow> (bool \<Rightarrow> string \<Rightarrow> string option) \<Rightarrow> (int \<Rightarrow> int option) \<Rightarrow> gotime \<Rightarrow> api_env \<Rightarrow> api_server \<Rightarrow> Principal option \<Rightarrow> (body_error + string) \<Rightarrow> State
     \<Rightarrow> (State \<times> (api_code + pending) \<times> event list) option" where
  "enroll_begin x b64 draw caNow env sr who body s =
     (case who of
        None \<Rightarrow> Some (s, Inl Unauthenticated, [])
      | Some p \<Rightarrow>
          (case readCSR b64 body of
             Inl code \<Rightarrow> Some (s, Inl code, [])
           | Inr csrDER \<Rightarrow>
               (case store_read env 0 (\<lambda>s. GetKey s (p_KID p)) s of
                  (s, Inl _) \<Rightarrow> Some (s, Inl InternalError, [])
                | (s, Inr key) \<Rightarrow>
                    (case k_Enrollment key of
                       None \<Rightarrow> Some (s, Inl ForbiddenRequest, [])
                     | Some g \<Rightarrow>
                         if eg_ClusterID g = '''' then Some (s, Inl ForbiddenRequest, [])
                         else if \<not> eg_Reusable g \<and> eg_UsedAt g \<noteq> None then Some (s, Inl Conflict, [EventEnrollmentReplay])
                         else
                           (case IssueSpokeFromCSR x caNow draw csrDER (eg_ClusterID g) (sr_ca sr) of
                              Inl e \<Rightarrow> Some (s, Inl (if ErrCSRInvalid \<in> set e \<or> ErrInvalidClusterID \<in> set e then InvalidRequest else InternalError), [])
                            | Inr (_, None) \<Rightarrow> None
                            | Inr (certPEM, Some cert) \<Rightarrow>
                                Some (s, Inr \<lparr>pe_KID = k_KID key, pe_ClusterID = eg_ClusterID g, pe_PEM = certPEM, pe_Cert = cert\<rparr>, []))))))"

definition enroll_commit :: "api_env \<Rightarrow> api_server \<Rightarrow> pending \<Rightarrow> State \<Rightarrow> State \<times> (api_code + EnrollResponse) \<times> event list" where
  "enroll_commit env sr pe s =
     (let serial = SerialHex (xc_SerialNumber (pe_Cert pe))
      in case store_write env 1 (OpBurnEnrollment (pe_KID pe) serial (ae_clock env 0)) s of
           (s, Inl e) \<Rightarrow>
             if isConflict e then (s, Inl Conflict, [EventEnrollmentReplay]) else (s, Inl InternalError, [])
         | (s, Inr _) \<Rightarrow>
             (s, Inr \<lparr>er_Certificate = pe_PEM pe, er_CABundle = cm_bundlePEM (ca_material (sr_ca sr)), er_NotAfter = xc_NotAfter (pe_Cert pe),
                  er_ClusterID = pe_ClusterID pe, er_Serial = serial\<rparr>, [EventEnrollmentBurned, EventCertIssued]))"

definition handleEnroll ::
    "x509 \<Rightarrow> (bool \<Rightarrow> string \<Rightarrow> string option) \<Rightarrow> (int \<Rightarrow> int option) \<Rightarrow> gotime \<Rightarrow> api_env \<Rightarrow> api_server \<Rightarrow> Principal option \<Rightarrow> (body_error + string) \<Rightarrow> State
     \<Rightarrow> (State \<times> (api_code + EnrollResponse) \<times> event list) option" where
  "handleEnroll x b64 draw caNow env sr who body s =
     (case enroll_begin x b64 draw caNow env sr who body s of
        None \<Rightarrow> None
      | Some (s, Inl code, evs) \<Rightarrow> Some (s, Inl code, evs)
      | Some (s, Inr pe, evs) \<Rightarrow> (let (s, r, evs') = enroll_commit env sr pe s in Some (s, r, evs @ evs')))"

text \<open>\<open>next\<close> is the authenticated handler behind the gate.\<close>

definition enrollmentGate :: "api_server \<Rightarrow> (State \<Rightarrow> (State \<times> (api_code + 'a) \<times> event list) option) \<Rightarrow> State \<Rightarrow> (State \<times> (api_code + 'a) \<times> event list) option" where
  "enrollmentGate sr handler s =
     (if \<not> sr_enrollmentEnabled sr then Some (s, Inl Unavailable, [])
      else if sr_draining sr then Some (s, Inl Unavailable, [])
      else handler s)"

subsection \<open>Renewal\<close>

record RenewRequest =
  rn_CSR :: string
  rn_Chain :: "string list"
  rn_Signature :: string
  rn_Nonce :: string

definition revokedSerials :: "api_env \<Rightarrow> State \<Rightarrow> State \<times> (store_error + string set)" where
  "revokedSerials env s =
     (case store_read env 0 (\<lambda>s. Inr (ListRevokedCerts s)) s of
        (s, Inl e) \<Rightarrow> (s, Inl e)
      | (s, Inr entries) \<Rightarrow> (s, Inr (set (map rc_Serial entries))))"

definition handleRenew ::
    "x509 \<Rightarrow> crypto \<Rightarrow> mac \<Rightarrow> (bool \<Rightarrow> string \<Rightarrow> string option) \<Rightarrow> (int \<Rightarrow> int option) \<Rightarrow> (nat \<Rightarrow> gotime) \<Rightarrow> api_env \<Rightarrow> api_server \<Rightarrow> (body_error + RenewRequest) \<Rightarrow> State
     \<Rightarrow> (State \<times> (api_code + EnrollResponse) \<times> event list) option" where
  "handleRenew x cy hmac b64 draw caNow env sr body s =
     (if sr_draining sr then Some (s, Inl Unavailable, [])
      else case readBody body of
        Inl code \<Rightarrow> Some (s, Inl code, [])
      | Inr req \<Rightarrow>
      if verifyRenewNonce hmac (sr_hasher sr) (rn_Nonce req) (ae_clock env 0) \<noteq> None then Some (s, Inl Unauthenticated, [])
      else case readChain x (rn_Chain req) of
        Inl code \<Rightarrow> Some (s, Inl code, [])
      | Inr chain \<Rightarrow>
      (case VerifyChainAllowingExpiry x (caNow 0) (caNow 1) chain (sr_renewGrace sr) (sr_ca sr) of
        None \<Rightarrow> None
      | Some (Inl _) \<Rightarrow> Some (s, Inl ForbiddenRequest, [])
      | Some (Inr (identity, expired)) \<Rightarrow>
      (case revokedSerials env s of
        (s, Inl _) \<Rightarrow> Some (s, Inl InternalError, [])
      | (s, Inr revoked) \<Rightarrow>
      if id_CertSerial identity \<in> revoked then Some (s, Inl ForbiddenRequest, [EventCertRevoked])
      else case decodeCSRField b64 (rn_CSR req) of
        Inl code \<Rightarrow> Some (s, Inl code, [])
      | Inr csrDER \<Rightarrow>
      if Verify_proof cy (Some (xc_PublicKey (hd chain))) (rn_Signature req) (rn_Nonce req) RenewProtocolVersion (id_ClusterID identity) [CSRBinding cy csrDER] \<noteq> None
      then Some (s, Inl ForbiddenRequest, [EventRenewalUnproven])
      else case IssueSpokeFromCSR x (caNow 2) draw csrDER (id_ClusterID identity) (sr_ca sr) of
        Inl e \<Rightarrow> Some (s, Inl (if ErrCSRInvalid \<in> set e then InvalidRequest else InternalError), [])
      | Inr (_, None) \<Rightarrow> None
      | Inr (certPEM, Some cert) \<Rightarrow>
          Some (s, Inr \<lparr>er_Certificate = certPEM, er_CABundle = cm_bundlePEM (ca_material (sr_ca sr)), er_NotAfter = xc_NotAfter cert,
              er_ClusterID = id_ClusterID identity, er_Serial = SerialHex (xc_SerialNumber cert)\<rparr>,
            [if expired then EventCertRenewedExpired else EventCertRenewed]))))"

subsection \<open>Publication and enforcement\<close>

definition handlePKICRL ::
    "((int \<times> gotime) list \<Rightarrow> gotime \<Rightarrow> gotime \<Rightarrow> Certificate \<Rightarrow> PrivateKey \<Rightarrow> string option) \<Rightarrow> gotime \<Rightarrow> api_env \<Rightarrow> api_server \<Rightarrow> State \<Rightarrow> State \<times> (api_code + string)" where
  "handlePKICRL createList caNow env sr s =
     (case store_read env 0 (\<lambda>s. Inr (ListRevokedCerts s)) s of
        (s, Inl _) \<Rightarrow> (s, Inl InternalError)
      | (s, Inr entries) \<Rightarrow>
          (s, case CRL createList caNow (map (\<lambda>e. \<lparr>re_Serial = rc_Serial e, re_RevokedAt = rc_RevokedAt e\<rparr>) entries) (ae_clock env 0) (sr_crlValidity sr) (sr_ca sr) of
                Inl _ \<Rightarrow> Inl InternalError
              | Inr der \<Rightarrow> Inr der))"

definition uniqueSorted :: "string list \<Rightarrow> string list" where
  "uniqueSorted ids = remdups_adj (sort ids)"

text \<open>One pass of the enforcer: the sessions it closed, and the clusters its audit line names.\<close>

definition Enforce :: "gotime \<Rightarrow> ('s \<Rightarrow> string \<Rightarrow> 's \<times> bool) \<Rightarrow> 's \<Rightarrow> Registry \<Rightarrow> 's \<times> Registry \<times> string list \<times> (event \<times> string list) list" where
  "Enforce now isRevoked u reg =
     (let (u, reg, closed) = CloseRevokedBy now (Some isRevoked) u reg
      in (u, reg, closed, if closed = [] then [] else [(EventSessionRevoked, uniqueSorted closed)]))"

subsection \<open>A challenge verifies until it expires\<close>

lemma length_PutUint64 [simp]: "length (PutUint64 w) = 8"
  by (simp add: PutUint64_def)

lemma Uint64_PutUint64 [simp]: "Uint64 (PutUint64 w) = w"
proof -
  have "PutUint64 w = fill_loop (Suc (Suc (Suc (Suc (Suc (Suc (Suc (Suc 0)))))))) (unat w) []"
    by (simp add: PutUint64_def unat_drop_bit_eq) (simp add: drop_bit_eq_div div_mult2_eq [symmetric])
  moreover have "unat w < 256 ^ 8" by (rule order.strict_trans2 [OF unsigned_less]) simp
  ultimately have "SetBytes (PutUint64 w) = unat w" by (simp only: SetBytes_fill_loop) (simp add: SetBytes_def)
  then show ?thesis by (simp add: Uint64_def)
qed



subsection \<open>What a renewal establishes\<close>

lemma parse_chain_hd: "parse_chain x der = Some chain \<Longrightarrow> der \<noteq> [] \<Longrightarrow> chain \<noteq> [] \<and> x5_parse x (hd der) = Some (hd chain)"
  by (cases der) (auto split: option.splits)

lemma readChain_Inr: "readChain x der = Inr chain \<Longrightarrow> chain \<noteq> [] \<and> der \<noteq> [] \<and> x5_parse x (hd der) = Some (hd chain) \<and> length der \<le> MaxChainCerts"
  using parse_chain_hd by (auto simp: readChain_def split: if_splits option.splits)


lemma revokedSerials_Inr:
  "revokedSerials env s = (s', Inr revoked) \<Longrightarrow> s' = fst (run_ops (ae_others env 0) s) \<and> revoked = rc_Serial ` set (map snd (st_RevokedCerts (served env 0 s')))"
  by (auto simp: revokedSerials_def store_read_def Let_def ListRevokedCerts_def split: option.splits sum.splits prod.splits)

lemma handleRenew_Inr:
  assumes "handleRenew x cy hmac b64 draw caNow env sr body s = Some (s', Inr resp, evs)"
  obtains req chain identity expired csrDER cert pem where
    "body = Inr req" "\<not> sr_draining sr" "verifyRenewNonce hmac (sr_hasher sr) (rn_Nonce req) (ae_clock env 0) = None" "readChain x (rn_Chain req) = Inr chain"
    "VerifyChainAllowingExpiry x (caNow 0) (caNow 1) chain (sr_renewGrace sr) (sr_ca sr) = Some (Inr (identity, expired))"
    "s' = fst (run_ops (ae_others env 0) s)" "id_CertSerial identity \<notin> rc_Serial ` set (map snd (st_RevokedCerts (served env 0 s')))"
    "decodeCSRField b64 (rn_CSR req) = Inr csrDER"
    "Verify_proof cy (Some (xc_PublicKey (hd chain))) (rn_Signature req) (rn_Nonce req) RenewProtocolVersion (id_ClusterID identity) [CSRBinding cy csrDER] = None"
    "IssueSpokeFromCSR x (caNow 2) draw csrDER (id_ClusterID identity) (sr_ca sr) = Inr (pem, Some cert)"
    "er_Certificate resp = pem" "er_ClusterID resp = id_ClusterID identity" "er_Serial resp = SerialHex (xc_SerialNumber cert)" "er_NotAfter resp = xc_NotAfter cert"
proof -
  obtain req where req: "body = Inr req" "\<not> sr_draining sr" using assms
    by (cases body) (auto simp: handleRenew_def readBody_def split: if_splits body_error.splits)
  have nonce: "verifyRenewNonce hmac (sr_hasher sr) (rn_Nonce req) (ae_clock env 0) = None"
    using assms req by (auto simp: handleRenew_def readBody_def split: if_splits)
  obtain chain where chain: "readChain x (rn_Chain req) = Inr chain"
    using assms req nonce by (cases "readChain x (rn_Chain req)") (auto simp: handleRenew_def readBody_def)
  obtain identity expired where ident: "VerifyChainAllowingExpiry x (caNow 0) (caNow 1) chain (sr_renewGrace sr) (sr_ca sr) = Some (Inr (identity, expired))"
    using assms req nonce chain by (auto simp: handleRenew_def readBody_def split: option.splits sum.splits)
  obtain s1 revoked where rev: "revokedSerials env s = (s1, Inr revoked)"
    using assms req nonce chain ident by (cases "revokedSerials env s"; cases "snd (revokedSerials env s)") (auto simp: handleRenew_def readBody_def)
  have fresh: "id_CertSerial identity \<notin> revoked"
    using assms req nonce chain ident rev by (auto simp: handleRenew_def readBody_def split: if_splits)
  obtain csrDER where csr: "decodeCSRField b64 (rn_CSR req) = Inr csrDER"
    using assms req nonce chain ident rev fresh by (cases "decodeCSRField b64 (rn_CSR req)") (auto simp: handleRenew_def readBody_def)
  have proven: "Verify_proof cy (Some (xc_PublicKey (hd chain))) (rn_Signature req) (rn_Nonce req) RenewProtocolVersion (id_ClusterID identity) [CSRBinding cy csrDER] = None"
    using assms req nonce chain ident rev fresh csr by (auto simp: handleRenew_def readBody_def split: if_splits)
  obtain pem cert where issued: "IssueSpokeFromCSR x (caNow 2) draw csrDER (id_ClusterID identity) (sr_ca sr) = Inr (pem, Some cert)"
    using assms req nonce chain ident rev fresh csr proven by (auto simp: handleRenew_def readBody_def split: sum.splits option.splits)
  have "s' = s1" "er_Certificate resp = pem" "er_ClusterID resp = id_ClusterID identity" "er_Serial resp = SerialHex (xc_SerialNumber cert)" "er_NotAfter resp = xc_NotAfter cert"
    using assms req nonce chain ident rev fresh csr proven issued by (auto simp: handleRenew_def readBody_def)
  then show thesis using that [OF req nonce chain ident _ _ csr proven issued] revokedSerials_Inr [OF rev] fresh by simp
qed


subsection \<open>A revoked certificate stays revoked\<close>

definition covers :: "gotime \<Rightarrow> RevokedCert \<Rightarrow> bool" where
  "covers n rc \<longleftrightarrow> IsZero (rc_NotAfter rc) \<or> n \<le> rc_NotAfter rc"

definition listed :: "string \<Rightarrow> gotime \<Rightarrow> State \<Rightarrow> bool" where
  "listed serial n s \<longleftrightarrow> (\<exists>rc. map_of (st_RevokedCerts s) serial = Some rc \<and> covers n rc)"

text \<open>
  What is asked of other operations: pruning keeps entries at least for the grace and runs no later than \<open>now\<close>, and whoever revokes the same
  serial again names an expiry that is not before the certificate's.
\<close>

fun spares :: "string \<Rightarrow> gotime \<Rightarrow> gotime \<Rightarrow> duration \<Rightarrow> gotime \<times> store_op \<Rightarrow> bool" where
  "spares serial n now grace (t, OpPrune retain) \<longleftrightarrow> t \<le> now \<and> grace \<le> retain"
| "spares serial n now grace (t, OpRevokeCert rc) \<longleftrightarrow> (rc_Serial rc = serial \<longrightarrow> covers n rc)"
| "spares serial n now grace (t, op) \<longleftrightarrow> True"

lemma listed_Prune:
  assumes "wf_state s" and "listed serial n s" and "t \<le> n + max 0 grace" and "grace \<le> retain"
  shows "listed serial n (fst (Prune t retain s))"
proof (cases "retain < 0")
  case True
  then show ?thesis using assms(2) by (simp add: Prune_def)
next
  case False
  obtain rc where rc: "map_of (st_RevokedCerts s) serial = Some rc" "covers n rc" using assms(2) by (auto simp: listed_def)
  have "keeps_cert t retain rc" using rc(2) assms(3,4) False by (auto simp: keeps_cert_def covers_def)
  then show ?thesis using rc assms(1) False Prune_Certs_lookup [of s t retain serial] by (auto simp: listed_def)
qed

lemma listed_apply_op:
  assumes "wf_state s" and "listed serial n s" and "spares serial n now grace (t, op)" and "now \<le> n + max 0 grace"
  shows "listed serial n (fst (apply_op t op s))"
proof (cases op)
  case (OpRevokeCert rc)
  then show ?thesis using assms(2,3) by (auto simp: RevokeCert_def Let_def listed_def covers_def bump_def)
next
  case (OpPrune retain)
  then show ?thesis using assms listed_Prune [OF assms(1,2), of t grace retain] by simp
qed (use assms(2) in \<open>auto simp: listed_def state_op_defs bump_def Let_def split: option.splits if_splits prod.splits bool.splits\<close>)

lemma listed_run_ops:
  assumes "wf_state s" and "listed serial n s" and "\<forall>e \<in> set ops. spares serial n now grace e" and "now \<le> n + max 0 grace"
  shows "listed serial n (fst (run_ops ops s))"
  using assms
proof (induction ops arbitrary: s)
  case (Cons e ops)
  obtain t op where e: "e = (t, op)" by (cases e)
  have "listed serial n (fst (apply_op t op s))" using Cons.prems e by (intro listed_apply_op [of s serial n now grace]) auto
  then show ?case using Cons.IH [of "fst (apply_op t op s)"] Cons.prems wf_apply_op e by auto
qed simp

text \<open>What an accepted revocation records.\<close>

lemma handleRevokeCert_lists:
  assumes "handleRevokeCert env closeAt sr serial (Some (Inr q)) reg s = (s', reg', Inr (), evs)" and "wf_state s"
    and "n \<le> (if IsZero (rv_NotAfter q) then ae_clock env 0 + sr_spokeCertTTL sr else rv_NotAfter q)"
  shows "wf_state s' \<and> listed serial n s'"
proof -
  let ?until = "if IsZero (rv_NotAfter q) then ae_clock env 0 + sr_spokeCertTTL sr else rv_NotAfter q"
  let ?rc = "\<lparr>rc_Serial = serial, rc_RevokedAt = ae_clock env 0, rc_NotAfter = ?until, rc_Reason = rv_Reason q\<rparr>"
  obtain b where w: "store_write env 0 (OpRevokeCert ?rc) s = (s', Inr b)"
    using assms(1) by (auto simp: handleRevokeCert_def readOptionalBody_def readBody_def Let_def split: if_splits prod.splits sum.splits)
  then have ap: "RevokeCert ?rc (ae_opClock env 0) (fst (run_ops (ae_others env 0) s)) = (s', Inr b)" using store_write_Inr [OF w always_changes(2)] by simp
  then have "wf_state s'" using wf_RevokeCert [OF wf_run_ops [OF assms(2)], of ?rc "ae_opClock env 0" "ae_others env 0"] by simp
  moreover have "listed serial n s'" using ap assms(3)
    by (auto simp: RevokeCert_def Let_def listed_def covers_def bump_def split: if_splits)
  ultimately show ?thesis ..
qed

text \<open>C4. A revoked certificate is not renewed once the revocation is seen. After the admin API has accepted the revocation of a serial for
  the rest of the certificate's life, no renewal with that certificate succeeds, on any replica whose store fetches the document or
  serves a copy no older than the revocation, however long the certificate has been expired and whatever other operations have run: the
  pruning that the hub schedules keeps the entry for as long as the grace could still let the certificate in. A replica may
  serve an older copy for the lifetime of its cache (\<open>cachedSecret\<close> of \<open>Secretstore\<close>).\<close>

theorem revoked_certificate_never_renewed:
  assumes dates: "\<And>leaf roots ims t. x5_verify x leaf roots ims t \<Longrightarrow> t \<le> xc_NotAfter leaf"
    and "wf_state s0" and "handleRevokeCert env0 closeAt sr0 serial (Some (Inr q)) reg s0 = (s1, reg', Inr (), evs0)"
    and leaf: "x5_parse x (hd (rn_Chain req)) = Some leaf" "SerialHex (xc_SerialNumber leaf) = serial"
      "xc_NotAfter leaf \<le> (if IsZero (rv_NotAfter q) then ae_clock env0 0 + sr_spokeCertTTL sr0 else rv_NotAfter q)"
    and copy: "ae_copy env 0 = None \<or> ae_copy env 0 = Some (fst (run_ops ops' s1))"
    and ops: "\<forall>e \<in> set (ops @ ae_others env 0 @ ops'). spares serial (xc_NotAfter leaf) (min (caNow 0) (caNow 1)) (sr_renewGrace sr) e"
  shows "handleRenew x cy hmac b64 draw caNow env sr (Inr req) (fst (run_ops ops s1)) \<noteq> Some (s', Inr resp, evs)"
proof
  assume "handleRenew x cy hmac b64 draw caNow env sr (Inr req) (fst (run_ops ops s1)) = Some (s', Inr resp, evs)"
  then show False
  proof (cases rule: handleRenew_Inr)
    case (1 req' chain identity expired csrDER cert pem)
    have "hd chain = leaf" using readChain_Inr [OF 1(4)] 1(1) leaf(1) by simp
    then obtain ims where chain: "chain = leaf # ims" "IdentityFromCert (Some leaf) (sr_ca sr) = Inr identity"
      and late: "if expired then caNow 1 \<le> xc_NotAfter leaf + sr_renewGrace sr \<and> xc_NotAfter leaf < caNow 1
        else x5_verify x leaf (cm_roots (ca_material (sr_ca sr))) ims (caNow 0)"
      using VerifyChainAllowingExpiry_Inr [OF 1(5)] by (auto split: if_splits)
    have serial: "id_CertSerial identity = serial" using IdentityFromCert_Inr [OF chain(2)] leaf(2) by auto
    have now: "min (caNow 0) (caNow 1) \<le> xc_NotAfter leaf + max 0 (sr_renewGrace sr)"
      using late dates [of leaf _ ims "caNow 0"] by (fastforce split: if_splits)
    have s1: "wf_state s1 \<and> listed serial (xc_NotAfter leaf) s1" by (rule handleRevokeCert_lists [OF assms(3,2) leaf(3)])
    have seen: "wf_state (fst (run_ops es s1)) \<and> listed serial (xc_NotAfter leaf) (fst (run_ops es s1))"
      if "set es \<subseteq> set (ops @ ae_others env 0 @ ops')" for es
      using s1 ops now that wf_run_ops listed_run_ops [where now = "min (caNow 0) (caNow 1)" and grace = "sr_renewGrace sr" and ops = es and s = s1] by blast
    have s': "s' = fst (run_ops (ops @ ae_others env 0) s1)" using 1(6) by (simp add: run_ops_append)
    have read: "wf_state (served env 0 s') \<and> listed serial (xc_NotAfter leaf) (served env 0 s')"
    proof (cases "ae_copy env 0")
      case None
      then show ?thesis using s' seen [of "ops @ ae_others env 0"] by (auto simp: served_def)
    next
      case (Some d)
      then have "d = fst (run_ops ops' s1)" using copy by simp
      then show ?thesis using Some seen [of ops'] by (auto simp: served_def)
    qed
    then obtain rc where rc: "map_of (st_RevokedCerts (served env 0 s')) serial = Some rc" by (auto simp: listed_def)
    then have "rc_Serial rc = serial" using read by (auto simp: wf_state_iff wf_cert_entry_def)
    then have "serial \<in> rc_Serial ` set (map snd (st_RevokedCerts (served env 0 s')))" using map_of_SomeD [OF rc] by force
    then show False using 1(7) serial by simp
  qed
qed

definition example_crypto :: crypto where
  "example_crypto = \<lparr>cy_sha256 = (\<lambda>t. t), cy_ecdsa = (\<lambda>_ digest sig. digest = sig), cy_rsa = (\<lambda>_ _ _. False)\<rparr>"

definition example_mac :: mac where "example_mac p m = replicate 32 CHR ''m''"

definition example_hasher :: "Hasher option" where "example_hasher = Some \<lparr>h_pepper = replicate 32 CHR ''p'', h_decoyHMAC = ''''\<rparr>"

definition example_api_server :: api_server where
  "example_api_server = \<lparr>sr_hasher = example_hasher, sr_ca = example_ca, sr_agentKeyTTL = 100, sr_adminKeyTTL = 100, sr_enrollmentTTL = 100,
     sr_spokeCertTTL = 10 * Second, sr_crlValidity = 1, sr_renewGrace = 5 * Second, sr_enrollmentEnabled = True, sr_draining = False\<rparr>"

definition example_api_env :: "gotime \<Rightarrow> (gotime \<times> store_op) list \<Rightarrow> api_env" where
  "example_api_env now ops = \<lparr>ae_clock = (\<lambda>_. now), ae_opClock = (\<lambda>_. now), ae_others = (\<lambda>_. ops), ae_copy = (\<lambda>_. None), ae_fault = (\<lambda>_. None)\<rparr>"

definition example_b64 :: "bool \<Rightarrow> string \<Rightarrow> string option" where "example_b64 padded s = Some s"

lemma example_api_simps [simp]:
  "sr_hasher example_api_server = example_hasher" "sr_ca example_api_server = example_ca" "sr_renewGrace example_api_server = 5 * Second"
  "sr_spokeCertTTL example_api_server = 10 * Second" "\<not> sr_draining example_api_server" "sr_enrollmentEnabled example_api_server"
  "ae_clock (example_api_env now ops) i = now" "ae_opClock (example_api_env now ops) i = now" "ae_others (example_api_env now ops) i = ops" "served (example_api_env now ops) i s = s"
  "ae_copy (example_api_env now ops) i = None" "ae_fault (example_api_env now ops) i = None"
  by (simp_all add: example_api_server_def example_api_env_def served_def)

definition example_nonce :: string where
  "example_nonce = fst (issueRenewNonce example_mac example_hasher (replicate 16 CHR ''r'') 0)"


definition example_leaf :: Certificate where
  "example_leaf = example_issued\<lparr>xc_Raw := ''d'', xc_PublicKey := example_pub, xc_NotBefore := whole_seconds (xc_NotBefore example_issued)\<rparr>"

lemma example_leaf_facts:
  "x5_parse example_x509 der = Some example_leaf" "xc_NotAfter example_leaf = 20 * Second" "xc_PublicKey example_leaf = example_pub"
  "xc_SerialNumber example_leaf = Some 42" "x5_verify example_x509 leaf roots ims t \<longleftrightarrow> roots \<noteq> [] \<and> t \<le> xc_NotAfter leaf"
  "IssueSpokeFromCSR example_x509 (10 * Second) example_draw csr ''c1'' example_ca = Inr (''d'', Some example_leaf)"
proof -
  have "x5_csr example_x509 s = Some (example_pub, True)" for s by (simp add: example_x509_def)
  then have "IssueSpokeFromCSR example_x509 (10 * Second) example_draw csr ''c1'' example_ca = IssueSpokeFromCSR example_x509 (10 * Second) example_draw ''csr'' ''c1'' example_ca"
    by (simp only: IssueSpokeFromCSR_def)
  then show "IssueSpokeFromCSR example_x509 (10 * Second) example_draw csr ''c1'' example_ca = Inr (''d'', Some example_leaf)"
    using example_issue by (simp only: example_leaf_def)
qed (simp_all add: example_leaf_def example_x509_def example_issued_def)


text \<open>The exchange that the holder of the key signs in the example; a signature is the transcript itself.\<close>

definition example_renewal :: "string \<Rightarrow> RenewRequest" where
  "example_renewal sig = \<lparr>rn_CSR = ''csr'', rn_Chain = [''d''], rn_Signature = sig, rn_Nonce = example_nonce\<rparr>"


lemma example_csr: "decodeCSRField example_b64 (rn_CSR (example_renewal sig)) = Inr ''csr''"
proof -
  have "TrimSpace ''csr'' = ''csr''" by (simp add: TrimSpace_def rune_spans_ascii byte_def IsSpace_def)
  then show ?thesis by (simp add: decodeCSRField_def example_renewal_def decodeCSR_def example_b64_def MaxCSRBytes_def push_bit_eq_mult)
qed



theorem revoked_certificate_never_renewed_witness:
  "\<exists>s1. handleRevokeCert (example_api_env (5 * Second) []) 0 example_api_server (SerialHex (Some 42)) (Some (Inr \<lparr>rv_Reason = ''lost'', rv_NotAfter = 20 * Second\<rparr>)) None NewState
         = (s1, None, Inr (), [EventCertRevoked])
     \<and> (\<forall>sig s' resp evs. handleRenew example_x509 example_crypto example_mac example_b64 example_draw (\<lambda>_. 10 * Second) ((example_api_env 0 [(9 * Second, OpPrune (5 * Second))])\<lparr>ae_copy := (\<lambda>_. Some s1)\<rparr>)
          example_api_server (Inr (example_renewal sig)) (fst (run_ops [(8 * Second, OpPrune (6 * Second))] s1)) \<noteq> Some (s', Inr resp, evs))"
proof -
  let ?q = "\<lparr>rv_Reason = ''lost'', rv_NotAfter = 20 * Second\<rparr>"
  have "hex_text 42 = ''2a''" by (simp add: hex_text.simps [of 42] hex_text.simps [of 2] lower_hex_def char_of_def bit_0)
  then have hex: "SerialHex (Some 42) = ''2a''" by (simp add: SerialHex_def)
  have valid: "validSerial ''2a''" by (simp add: validSerial_def serialRE_def is_digit_def byte_def less_eq_char_def)
  have "TrimSpace ''lost'' = ''lost''" by (simp add: TrimSpace_def rune_spans_ascii byte_def IsSpace_def)
  moreover have "runes ''lost'' = map byte ''lost''" by (rule runes_ascii) (simp add: byte_def)
  ultimately have reason: "validateReason ''lost''" by (simp add: validateReason_def printable_def IsControl_def byte_def MaxReasonBytes_def)
  have "\<exists>s1. handleRevokeCert (example_api_env (5 * Second) []) 0 example_api_server (SerialHex (Some 42)) (Some (Inr ?q)) None NewState = (s1, None, Inr (), [EventCertRevoked])"
    by (simp add: hex valid reason handleRevokeCert_def readOptionalBody_def readBody_def store_write_def RevokeCert_def closeRevokedSessions_def Second_def)
  then obtain s1 where rev: "handleRevokeCert (example_api_env (5 * Second) []) 0 example_api_server (SerialHex (Some 42)) (Some (Inr ?q)) None NewState = (s1, None, Inr (), [EventCertRevoked])"
    by blast
  have "handleRenew example_x509 example_crypto example_mac example_b64 example_draw (\<lambda>_. 10 * Second) ((example_api_env 0 [(9 * Second, OpPrune (5 * Second))])\<lparr>ae_copy := (\<lambda>_. Some s1)\<rparr>)
      example_api_server (Inr (example_renewal sig)) (fst (run_ops [(8 * Second, OpPrune (6 * Second))] s1)) \<noteq> Some (s', Inr resp, evs)" for sig s' resp evs
    by (rule revoked_certificate_never_renewed [OF _ wf_NewState rev, where leaf = example_leaf and ops' = "[]"])
       (simp_all add: example_leaf_facts example_renewal_def, simp_all add: Second_def)
  then show ?thesis using rev by blast
qed

subsection \<open>Every certificate is paid for\<close>

definition bound_to :: "string \<Rightarrow> string \<Rightarrow> State \<Rightarrow> bool" where
  "bound_to cl kid s \<longleftrightarrow> (\<forall>rec g. map_of (st_Keys s) kid = Some rec \<and> k_Enrollment (kr_Key rec) = Some g \<longrightarrow> eg_ClusterID g = cl)"

lemma bound_to_bump [simp]: "bound_to cl kid (bump s) = bound_to cl kid s"
  by (simp add: bound_to_def bump_def)

lemma bound_to_write:
  assumes "bound_to cl kid s" and "k = kid \<Longrightarrow> \<exists>old. map_of (st_Keys s) kid = Some old
     \<and> map_option eg_ClusterID (k_Enrollment (kr_Key rec)) = map_option eg_ClusterID (k_Enrollment (kr_Key old))"
  shows "bound_to cl kid (s\<lparr>st_Keys := AList.update k rec (st_Keys s)\<rparr>)"
proof (cases "k = kid")
  case True
  then obtain old where old: "map_of (st_Keys s) kid = Some old"
    "map_option eg_ClusterID (k_Enrollment (kr_Key rec)) = map_option eg_ClusterID (k_Enrollment (kr_Key old))" using assms(2) by blast
  then have "eg_ClusterID g = cl" if "k_Enrollment (kr_Key rec) = Some g" for g
    using that assms(1) by (cases "k_Enrollment (kr_Key old)") (auto simp: bound_to_def)
  then show ?thesis using True by (simp add: bound_to_def)
qed (use assms(1) in \<open>simp add: bound_to_def\<close>)

lemma bound_to_putKey: "bound_to cl kid s \<Longrightarrow> k_KID k \<noteq> kid \<Longrightarrow> bound_to cl kid (putKey s k)"
  by (simp add: putKey_def Let_def bound_to_write)

lemma bound_to_PutKey: "bound_to cl kid s \<Longrightarrow> \<not> puts_kid kid (OpPutKey k) \<Longrightarrow> bound_to cl kid (fst (PutKey k s))"
  by (cases k) (auto simp: PutKey_def validateKey_def bound_to_putKey split: option.splits)

lemma bound_to_apply_op:
  assumes "wf_state s" and "bound_to cl kid s" and "\<not> puts_kid kid op"
  shows "bound_to cl kid (fst (apply_op t op s))"
proof (cases op)
  case (OpPutKey k)
  then show ?thesis using assms(2,3) bound_to_PutKey by simp
next
  case (OpPutKeyIfNoUsable k tm)
  then show ?thesis using assms(2,3) by (cases k) (auto simp: PutKeyIfNoUsable_def validateKey_def bound_to_putKey split: option.splits)
next
  case (OpRevokeKey k reason tm)
  then show ?thesis using assms(2) by (auto simp: RevokeKey_def Let_def intro!: bound_to_write split: option.splits)
next
  case (OpReplaceKey k old reason tm)
  have "bound_to cl kid (fst (PutKey k s))" using assms(2,3) OpReplaceKey by (cases k) (auto intro: bound_to_PutKey)
  moreover have "map_of (st_Keys (fst (PutKey k s))) kid = map_of (st_Keys s) kid"
    using assms(3) OpReplaceKey by (cases k) (auto simp: PutKey_def validateKey_def putKey_def Let_def bump_def split: option.splits)
  ultimately show ?thesis using OpReplaceKey assms(2)
    by (cases "PutKey k s") (auto simp: ReplaceKey_def Let_def intro!: bound_to_write split: option.splits sum.splits)
next
  case (OpDeleteKey k)
  then show ?thesis using assms(2) by (auto simp: DeleteKey_def bound_to_def bump_def split: option.splits if_splits)
next
  case (OpTouchKey k tm)
  then show ?thesis using assms(2) by (auto simp: TouchKey_def Let_def intro!: bound_to_write split: option.splits)
next
  case (OpBurnEnrollment k serial tm)
  then show ?thesis using assms(2) by (auto simp: BurnEnrollment_def Let_def intro!: bound_to_write split: option.splits bool.splits)
next
  case (OpRevokeCert rc)
  then show ?thesis using assms(2) by (simp add: RevokeCert_def Let_def bound_to_def bump_def)
next
  case (OpPrune retain)
  then show ?thesis using assms(1,2) Prune_Keys_lookup [OF assms(1), of t retain kid] by (auto simp: bound_to_def split: option.splits if_splits)
qed

text \<open>
  Enrollments in flight on any number of replicas: \<open>es_pending\<close> are certificates signed whose tokens are still to be redeemed, \<open>es_issued\<close> those
  that were handed out. \<open>es_past\<close> are earlier versions of the document, of which a replica may still be serving a copy. Each replica has its own server, with the same options of the authority. \<open>kid\<close> is a token that nobody stores anew.
\<close>

record enroll_sys =
  es_doc :: State
  es_past :: "State list"
  es_pending :: "pending list"
  es_issued :: "pending list"

inductive enroll_step :: "x509 \<Rightarrow> ca_options \<Rightarrow> string \<Rightarrow> enroll_sys \<Rightarrow> enroll_sys \<Rightarrow> bool" for x opts kid where
  es_other: "\<not> puts_kid kid op \<Longrightarrow> enroll_step x opts kid y (y\<lparr>es_doc := fst (apply_op t op (es_doc y)), es_past := es_doc y # es_past y\<rparr>)"
| es_begin: "ca_opts (sr_ca sr) = opts \<Longrightarrow> ae_others env 0 = [] \<Longrightarrow> set_option (ae_copy env 0) \<subseteq> set (es_past y) \<Longrightarrow> enroll_begin x b64 draw caNow env sr who body (es_doc y) = Some (s, Inr pe, evs)
    \<Longrightarrow> enroll_step x opts kid y (y\<lparr>es_doc := s, es_pending := pe # es_pending y\<rparr>)"
| es_commit: "pe \<in> set (es_pending y) \<Longrightarrow> ae_others env 1 = [] \<Longrightarrow> enroll_commit env sr pe (es_doc y) = (s, r, evs)
    \<Longrightarrow> enroll_step x opts kid y (y\<lparr>es_doc := s, es_past := es_doc y # es_past y, es_pending := remove1 pe (es_pending y), es_issued := (if isl r then es_issued y else pe # es_issued y)\<rparr>)"

definition spent :: "string \<Rightarrow> enroll_sys \<Rightarrow> nat" where
  "spent kid y = length (filter (\<lambda>pe. pe_KID pe = kid) (es_issued y))"

definition names :: "ca_options \<Rightarrow> string \<Rightarrow> string \<Rightarrow> pending \<Rightarrow> bool" where
  "names opts kid cl pe \<longleftrightarrow>
     (pe_KID pe = kid \<longrightarrow> pe_ClusterID pe = cl \<and> (\<forall>c. ca_opts c = opts \<longrightarrow> map_sum id id_ClusterID (IdentityFromCert (Some (pe_Cert pe)) c) = Inr cl))"

definition enroll_inv :: "ca_options \<Rightarrow> string \<Rightarrow> string \<Rightarrow> enat \<Rightarrow> enroll_sys \<Rightarrow> bool" where
  "enroll_inv opts kid cl budget y \<longleftrightarrow> (\<forall>d \<in> set (es_doc y # es_past y). wf_state d \<and> bound_to cl kid d) \<and> burn_budget (es_doc y) kid + of_nat (spent kid y) \<le> budget
     \<and> (\<forall>pe \<in> set (es_pending y) \<union> set (es_issued y). names opts kid cl pe)"

lemma SpokeURI_opts: "ca_opts c = ca_opts c' \<Longrightarrow> SpokeURI cid c = SpokeURI cid c'"
  by (simp add: SpokeURI_def)

lemma enroll_begin_Inr:
  assumes "x509_laws x" and "ca_validate (ca_opts (sr_ca sr)) = None" and "wf_state (served env 0 s)" and "ae_others env 0 = []"
    and "enroll_begin x b64 draw caNow env sr who body s = Some (s', Inr pe, evs)"
  shows "s' = s \<and> (bound_to cl kid (served env 0 s) \<longrightarrow> names (ca_opts (sr_ca sr)) kid cl pe)"
proof -
  obtain p :: Principal and csrDER key g pem cert where run: "s' = s" "GetKey (served env 0 s) (p_KID p) = Inr key" "k_Enrollment key = Some g"
    "IssueSpokeFromCSR x caNow draw csrDER (eg_ClusterID g) (sr_ca sr) = Inr (pem, Some cert)"
    "pe = \<lparr>pe_KID = k_KID key, pe_ClusterID = eg_ClusterID g, pe_PEM = pem, pe_Cert = cert\<rparr>"
    using assms(4,5) by (auto simp: enroll_begin_def store_read_def Let_def split: option.splits sum.splits if_splits prod.splits)
  obtain rec where rec: "map_of (st_Keys (served env 0 s)) (p_KID p) = Some rec" "key = KeyRecord_value rec" using run(2) unfolding GetKey_value by blast
  then have kid: "k_KID key = p_KID p" "k_Enrollment (kr_Key rec) = Some g" using wf_state_entry [OF assms(3) rec(1)] run(3) by (simp_all add: wf_key_entry_def)
  have cert: "ValidClusterID (eg_ClusterID g)" "xc_URIs cert = [SpokeURI (eg_ClusterID g) (sr_ca sr)]"
    using IssueSpokeFromCSR_leaf [OF assms(1,2) run(4)] by auto
  have ident: "ca_opts c = ca_opts (sr_ca sr) \<Longrightarrow> map_sum id id_ClusterID (IdentityFromCert (Some cert) c) = Inr (eg_ClusterID g)" for c
    using IdentityFromCert_SpokeURI [OF cert(1), of cert c] cert(2) SpokeURI_opts [of c "sr_ca sr"] by simp
  then show ?thesis using run(1,5) rec(1) kid by (auto simp: names_def bound_to_def)
qed

lemma enroll_commit_effect:
  assumes "ae_others env 1 = []" and "enroll_commit env sr pe s = (s', r, evs)"
  shows "\<exists>t serial tm. (s' = s \<and> isl r)
     \<or> s' = fst (apply_op t (OpBurnEnrollment (pe_KID pe) serial tm) s) \<and> (\<not> isl r \<longrightarrow> snd (apply_op t (OpBurnEnrollment (pe_KID pe) serial tm) s) = Inr True)"
proof -
  let ?t = "ae_opClock env 1" and ?op = "OpBurnEnrollment (pe_KID pe) (SerialHex (xc_SerialNumber (pe_Cert pe))) (ae_clock env 0)"
  obtain q where w: "store_write env 1 ?op s = (s', q)" and r: "isl r \<longleftrightarrow> isl q"
    using assms(2) by (cases "store_write env 1 ?op s") (auto simp: enroll_commit_def Let_def split: sum.splits if_splits)
  have "snd (apply_op ?t ?op s) = Inr True \<or> isl (snd (apply_op ?t ?op s))" by (auto simp: changed_only_def split: sum.splits)
  then have "s' = s \<and> isl q \<or> s' = fst (apply_op ?t ?op s) \<and> (\<not> isl q \<longrightarrow> snd (apply_op ?t ?op s) = Inr True)"
    using store_write_effect [OF w always_changes(3)] assms(1) by (auto simp del: apply_op.simps)
  then show ?thesis using r by blast
qed

lemma spends_one:
  fixes budget :: enat
  assumes "wf_state s" and "burn_budget s kid + of_nat n \<le> budget" and "\<not> puts_kid kid op"
    and "m \<le> burns_of kid [(t, op)] [snd (apply_op t op s)] + n"
  shows "burn_budget (fst (apply_op t op s)) kid + of_nat m \<le> budget"
proof -
  let ?b = "burn_budget (fst (apply_op t op s)) kid" and ?k = "burns_of kid [(t, op)] [snd (apply_op t op s)]"
  have "?b + of_nat ?k \<le> burn_budget s kid" by (rule apply_op_spends [OF assms(1,3)])
  then have "?b + of_nat ?k + of_nat n \<le> burn_budget s kid + of_nat n" by (rule add_right_mono)
  then have "?b + of_nat (?k + n) \<le> budget" using assms(2) by (simp only: of_nat_add add.assoc order.trans)
  moreover have "?b + of_nat m \<le> ?b + of_nat (?k + n)" using assms(4) by (intro add_left_mono of_nat_mono)
  ultimately show ?thesis by (rule order.trans [rotated])
qed

lemma enroll_inv_step:
  assumes "x509_laws x" and "ca_validate opts = None" and "enroll_step x opts kid y z" and inv: "enroll_inv opts kid cl budget y"
  shows "enroll_inv opts kid cl budget z"
  using assms(3)
proof cases
  case (es_other op t)
  have "burn_budget (fst (apply_op t op (es_doc y))) kid + of_nat (spent kid y) \<le> budget"
    using inv es_other(2) by (intro spends_one [where n = "spent kid y"]) (simp_all add: enroll_inv_def)
  then show ?thesis using inv es_other wf_apply_op bound_to_apply_op by (auto simp: enroll_inv_def spent_def)
next
  case (es_begin sr env b64 draw caNow who body s pe evs)
  have "wf_state (served env 0 (es_doc y))" "bound_to cl kid (served env 0 (es_doc y))"
    using inv es_begin(4) by (cases "ae_copy env 0"; auto simp: enroll_inv_def served_def)+
  then have "s = es_doc y \<and> names opts kid cl pe" using enroll_begin_Inr [OF assms(1) _ _ es_begin(3,5), of cl kid] assms(2) es_begin(2) by auto
  then show ?thesis using inv es_begin(1) by (auto simp: enroll_inv_def spent_def)
next
  case (es_commit pe env sr s r evs)
  let ?op = "\<lambda>serial tm. OpBurnEnrollment (pe_KID pe) serial tm"
  have named: "names opts kid cl pe" using inv es_commit(2) by (auto simp: enroll_inv_def)
  from enroll_commit_effect [OF es_commit(3,4)] obtain t serial tm where "s = es_doc y \<and> isl r
     \<or> s = fst (apply_op t (?op serial tm) (es_doc y)) \<and> (\<not> isl r \<longrightarrow> snd (apply_op t (?op serial tm) (es_doc y)) = Inr True)" by blast
  then show ?thesis
  proof
    assume "s = es_doc y \<and> isl r"
    then show ?thesis using inv es_commit(1) set_remove1_subset [of pe "es_pending y"] by (auto simp: enroll_inv_def spent_def)
  next
    assume burn: "s = fst (apply_op t (?op serial tm) (es_doc y)) \<and> (\<not> isl r \<longrightarrow> snd (apply_op t (?op serial tm) (es_doc y)) = Inr True)"
    have "spent kid z \<le> burns_of kid [(t, ?op serial tm)] [snd (apply_op t (?op serial tm) (es_doc y))] + spent kid y"
      using burn es_commit(1) by (auto simp: spent_def)
    then have "burn_budget s kid + of_nat (spent kid z) \<le> budget"
      using inv spends_one [of "es_doc y" kid "spent kid y" budget "?op serial tm" "spent kid z" t] burn by (simp add: enroll_inv_def)
    then show ?thesis using inv burn named es_commit(1) wf_apply_op [of "es_doc y" t "?op serial tm"] bound_to_apply_op [of "es_doc y" cl kid "?op serial tm" t]
        set_remove1_subset [of pe "es_pending y"] by (auto simp: enroll_inv_def)
  qed
qed

text \<open>C2. Every certificate is paid for. However enrollments interleave, on any number of replicas and with any other
  operations, and although a replica may read the token from an earlier version of the document, a single-use token buys at most one certificate and a capped one at most as many as redemptions are left,
  even though the certificate is signed before the token is redeemed; and each certificate names the cluster that
  the token is bound to.\<close>

theorem certificates_are_paid_for:
  assumes "x509_laws x" and "ca_validate opts = None" and "(enroll_step x opts kid)\<^sup>*\<^sup>* \<lparr>es_doc = s, es_past = past, es_pending = [], es_issued = []\<rparr> y"
    and "\<forall>d \<in> set past. wf_state d \<and> bound_to (eg_ClusterID g) kid d" and "wf_state s" and "map_of (st_Keys s) kid = Some rec" and "k_Enrollment (kr_Key rec) = Some g"
  shows "(\<not> eg_Reusable g \<longrightarrow> spent kid y \<le> (if eg_UsedAt g = None then 1 else 0))
     \<and> (eg_Reusable g \<and> 0 < eg_MaxRedemptions g \<longrightarrow> spent kid y \<le> nat (eg_MaxRedemptions g - eg_Redemptions g))
     \<and> (\<forall>pe \<in> set (es_issued y). pe_KID pe = kid \<longrightarrow> pe_ClusterID pe = eg_ClusterID g
          \<and> (\<forall>c. ca_opts c = opts \<longrightarrow> map_sum id id_ClusterID (IdentityFromCert (Some (pe_Cert pe)) c) = Inr (eg_ClusterID g)))"
proof -
  have "enroll_inv opts kid (eg_ClusterID g) (burn_budget s kid) y"
    using assms(3)
  proof (induction rule: rtranclp_induct)
    case base
    then show ?case using assms(4-7) by (auto simp: enroll_inv_def bound_to_def spent_def)
  next
    case (step y z)
    then show ?case using enroll_inv_step [OF assms(1,2)] by blast
  qed
  then have "of_nat (spent kid y) \<le> burn_budget s kid" and issued: "\<forall>pe \<in> set (es_issued y). names opts kid (eg_ClusterID g) pe"
    by (auto simp: enroll_inv_def intro: order.trans [OF _ add_left_mono [OF order.refl]] elim: order.trans [rotated])
  then show ?thesis using assms(6,7) unfolding names_def
    by (auto simp: burn_budget_def of_nat_eq_enat one_enat_def zero_enat_def split: if_splits)
qed

definition example_principal :: Principal where
  "example_principal = \<lparr>p_KID = ''k1'', p_Name = ''n'', p_Class = ClassEnrollment, p_Role = '''', p_Scope = None, p_Epoch = 0\<rparr>"

definition example_pending :: pending where
  "example_pending = \<lparr>pe_KID = ''k1'', pe_ClusterID = ''c1'', pe_PEM = ''d'', pe_Cert = example_leaf\<rparr>"

lemma example_begins:
  assumes "ae_others env 0 = []" and "ae_fault env 0 = None" and "served env 0 s = example_state"
  shows "enroll_begin example_x509 example_b64 example_draw (10 * Second) env example_api_server (Some example_principal) (Inr ''csr'') s
     = Some (s, Inr example_pending, [])"
proof -
  have "GetKey example_state ''k1'' = Inr (KeyRecord_value example_record)" by (simp add: GetKey_value example_state_lookup)
  moreover have "readCSR example_b64 (Inr ''csr'') = Inr ''csr''" using example_csr [of "''''"] by (simp add: readCSR_def readBody_def example_renewal_def)
  moreover have "k_Enrollment (KeyRecord_value example_record) = Some (example_grant False)" "k_KID (KeyRecord_value example_record) = ''k1''"
    by (simp_all add: example_record_def example_key_def)
  ultimately show ?thesis using assms
    by (simp add: enroll_begin_def example_principal_def store_read_def example_pending_def example_grant_def example_leaf_facts)
qed

lemma example_begin:
  "enroll_begin example_x509 example_b64 example_draw (10 * Second) (example_api_env 10 []) example_api_server (Some example_principal) (Inr ''csr'') example_state
     = Some (example_state, Inr example_pending, [])"
  by (rule example_begins) simp_all

lemma example_begin_copy:
  "enroll_begin example_x509 example_b64 example_draw (10 * Second) ((example_api_env 10 [])\<lparr>ae_copy := (\<lambda>_. Some example_state)\<rparr>)
     example_api_server (Some example_principal) (Inr ''csr'') s = Some (s, Inr example_pending, [])"
  by (rule example_begins) (simp_all add: served_def)

lemma example_commit:
  "\<exists>s resp evs. enroll_commit (example_api_env 10 []) example_api_server example_pending example_state = (s, Inr resp, evs) \<and> s \<noteq> example_state"
proof -
  have "SerialHex (Some 42) \<noteq> ''''" using hex_text_hd [of 42] by (simp add: SerialHex_def)
  moreover have "k_Class (kr_Key example_record) = ClassEnrollment" "k_Enrollment (kr_Key example_record) = Some (example_grant False)" "Usable (kr_Key example_record) 10"
    by (simp_all add: example_record_def example_key_def Usable_def Revoked_def Expired_def)
  ultimately obtain s k where burn: "BurnEnrollment ''k1'' (SerialHex (Some 42)) 10 10 example_state = (s, Inr k)" "st_Epoch s \<noteq> st_Epoch example_state"
    by (simp add: BurnEnrollment_def example_state_lookup example_grant_def Let_def bump_def)
  then have "s \<noteq> example_state" by blast
  then show ?thesis using burn(1) by (simp add: enroll_commit_def example_pending_def example_leaf_facts store_write_def changed_only_def)
qed

theorem certificates_are_paid_for_witness:
  "\<exists>y. (enroll_step example_x509 (ca_opts example_ca) ''k1'')\<^sup>*\<^sup>* \<lparr>es_doc = example_state, es_past = [NewState], es_pending = [], es_issued = []\<rparr> y
     \<and> es_issued y = [example_pending] \<and> es_pending y = [example_pending] \<and> es_doc y \<noteq> example_state \<and> spent ''k1'' y \<le> 1"
proof -
  let ?step = "enroll_step example_x509 (ca_opts example_ca) ''k1''"
  let ?y = "\<lambda>n. \<lparr>es_doc = example_state, es_past = [NewState], es_pending = replicate n example_pending, es_issued = []\<rparr>"
  obtain s resp evs where commit: "enroll_commit (example_api_env 10 []) example_api_server example_pending example_state = (s, Inr resp, evs)"
    and s: "s \<noteq> example_state" using example_commit by blast
  have begun: "?step (?y 0) (?y (Suc 0))"
    using es_begin [of example_api_server "ca_opts example_ca" "example_api_env 10 []" "?y 0" example_x509 example_b64 example_draw "10 * Second" "Some example_principal" "Inr ''csr''"] example_begin
    by simp
  let ?u = "\<lparr>es_doc = s, es_past = [example_state, NewState], es_pending = [], es_issued = [example_pending]\<rparr>"
  let ?z = "?u\<lparr>es_pending := [example_pending]\<rparr>" and ?env = "(example_api_env 10 [])\<lparr>ae_copy := (\<lambda>_. Some example_state)\<rparr>"
  have paid: "?step (?y (Suc 0)) ?u"
    using es_commit [of example_pending "?y (Suc 0)" "example_api_env 10 []" example_api_server s "Inr resp" evs example_x509 "ca_opts example_ca" "''k1''"] commit
    by simp
  have again: "?step ?u ?z"
    using es_begin [of example_api_server "ca_opts example_ca" ?env ?u example_x509 example_b64 example_draw "10 * Second" "Some example_principal" "Inr ''csr''"] example_begin_copy [of s]
    by simp
  have reach: "?step\<^sup>*\<^sup>* \<lparr>es_doc = example_state, es_past = [NewState], es_pending = [], es_issued = []\<rparr> ?z"
    using begun paid again by (simp add: rtranclp.rtrancl_into_rtrancl [OF rtranclp.rtrancl_into_rtrancl [OF r_into_rtranclp]])
  moreover have "spent ''k1'' ?z \<le> 1"
    using certificates_are_paid_for [OF example_laws_x509 example_ca_simps(3) reach _ example_state_wf example_state_lookup, of "example_grant False"] wf_NewState
    by (simp add: example_record_def example_key_def example_grant_def bound_to_def NewState_def)
  ultimately show ?thesis using s by (intro exI [of _ ?z] conjI) simp_all
qed

end
