(* ===== verification/Spec2Isabelle.thy ===== *)
theory Spec2Isabelle
  imports Verifier Nearest Promproxy Rotation Secretstore Hub_Public
begin

text \<open>
  \<^bold>\<open>What is verified.\<close> prometheus-mcp-fleet connects AI agents to the Prometheus servers of many clusters. A hub
  keeps the credentials, the certificate authority and a registry of live tunnels; in each cluster a spoke
  dials the hub and answers queries. An agent's call is authenticated (\<open>internal/authn\<close>, \<open>internal/token\<close>) against
  the credential document (\<open>internal/store\<close>), authorized by the key's scope (\<open>internal/fleet\<close>) on labels that the
  registry holds (\<open>internal/registry\<close>), reduced to an allow-listed request (\<open>internal/promapi\<close>) and sent through a
  tunnel within budgets (\<open>internal/promproxy\<close>). Credentials are minted, rotated and revoked through an admin API, and spokes
  enroll and renew their certificates through a public one (\<open>internal/hubapi\<close>, \<open>internal/ca\<close>, \<open>internal/certproof\<close>).
  Beside this the hub rotates its certificate authority (\<open>internal/hub\<close>) and keeps its document in a Kubernetes Secret (\<open>internal/store/secretstore\<close>, \<open>internal/kube\<close>).

  \<^bold>\<open>Theories.\<close> All paths are under \<open>src/internal\<close>; definitions keep the names of the Go code, with the type's name or
  a suffix added where two would clash.

  \<^item> \<open>Fleet_Prelude\<close>, \<open>Go_Strings\<close>: Go's integers, durations, maps, UTF-8 and string functions, and lemmas all theories share.
  \<^item> \<open>Fleet_Types\<close>: keys, principals, clusters and scopes of \<open>fleet/\<close>; that tightening a scope takes away exactly what was denied.
  \<^item> \<open>Store_State\<close>: \<open>store/state.go\<close>, every operation on the credential document. Its invariant is \<open>wf_state\<close>; the locales
    \<open>doc_mutation\<close> and \<open>guarded_mutation\<close> state what a mutation keeps and are interpreted on each operation. Shown over
    every history: enrollment tokens are not overspent, the epoch guards decisions, and the passes that \<open>hub/prune.go\<close> schedules change no
    decision, where a revoked certificate is refused until the renewal grace after its expiry is over.
  \<^item> \<open>Secretstore\<close>: \<open>store/secretstore/secretstore.go\<close> and the Secret requests of \<open>kube/\<close>; the compare-and-swap loop applies
    an operation exactly once, under every interleaving with other replicas.
  \<^item> \<open>Token\<close>: \<open>token/\<close>, minting, parsing, base62, CRC-32C and the keyed hash; parsing inverts minting and detects damage.
  \<^item> \<open>Lru\<close>, \<open>Limiter\<close>, \<open>Verifier\<close>: \<open>authn/\<close>. The pointer-based cache refines a recency list (locale \<open>bounded_cache\<close>); lockouts
    are bounded; over every interleaving of requests with store writes, a cached acceptance is as current as the copy that the store
    serves, whose age is bounded by the parameter \<open>lag\<close>.
  \<^item> \<open>Registry\<close>, \<open>Nearest\<close>: \<open>registry/\<close>, one definition per critical section, sessions as slots on an explicit heap. The locale
    \<open>label_policy\<close> carries the proof that operator labels win. Shown: reconnect races, revocation sweeps, fair routing, visibility,
    eviction; suggestions are by true edit distance.
  \<^item> \<open>Promapi\<close>: \<open>promapi/promapi.go\<close>, the table of endpoints; recognising a path inverts building it, and validation is exact.
  \<^item> \<open>Sem\<close>, \<open>Promproxy\<close>: \<open>promproxy/\<close>, the budgets as step relations and the whole call; the byte budget is conserved and granted first in, first out; a call is confined to its scope and the
    allow-list, denials reveal nothing, budgets are returned on every way out.
  \<^item> \<open>Rotation\<close>: \<open>hub/carotation.go\<close> and \<open>hub/caissuers.go\<close>, the rotation as a step relation of polls, issuing and time;
    retirement strands no certificate, and a rotation completes.
  \<^item> \<open>Certproof\<close>: \<open>certproof/certproof.go\<close>; the signed transcript determines each of its fields.
  \<^item> \<open>Authority\<close>: \<open>ca/\<close>, issuing, identities, chain verification, trust bundles and revocation lists over the record \<open>x509\<close> of
    what the code uses of \<open>crypto/x509\<close>; \<open>x509_laws\<close> states what the theorems rely on. A certificate names the cluster it was issued for.
  \<^item> \<open>Hub_Admin\<close>, \<open>Hub_Public\<close>: \<open>hubapi/\<close>, one definition per handler over the document of \<open>Store_State\<close>. The record \<open>api_env\<close> lets
    other replicas run any operations before each access to the store, lets the store serve a kept copy in place of the current
    document, and lets each access fail, a write with or without effect.
    Enrollment is split at its only gap, between signing and redeeming, and \<open>enroll_step\<close> interleaves any number of them:
    every certificate is paid for. A renewal is proven by the holder of the old key, and a revoked certificate is not renewed
    once the copy served is no older than the revocation.
  \<^item> \<open>Spec2Isabelle\<close>: from the admin API to the verifier, a minted credential is accepted as what was asked for.

  \<^bold>\<open>Reading the models.\<close> State is passed explicitly, one record per Go struct; a goroutine interleaving is a list of steps or an
  inductive step relation whose steps are the critical sections of the code. Errors are values: a sum whose left side is
  the error, or a list of the sentinels that an error wraps. Things the repository does not contain are arguments: entropy,
  clock, HMAC, signatures, X.509 and PEM, base64, JSON codec, API server, tunnel peers, \<open>time.Parse\<close>, \<open>strconv.ParseFloat\<close>, gzip. Where a theorem relies on
  one of them its hypotheses say so, and the witness after the theorem instantiates it.

  \<^bold>\<open>Bounds and fuel.\<close> Go's \<open>int64\<close> is \<open>int\<close>, wrapped by \<open>wrap64\<close> where overflow can occur; checksums and the epoch are words.
  Loops are total functions, except drawing random digits, which need not end on every entropy stream: it is a partial
  function whose result \<open>None\<close> is non-termination, with a theorem when it returns. The attempts of the
  compare-and-swap loop are counted by the configured maximum, which \<open>Open\<close> requires to be positive; those of minting by
  \<open>mintRetries\<close>. A handler's result \<open>None\<close> is a panic or an entropy source that never yields an identifier.

  \<^bold>\<open>Not modelled.\<close> Transports, HTTP plumbing, command line, configuration loading, logging and metrics are I/O around third-party
  libraries. The file store and the creation of an authority on disk are sequences of file system calls.
  Tool bodies and rendering assemble text from decoded JSON. Generated code and test kits carry no logic of their own.
\<close>

subsection \<open>Minting a credential and using it\<close>






end
